(* ===== verification/Prelude.thy ===== *)
theory Prelude
  imports
    Main
    "HOL-Library.Word"
    "HOL-Library.AList"
    "HOL-Library.Char_ord"
    "HOL-Library.List_Lexorder"
begin

text \<open>
  Shared base of the development: names for Go's machine integers, the signed operations of
  Go's \<^verbatim>\<open>int64\<close>, the model of Go's built-in \<^verbatim>\<open>map\<close> with its \<^verbatim>\<open>range\<close> loop, and the
  generic facts about them that the components share.

  A Go \<^verbatim>\<open>map\<close> is an association list with pairwise different keys (\<open>wf_map\<close>). The order
  of the list is the order in which a \<^verbatim>\<open>range\<close> loop happens to visit the entries. Go leaves
  that order open, so it must not matter: the components prove that their results depend on
  the finite map only, never on the order of the list.
\<close>

section \<open>Machine integers\<close>

type_synonym u8 = "8 word"
type_synonym u16 = "16 word"
type_synonym u32 = "32 word"
type_synonym u64 = "64 word"

text \<open>\<open>i64\<close> is read in two's complement (\<open>sint\<close>, \<open><s\<close>, \<open>\<le>s\<close>).\<close>

type_synonym i64 = "64 word"

type_synonym byte = u8

named_theorems go_arith \<open>facts that move word arithmetic to the integers\<close>

text \<open>Go's built-in \<^verbatim>\<open>max\<close> on \<^verbatim>\<open>int64\<close> operands.\<close>

definition smax :: "i64 \<Rightarrow> i64 \<Rightarrow> i64" where
  "smax a b = (if a <s b then b else a)"

lemma sint_smax [go_arith]: "sint (smax a b) = max (sint a) (sint b)"
  by (simp add: smax_def word_sless_alt max_def)

lemma smax_cases: "smax a b = a \<or> smax a b = b"
  by (simp add: smax_def)

lemma unat_max [go_arith]: "unat (max a b) = max (unat a) (unat b)"
  for a b :: "'a::len word"
  by (simp add: max_def word_le_nat_alt)

lemma unat_plus_one [go_arith]:
  "unat a + 1 < 2 ^ LENGTH('a) \<Longrightarrow> unat (a + 1) = unat a + 1"
  for a :: "'a::len word"
  by (simp add: unat_word_ariths)

lemma unat_plus_one_not_max: "a \<noteq> - 1 \<Longrightarrow> unat (a + 1) = unat a + 1"
  for a :: "'a::len word"
  by (metis Suc_eq_plus1 add.commute eq_neg_iff_add_eq_0 unatSuc)

lemma less_plus_one:
  "unat a + 1 < 2 ^ LENGTH('a) \<Longrightarrow> a < a + 1"
  for a :: "'a::len word"
  by (simp add: word_less_nat_alt go_arith)

lemma sint_inject_iff: "sint a = sint b \<longleftrightarrow> a = b"
  for a b :: "'a::len word"
  by (rule signed_word_eqI [THEN iffI, rotated]) auto

text \<open>Signed 64-bit arithmetic is exact while the result is an \<^verbatim>\<open>int64\<close>.\<close>

lemma sint_bounds: "- (2 ^ 63) \<le> sint x" "sint x < 2 ^ 63" for x :: i64
  using sint_ge [of x] sint_lt [of x] by simp_all

lemma sint_plus:
  fixes a b :: i64
  assumes "- (2 ^ 63) \<le> sint a + sint b" and "sint a + sint b < 2 ^ 63"
  shows "sint (a + b) = sint a + sint b"
  using assms by (simp add: sint_word_ariths signed_take_bit_int_eq_self)

lemma sint_uminus:
  fixes a :: i64
  assumes "sint a \<noteq> - (2 ^ 63)"
  shows "sint (- a) = - sint a"
  using assms sint_bounds [of a] by (simp add: sint_word_ariths signed_take_bit_int_eq_self)

lemma sint_minus:
  fixes a b :: i64
  assumes "- (2 ^ 63) \<le> sint a - sint b" and "sint a - sint b < 2 ^ 63"
  shows "sint (a - b) = sint a - sint b"
  using assms by (simp add: sint_word_ariths signed_take_bit_int_eq_self)

lemma sint_of_int:
  "- (2 ^ 63) \<le> k \<Longrightarrow> k < 2 ^ 63 \<Longrightarrow> sint (word_of_int k :: i64) = k"
  by (simp add: sint_sbintrunc' signed_take_bit_int_eq_self)

section \<open>Go's built-in map\<close>

type_synonym ('k, 'v) gomap = "('k \<times> 'v) list"

definition keys :: "('k, 'v) gomap \<Rightarrow> 'k list" where
  "keys m = List.map fst m"

definition wf_map :: "('k, 'v) gomap \<Rightarrow> bool" where
  "wf_map m \<longleftrightarrow> distinct (keys m)"

text \<open>
  \<open>mget z m k\<close> is the expression \<^verbatim>\<open>m[k]\<close>, which yields the zero value \<open>z\<close> of the element
  type for an absent key; \<open>mhas m k\<close> is the \<^verbatim>\<open>ok\<close> of \<^verbatim>\<open>_, ok := m[k]\<close>; \<open>mput k v m\<close> is the
  assignment \<^verbatim>\<open>m[k] = v\<close>, and \<^verbatim>\<open>len(m)\<close> is the length of the list.
\<close>

definition mget :: "'v \<Rightarrow> ('k, 'v) gomap \<Rightarrow> 'k \<Rightarrow> 'v" where
  "mget z m k = (case map_of m k of None \<Rightarrow> z | Some v \<Rightarrow> v)"

definition mhas :: "('k, 'v) gomap \<Rightarrow> 'k \<Rightarrow> bool" where
  "mhas m k \<longleftrightarrow> map_of m k \<noteq> None"

definition mput :: "'k \<Rightarrow> 'v \<Rightarrow> ('k, 'v) gomap \<Rightarrow> ('k, 'v) gomap" where
  "mput k v m = AList.update k v m"

text \<open>
  \<^verbatim>\<open>for k, v := range m { body }\<close>: \<open>range_loop\<close> for a body that updates the local state,
  \<open>range_all\<close> for a body \<^verbatim>\<open>if !P { return false }\<close> followed by \<^verbatim>\<open>return true\<close>.
\<close>

fun range_loop :: "('k \<Rightarrow> 'v \<Rightarrow> 's \<Rightarrow> 's) \<Rightarrow> ('k, 'v) gomap \<Rightarrow> 's \<Rightarrow> 's" where
  "range_loop body [] s = s"
| "range_loop body ((k, v) # m) s = range_loop body m (body k v s)"

fun range_all :: "('k \<Rightarrow> 'v \<Rightarrow> bool) \<Rightarrow> ('k, 'v) gomap \<Rightarrow> bool" where
  "range_all P [] = True"
| "range_all P ((k, v) # m) = (if \<not> P k v then False else range_all P m)"

subsection \<open>Lookup and update\<close>

lemma mget_mput [simp]: "mget z (mput k v m) j = (if j = k then v else mget z m j)"
  by (simp add: mget_def mput_def update_conv')

lemma mhas_mput [simp]: "mhas (mput k v m) j \<longleftrightarrow> j = k \<or> mhas m j"
  by (simp add: mhas_def mput_def update_conv')

lemma mget_Nil [simp]: "mget z [] k = z"
  by (simp add: mget_def)

lemma mhas_Nil [simp]: "\<not> mhas [] k"
  by (simp add: mhas_def)

lemma wf_map_Nil [simp]: "wf_map []"
  by (simp add: wf_map_def keys_def)

lemma mhas_iff: "mhas m k \<longleftrightarrow> k \<in> set (keys m)"
  by (simp add: mhas_def keys_def map_of_eq_None_iff)

lemma keys_mput: "set (keys (mput k v m)) = insert k (set (keys m))"
  by (simp add: keys_def mput_def dom_update)

lemma mget_absent: "\<not> mhas m k \<Longrightarrow> mget z m k = z"
  by (simp add: mhas_def mget_def)

lemma mget_in: "wf_map m \<Longrightarrow> (k, v) \<in> set m \<Longrightarrow> mget z m k = v"
  by (simp add: wf_map_def keys_def mget_def)

lemma in_mget: "mhas m k \<Longrightarrow> (k, mget z m k) \<in> set m"
  by (auto simp: mhas_def mget_def dest: map_of_SomeD)

lemma wf_map_mput [simp, intro]: "wf_map m \<Longrightarrow> wf_map (mput k v m)"
  by (simp add: wf_map_def keys_def mput_def distinct_update)

lemma length_mput: "length (mput k v m) = (if mhas m k then length m else length m + 1)"
  by (induction m) (auto simp: mput_def mhas_def)

lemma wf_map_Cons: "wf_map ((k, v) # m) \<longleftrightarrow> \<not> mhas m k \<and> wf_map m"
  by (simp add: wf_map_def keys_def mhas_def map_of_eq_None_iff)

lemma mget_Cons: "mget z ((k, v) # m) j = (if j = k then v else mget z m j)"
  by (simp add: mget_def)

lemma mput_absent: "\<not> mhas m k \<Longrightarrow> mput k v m = m @ [(k, v)]"
  by (induction m) (auto simp: mput_def mhas_def split: if_splits)

subsection \<open>Two lists for the same map\<close>

text \<open>
  \<open>same_map m m'\<close>: both lists stand for one finite map and differ only in the order in
  which a \<^verbatim>\<open>range\<close> loop would visit it.
\<close>

definition same_map :: "('k, 'v) gomap \<Rightarrow> ('k, 'v) gomap \<Rightarrow> bool" where
  "same_map m m' \<longleftrightarrow> map_of m = map_of m'"

lemma same_map_refl [simp]: "same_map m m"
  by (simp add: same_map_def)

lemma same_map_mget: "same_map m m' \<Longrightarrow> mget z m k = mget z m' k"
  by (simp add: same_map_def mget_def)

lemma same_map_mhas: "same_map m m' \<Longrightarrow> mhas m k = mhas m' k"
  by (simp add: same_map_def mhas_def)

lemma same_map_set: "wf_map m \<Longrightarrow> wf_map m' \<Longrightarrow> same_map m m' \<longleftrightarrow> set m = set m'"
  by (auto simp: wf_map_def keys_def same_map_def map_of_inject_set)

lemma same_map_length:
  assumes "wf_map m" and "wf_map m'" and "same_map m m'"
  shows "length m = length m'"
proof -
  have "distinct m" and "distinct m'"
    using assms(1,2) by (auto simp: wf_map_def keys_def distinct_map)
  moreover have "set m = set m'"
    using assms same_map_set by blast
  ultimately show ?thesis by (metis distinct_card)
qed

lemma same_mapI: "(\<And>k. mhas m k = mhas m' k) \<Longrightarrow> (\<And>k. mget z m k = mget z m' k) \<Longrightarrow> same_map m m'"
  unfolding same_map_def mhas_def mget_def
  by (rule ext) (metis not_None_eq option.case(2))

subsection \<open>Range loops\<close>

lemma range_all_iff: "range_all P m \<longleftrightarrow> (\<forall>(k, v) \<in> set m. P k v)"
  by (induction P m rule: range_all.induct) auto

lemma range_all_mget:
  "wf_map m \<Longrightarrow> range_all P m \<longleftrightarrow> (\<forall>k. mhas m k \<longrightarrow> P k (mget z m k))"
  by (fastforce simp: range_all_iff mhas_iff keys_def mget_in dest: in_mget [of m _ z, unfolded mhas_iff keys_def])

lemma range_loop_append: "range_loop b (m @ m') s = range_loop b m' (range_loop b m s)"
  by (induction b m s rule: range_loop.induct) auto

text \<open>Any property the body keeps is kept by the loop.\<close>

lemma range_loop_inv:
  "I s \<Longrightarrow> (\<And>k v s. (k, v) \<in> set m \<Longrightarrow> I s \<Longrightarrow> I (b k v s)) \<Longrightarrow> I (range_loop b m s)"
  by (induction b m s rule: range_loop.induct) auto

text \<open>\<^verbatim>\<open>for k, v := range m { cp[k] = v }\<close> into a fresh map rebuilds the map.\<close>

definition copy_loop :: "('k, 'v) gomap \<Rightarrow> ('k, 'v) gomap \<Rightarrow> ('k, 'v) gomap" where
  "copy_loop m cp = range_loop (\<lambda>k v cp. mput k v cp) m cp"

lemma copy_loop_append:
  "wf_map m \<Longrightarrow> (\<And>k. mhas m k \<Longrightarrow> \<not> mhas cp k) \<Longrightarrow> copy_loop m cp = cp @ m"
proof (induction m arbitrary: cp)
  case Nil
  then show ?case by (simp add: copy_loop_def)
next
  case (Cons e m)
  obtain k v where e: "e = (k, v)" by fastforce
  have "\<not> mhas cp k" using Cons.prems(2) [of k] by (simp add: e mhas_def)
  then have put: "mput k v cp = cp @ [(k, v)]" by (rule mput_absent)
  have "copy_loop m (cp @ [(k, v)]) = (cp @ [(k, v)]) @ m"
  proof (rule Cons.IH)
    show "wf_map m" using Cons.prems(1) by (simp add: e wf_map_Cons)
  next
    fix j assume j: "mhas m j"
    then have "j \<noteq> k" using Cons.prems(1) by (auto simp: e wf_map_Cons)
    moreover have "\<not> mhas cp j" using Cons.prems(2) [of j] j by (auto simp: e mhas_def)
    ultimately show "\<not> mhas (cp @ [(k, v)]) j" by (simp add: mhas_def map_add_def)
  qed
  then show ?case by (simp add: copy_loop_def e put)
qed

lemma copy_loop_fresh [simp]: "wf_map m \<Longrightarrow> copy_loop m [] = m"
  by (simp add: copy_loop_append)

section \<open>Maps of counters\<close>

text \<open>Both vector clocks and dotted versions are a Go \<^verbatim>\<open>map[string]uint64\<close>.\<close>

type_synonym counters = "(string, u64) gomap"

abbreviation cget :: "counters \<Rightarrow> string \<Rightarrow> u64" where
  "cget \<equiv> mget 0"

definition no_zero :: "counters \<Rightarrow> bool" where
  "no_zero m \<longleftrightarrow> (\<forall>(k, v) \<in> set m. v \<noteq> 0)"

text \<open>The element-wise maximum, as the loop \<^verbatim>\<open>if c > acc[k] { acc[k] = c }\<close>.\<close>

definition max_loop :: "counters \<Rightarrow> counters \<Rightarrow> counters" where
  "max_loop m acc = range_loop (\<lambda>k c acc. if c > cget acc k then mput k c acc else acc) m acc"

lemma max_loop_simps [simp]:
  "max_loop [] acc = acc"
  "max_loop ((k, c) # m) acc = max_loop m (if c > cget acc k then mput k c acc else acc)"
  by (simp_all add: max_loop_def)

lemma cget_max_loop: "wf_map m \<Longrightarrow> cget (max_loop m acc) k = max (cget acc k) (cget m k)"
proof (induction m arbitrary: acc)
  case Nil
  then show ?case by simp
next
  case (Cons e m)
  obtain j c where e: "e = (j, c)" by fastforce
  have "wf_map m" and "cget m j = 0"
    using Cons.prems by (auto simp: e wf_map_Cons mget_absent)
  then show ?case
    using Cons.IH [of "if c > cget acc j then mput j c acc else acc"]
    by (auto simp: e mget_Cons max_def not_less)
qed

lemma mhas_max_loop:
  "wf_map m \<Longrightarrow> mhas (max_loop m acc) k \<longleftrightarrow> mhas acc k \<or> 0 < cget m k \<and> \<not> mhas acc k"
proof (induction m arbitrary: acc)
  case Nil
  then show ?case by simp
next
  case (Cons e m)
  obtain j c where e: "e = (j, c)" by fastforce
  have "wf_map m" and "cget m j = 0"
    using Cons.prems by (auto simp: e wf_map_Cons mget_absent)
  then show ?case
    using Cons.IH [of "if c > cget acc j then mput j c acc else acc"]
    by (auto simp: e mget_Cons mget_absent word_gt_0)
qed

lemma wf_map_max_loop [simp]: "wf_map acc \<Longrightarrow> wf_map (max_loop m acc)"
  unfolding max_loop_def by (rule range_loop_inv [where I = wf_map]) auto

lemma no_zero_mput: "wf_map m \<Longrightarrow> no_zero m \<Longrightarrow> v \<noteq> 0 \<Longrightarrow> no_zero (mput k v m)"
  unfolding no_zero_def mput_def by (induction m) (auto split: if_splits simp: wf_map_Cons)

lemma no_zero_Nil [simp]: "no_zero []"
  by (simp add: no_zero_def)

lemma no_zero_max_loop: "wf_map acc \<Longrightarrow> no_zero acc \<Longrightarrow> no_zero (max_loop m acc)"
proof -
  assume "wf_map acc" and "no_zero acc"
  then have "wf_map (max_loop m acc) \<and> no_zero (max_loop m acc)"
    unfolding max_loop_def
    by (intro range_loop_inv [where I = "\<lambda>a. wf_map a \<and> no_zero a"])
       (auto intro!: no_zero_mput simp: word_gt_0)
  then show ?thesis ..
qed

lemma no_zero_mhas: "wf_map m \<Longrightarrow> no_zero m \<Longrightarrow> mhas m k \<longleftrightarrow> cget m k \<noteq> 0"
  unfolding no_zero_def using in_mget [of m k 0] mget_absent by fastforce

text \<open>Without zero entries, a map is determined by the counters it answers.\<close>

lemma no_zero_same_map:
  "wf_map m \<Longrightarrow> wf_map m' \<Longrightarrow> no_zero m \<Longrightarrow> no_zero m' \<Longrightarrow>
    same_map m m' \<longleftrightarrow> (\<forall>k. cget m k = cget m' k)"
  by (auto intro: same_map_mget same_mapI simp: no_zero_mhas)

text \<open>
  The equality test of both map-based types, \<^verbatim>\<open>len(a) == len(b)\<close> and \<^verbatim>\<open>b[k] == v\<close> for every entry of
  \<open>a\<close>, decides equality of the counters where no entry is zero.
\<close>

lemma length_all_entries:
  assumes a: "wf_map a" "no_zero a" and b: "wf_map b" "no_zero b"
  shows "length a = length b \<and> range_all (\<lambda>k v. cget b k = v) a \<longleftrightarrow> (\<forall>k. cget a k = cget b k)"
proof
  assume l: "length a = length b \<and> range_all (\<lambda>k v. cget b k = v) a"
  then have eq: "cget b k = cget a k" if "mhas a k" for k
    using that by (simp add: range_all_mget [OF a(1), where z = 0])
  have sub: "set (keys a) \<subseteq> set (keys b)"
    using eq no_zero_mhas [OF a] no_zero_mhas [OF b] by (auto simp flip: mhas_iff)
  have "card (set (keys a)) = card (set (keys b))"
    using l a(1) b(1) by (simp add: wf_map_def distinct_card) (simp add: keys_def)
  then have "set (keys a) = set (keys b)" using sub by (simp add: card_subset_eq)
  then have "mhas a k \<longleftrightarrow> mhas b k" for k by (simp add: mhas_iff)
  then show "\<forall>k. cget a k = cget b k" using eq mget_absent by metis
next
  assume eq: "\<forall>k. cget a k = cget b k"
  then have "same_map a b" using no_zero_same_map a b by blast
  then show "length a = length b \<and> range_all (\<lambda>k v. cget b k = v) a"
    using eq a(1) same_map_length [OF a(1) b(1)] by (simp add: range_all_mget [where z = 0])
qed

lemma same_map_mput:
  "same_map m m' \<Longrightarrow> same_map (mput k v m) (mput k v m')"
  by (simp add: same_map_def mput_def update_conv')

lemma same_map_max_loop:
  assumes "wf_map m" "wf_map m'" "same_map m m'" and "same_map acc acc'"
  shows "same_map (max_loop m acc) (max_loop m' acc')"
  using assms
  by (intro same_mapI [where z = 0])
     (auto simp: cget_max_loop mhas_max_loop same_map_mhas same_map_mget)

end
