(* ===== verification/Ordering.thy ===== *)
theory Ordering
  imports Prelude "HOL-Library.Multiset"
begin

text \<open>
  The sorting and frontier functions of \<^verbatim>\<open>ordering/partial_order.go\<close>. They are generic in the type of
  stamps and use of it only the method \<^verbatim>\<open>HappensBefore\<close>, the argument \<open>hb\<close> here. The loops work on
  indices and mutable slices as in the code; \<open>precedes\<close> is the relation on indices they build, and
  the loop over \<open>inDeg\<close> is related to the set of indices already emitted.
\<close>

section \<open>Events and the sort\<close>

record ('t, 'd) event =
  ev_ID :: string
  ev_Stamp :: 't
  ev_Data :: 'd

text \<open>The body of the double loop that fills \<^verbatim>\<open>succ\<close> and \<^verbatim>\<open>inDeg\<close>.\<close>

definition dag_step ::
  "('t \<Rightarrow> 't \<Rightarrow> bool) \<Rightarrow> ('t, 'd) event list \<Rightarrow> nat \<Rightarrow> nat list list \<times> int list \<Rightarrow> nat \<Rightarrow>
    nat list list \<times> int list" where
  "dag_step hb events i = (\<lambda>(succ, inDeg) j.
     if i = j then (succ, inDeg)
     else if hb (ev_Stamp (events ! i)) (ev_Stamp (events ! j))
     then (succ[i := succ ! i @ [j]], inDeg[j := inDeg ! j + 1])
     else (succ, inDeg))"

definition build_dag ::
  "('t \<Rightarrow> 't \<Rightarrow> bool) \<Rightarrow> ('t, 'd) event list \<Rightarrow> nat list list \<times> int list" where
  "build_dag hb events =
     (let n = length events
      in foldl (\<lambda>dag i. foldl (dag_step hb events i) dag [0..<n])
           (replicate n [], replicate n 0) [0..<n])"

text \<open>\<^verbatim>\<open>chosen\<close> is the first index in \<^verbatim>\<open>order\<close> that is free; \<open>None\<close> is the value -1 that breaks the loop.\<close>

function topo_loop ::
  "('t, 'd) event list \<Rightarrow> nat list \<Rightarrow> nat list list \<Rightarrow> bool list \<Rightarrow> int list \<Rightarrow> ('t, 'd) event list \<Rightarrow>
    ('t, 'd) event list" where
  "topo_loop events order succ used inDeg out =
     (if length out < length events then
        case List.find (\<lambda>i. \<not> used ! i \<and> inDeg ! i = 0) order of
          None \<Rightarrow> out
        | Some chosen \<Rightarrow>
            topo_loop events order succ (used[chosen := True])
              (foldl (\<lambda>inDeg s. inDeg[s := inDeg ! s - 1]) inDeg (succ ! chosen))
              (out @ [events ! chosen])
      else out)"
  by pat_completeness auto

termination
  by (relation "measure (\<lambda>(events, order, succ, used, inDeg, out). length events - length out)") auto

declare topo_loop.simps [simp del]

definition TopologicalSort ::
  "('t \<Rightarrow> 't \<Rightarrow> bool) \<Rightarrow> ('t, 'd) event list \<Rightarrow> ('t, 'd) event list" where
  "TopologicalSort hb events =
     (let n = length events
      in if n = 0 then []
         else
           let order = sort_key (\<lambda>i. ev_ID (events ! i)) [0..<n];
               (succ, inDeg) = build_dag hb events;
               used = replicate n False
           in topo_loop events order succ used inDeg [])"

section \<open>The frontier\<close>

text \<open>The inner loop of \<^verbatim>\<open>MaximalElements\<close> and of \<^verbatim>\<open>MinimalElements\<close>, from index \<open>j\<close> on.\<close>

fun is_max_loop :: "('t \<Rightarrow> 't \<Rightarrow> bool) \<Rightarrow> nat \<Rightarrow> ('t, 'd) event \<Rightarrow> nat \<Rightarrow> ('t, 'd) event list \<Rightarrow> bool" where
  "is_max_loop hb i e j [] = True"
| "is_max_loop hb i e j (f # events) =
     (if i = j then is_max_loop hb i e (j + 1) events
      else if hb (ev_Stamp e) (ev_Stamp f) then False
      else is_max_loop hb i e (j + 1) events)"

fun is_min_loop :: "('t \<Rightarrow> 't \<Rightarrow> bool) \<Rightarrow> nat \<Rightarrow> ('t, 'd) event \<Rightarrow> nat \<Rightarrow> ('t, 'd) event list \<Rightarrow> bool" where
  "is_min_loop hb i e j [] = True"
| "is_min_loop hb i e j (f # events) =
     (if i = j then is_min_loop hb i e (j + 1) events
      else if hb (ev_Stamp f) (ev_Stamp e) then False
      else is_min_loop hb i e (j + 1) events)"

fun frontier_loop ::
  "(nat \<Rightarrow> ('t, 'd) event \<Rightarrow> bool) \<Rightarrow> nat \<Rightarrow> ('t, 'd) event list \<Rightarrow> ('t, 'd) event list \<Rightarrow> ('t, 'd) event list" where
  "frontier_loop keep i [] out = out"
| "frontier_loop keep i (e # events) out =
     frontier_loop keep (i + 1) events (if keep i e then out @ [e] else out)"

definition MaximalElements :: "('t \<Rightarrow> 't \<Rightarrow> bool) \<Rightarrow> ('t, 'd) event list \<Rightarrow> ('t, 'd) event list" where
  "MaximalElements hb events = frontier_loop (\<lambda>i e. is_max_loop hb i e 0 events) 0 events []"

definition MinimalElements :: "('t \<Rightarrow> 't \<Rightarrow> bool) \<Rightarrow> ('t, 'd) event list \<Rightarrow> ('t, 'd) event list" where
  "MinimalElements hb events = frontier_loop (\<lambda>i e. is_min_loop hb i e 0 events) 0 events []"

section \<open>What the double loop builds\<close>

definition precedes :: "('t \<Rightarrow> 't \<Rightarrow> bool) \<Rightarrow> ('t, 'd) event list \<Rightarrow> nat \<Rightarrow> nat \<Rightarrow> bool" where
  "precedes hb events i j \<longleftrightarrow> i \<noteq> j \<and> hb (ev_Stamp (events ! i)) (ev_Stamp (events ! j))"

lemma dag_step_precedes:
  "dag_step hb events i (succ, inDeg) j =
     (if precedes hb events i j then (succ[i := succ ! i @ [j]], inDeg[j := inDeg ! j + 1])
      else (succ, inDeg))"
  by (simp add: dag_step_def precedes_def)

lemma dag_inner:
  assumes "length succ = n" and "length inDeg = n" and "i < n" and "m \<le> n"
  shows "foldl (dag_step hb events i) (succ, inDeg) [0..<m] =
    (succ[i := succ ! i @ filter (precedes hb events i) [0..<m]],
     List.map (\<lambda>j. inDeg ! j + of_bool (j < m \<and> precedes hb events i j)) [0..<n])"
  using assms(4)
proof (induction m)
  case 0
  have "List.map (\<lambda>j. inDeg ! j) [0..<n] = inDeg" using map_nth [of inDeg] assms(2) by simp
  then show ?case by simp
next
  case (Suc m)
  then have m: "m < n" by simp
  have upd: "(List.map (\<lambda>j. inDeg ! j + of_bool (j < m \<and> precedes hb events i j)) [0..<n])
      [m := inDeg ! m + 1] =
    List.map (\<lambda>j. inDeg ! j + of_bool (j < Suc m \<and> precedes hb events i j)) [0..<n]"
    if "precedes hb events i m"
    using that m by (intro nth_equalityI) (auto simp: nth_list_update less_Suc_eq)
  have same: "List.map (\<lambda>j. inDeg ! j + of_bool (j < m \<and> precedes hb events i j)) [0..<n] =
    List.map (\<lambda>j. inDeg ! j + of_bool (j < Suc m \<and> precedes hb events i j)) [0..<n]"
    if "\<not> precedes hb events i m"
    using that by (auto simp: less_Suc_eq)
  show ?case
    using Suc.IH m assms(1,3) upd same by (simp add: dag_step_precedes)
qed

lemma build_dag_precedes:
  assumes "m \<le> length events"
  shows "foldl (\<lambda>dag i. foldl (dag_step hb events i) dag [0..<length events])
      (replicate (length events) [], replicate (length events) 0) [0..<m] =
    (List.map (\<lambda>i. if i < m then filter (precedes hb events i) [0..<length events] else []) [0..<length events],
     List.map (\<lambda>j. int (card {i. i < m \<and> precedes hb events i j})) [0..<length events])"
  using assms
proof (induction m)
  case 0
  then show ?case by (simp add: map_replicate_const)
next
  case (Suc m)
  let ?n = "length events"
  let ?succ = "\<lambda>m. List.map (\<lambda>i. if i < m then filter (precedes hb events i) [0..<?n] else []) [0..<?n]"
  let ?deg = "\<lambda>m. List.map (\<lambda>j. int (card {i. i < m \<and> precedes hb events i j})) [0..<?n]"
  have card_Suc: "card {i. i < Suc m \<and> P i} = card {i. i < m \<and> P i} + of_bool (P m)" for P
  proof -
    have "{i. i < Suc m \<and> P i} = (if P m then insert m {i. i < m \<and> P i} else {i. i < m \<and> P i})"
      by (auto simp: less_Suc_eq)
    then show ?thesis by simp
  qed
  have m: "m < ?n" using Suc.prems by simp
  have "(?succ m)[m := ?succ m ! m @ filter (precedes hb events m) [0..<?n]] = ?succ (Suc m)"
    using m by (intro nth_equalityI) (auto simp: nth_list_update less_Suc_eq)
  moreover have "List.map (\<lambda>j. ?deg m ! j + of_bool (j < ?n \<and> precedes hb events m j)) [0..<?n] = ?deg (Suc m)"
    by (intro nth_equalityI) (simp_all add: card_Suc)
  ultimately have "foldl (dag_step hb events m) (?succ m, ?deg m) [0..<?n] = (?succ (Suc m), ?deg (Suc m))"
    using m by (subst dag_inner [where n = ?n]) simp_all
  then show ?case using Suc by simp
qed

lemma build_dag_eq:
  "build_dag hb events =
    (List.map (\<lambda>i. filter (precedes hb events i) [0..<length events]) [0..<length events],
     List.map (\<lambda>j. int (card {i. i < length events \<and> precedes hb events i j})) [0..<length events])"
  by (simp add: build_dag_def Let_def build_dag_precedes)

section \<open>The loop as an abstract algorithm\<close>

text \<open>
  The reference: repeatedly emit the first index of \<open>order\<close> whose predecessors have all been emitted.
\<close>

definition free :: "(nat \<Rightarrow> nat \<Rightarrow> bool) \<Rightarrow> nat \<Rightarrow> nat list \<Rightarrow> nat \<Rightarrow> bool" where
  "free E n done i \<longleftrightarrow> i \<notin> set done \<and> (\<forall>j < n. E j i \<longrightarrow> j \<in> set done)"

function kahn :: "(nat \<Rightarrow> nat \<Rightarrow> bool) \<Rightarrow> nat \<Rightarrow> nat list \<Rightarrow> nat list \<Rightarrow> nat list" where
  "kahn E n order done =
     (if length done < n then
        case List.find (free E n done) order of
          None \<Rightarrow> done
        | Some c \<Rightarrow> kahn E n order (done @ [c])
      else done)"
  by pat_completeness auto

termination
  by (relation "measure (\<lambda>(E, n, order, done). n - length done)") auto

declare kahn.simps [simp del]

lemma foldl_decrement:
  fixes d :: "int list"
  assumes "distinct xs" and "set xs \<subseteq> {..<length d}"
  shows "foldl (\<lambda>d s. d[s := d ! s - 1]) d xs =
    List.map (\<lambda>j. d ! j - of_bool (j \<in> set xs)) [0..<length d]"
  using assms
proof (induction xs arbitrary: d)
  case Nil
  then show ?case by (simp add: map_nth)
next
  case (Cons x xs)
  then have "foldl (\<lambda>d s. d[s := d ! s - 1]) d (x # xs) =
      List.map (\<lambda>j. d[x := d ! x - 1] ! j - of_bool (j \<in> set xs)) [0..<length d]"
    by simp
  also have "\<dots> = List.map (\<lambda>j. d ! j - of_bool (j \<in> set (x # xs))) [0..<length d]"
    using Cons.prems by (intro nth_equalityI) (auto simp: nth_list_update)
  finally show ?case .
qed

definition waiting :: "(nat \<Rightarrow> nat \<Rightarrow> bool) \<Rightarrow> nat \<Rightarrow> nat list \<Rightarrow> nat \<Rightarrow> nat set" where
  "waiting E n done j = {i. i < n \<and> E i j \<and> i \<notin> set done}"

lemma card_waiting_snoc:
  assumes "c < n" and "c \<notin> set done"
  shows "int (card (waiting E n (done @ [c]) j)) =
    int (card (waiting E n done j)) - of_bool (E c j)"
proof -
  have fin: "finite (waiting E n done j)" by (simp add: waiting_def)
  have "waiting E n (done @ [c]) j = waiting E n done j - {c}" by (auto simp: waiting_def)
  moreover have "c \<in> waiting E n done j \<longleftrightarrow> E c j" using assms by (auto simp: waiting_def)
  moreover have "int (card (W - {c})) = int (card W) - of_bool (c \<in> W)" if "finite W" for W
    using that card_Suc_Diff1 [of W c] by (cases "c \<in> W") simp_all
  ultimately show ?thesis using fin by simp
qed

text \<open>The slices of the loop after the indices \<open>done\<close> have been emitted.\<close>

definition loop_succ :: "(nat \<Rightarrow> nat \<Rightarrow> bool) \<Rightarrow> nat \<Rightarrow> nat list list" where
  "loop_succ E n = List.map (\<lambda>i. filter (E i) [0..<n]) [0..<n]"

definition loop_used :: "nat \<Rightarrow> nat list \<Rightarrow> bool list" where
  "loop_used n done = List.map (\<lambda>i. i \<in> set done) [0..<n]"

definition loop_deg :: "(nat \<Rightarrow> nat \<Rightarrow> bool) \<Rightarrow> nat \<Rightarrow> nat list \<Rightarrow> int list" where
  "loop_deg E n done = List.map (\<lambda>j. int (card (waiting E n done j))) [0..<n]"

lemma loop_choice:
  assumes "set order \<subseteq> {..<n}"
  shows "List.find (\<lambda>i. \<not> loop_used n done ! i \<and> loop_deg E n done ! i = 0) order =
    List.find (free E n done) order"
proof (rule find_cong)
  fix i assume "i \<in> set order"
  then have "i < n" using assms by auto
  moreover have "finite (waiting E n done i)" by (simp add: waiting_def)
  ultimately show "(\<not> loop_used n done ! i \<and> loop_deg E n done ! i = 0) = free E n done i"
    by (auto simp: loop_used_def loop_deg_def free_def waiting_def)
qed simp

lemma loop_emit:
  assumes "c < n" and "c \<notin> set done"
  shows "(loop_used n done)[c := True] = loop_used n (done @ [c])"
    and "foldl (\<lambda>inDeg s. inDeg[s := inDeg ! s - 1]) (loop_deg E n done) (loop_succ E n ! c) =
      loop_deg E n (done @ [c])"
proof -
  show "(loop_used n done)[c := True] = loop_used n (done @ [c])"
    using assms(1) by (intro nth_equalityI) (auto simp: loop_used_def nth_list_update)
  have "foldl (\<lambda>inDeg s. inDeg[s := inDeg ! s - 1]) (loop_deg E n done) (filter (E c) [0..<n]) =
      List.map (\<lambda>j. loop_deg E n done ! j - of_bool (j \<in> set (filter (E c) [0..<n])))
        [0..<length (loop_deg E n done)]"
    by (rule foldl_decrement) (auto simp: loop_deg_def)
  also have "\<dots> = loop_deg E n (done @ [c])"
    by (intro nth_equalityI) (auto simp: loop_deg_def card_waiting_snoc [OF assms])
  finally show "foldl (\<lambda>inDeg s. inDeg[s := inDeg ! s - 1]) (loop_deg E n done) (loop_succ E n ! c) =
      loop_deg E n (done @ [c])"
    using assms(1) by (simp add: loop_succ_def)
qed

lemma find_in: "List.find P xs = Some x \<Longrightarrow> x \<in> set xs \<and> P x"
  by (auto simp: find_Some_iff)

lemma topo_loop_kahn:
  assumes "n = length events" and "set order \<subseteq> {..<n}"
  shows "topo_loop events order (loop_succ E n) (loop_used n done) (loop_deg E n done)
      (List.map ((!) events) done) =
    List.map ((!) events) (kahn E n order done)"
  using assms
proof (induction E n order "done" rule: kahn.induct)
  case (1 E n order "done")
  show ?case
  proof (cases "length done < n")
    case False
    then show ?thesis using "1.prems" by (simp add: topo_loop.simps kahn.simps)
  next
    case less: True
    show ?thesis
    proof (cases "List.find (free E n done) order")
      case None
      then show ?thesis
        using less "1.prems" by (simp add: topo_loop.simps [of events] kahn.simps [of E] loop_choice)
    next
      case (Some c)
      then have c: "c < n" "c \<notin> set done"
        using find_in [OF Some] "1.prems"(2) by (auto simp: free_def)
      have "topo_loop events order (loop_succ E n) (loop_used n (done @ [c]))
          (loop_deg E n (done @ [c])) (List.map ((!) events) (done @ [c])) =
        List.map ((!) events) (kahn E n order (done @ [c]))"
        by (rule "1.IH" [OF less Some "1.prems"])
      then show ?thesis
        using less Some "1.prems" loop_emit [OF c]
        by (subst topo_loop.simps, subst kahn.simps) (simp add: loop_choice)
    qed
  qed
qed

text \<open>The indices in the order in which the sort emits their events.\<close>

definition id_order :: "('t, 'd) event list \<Rightarrow> nat list" where
  "id_order events = sort_key (\<lambda>i. ev_ID (events ! i)) [0..<length events]"

definition emitted :: "('t \<Rightarrow> 't \<Rightarrow> bool) \<Rightarrow> ('t, 'd) event list \<Rightarrow> nat list" where
  "emitted hb events = kahn (precedes hb events) (length events) (id_order events) []"

lemma TopologicalSort_emitted:
  "TopologicalSort hb events = List.map ((!) events) (emitted hb events)"
proof -
  let ?n = "length events"
  have w: "loop_deg (precedes hb events) ?n [] =
      List.map (\<lambda>j. int (card {i. i < ?n \<and> precedes hb events i j})) [0..<?n]"
    by (simp add: loop_deg_def waiting_def)
  have "loop_used ?n [] = replicate ?n False" by (simp add: loop_used_def map_replicate_const)
  then have "TopologicalSort hb events = (if ?n = 0 then [] else
      topo_loop events (id_order events) (loop_succ (precedes hb events) ?n) (loop_used ?n [])
        (loop_deg (precedes hb events) ?n []) (List.map ((!) events) []))"
    by (simp add: TopologicalSort_def build_dag_eq w id_order_def loop_succ_def Let_def)
  also have "\<dots> = List.map ((!) events) (emitted hb events)"
  proof (cases "?n = 0")
    case True
    then show ?thesis by (simp add: emitted_def kahn.simps)
  next
    case False
    have "set (id_order events) \<subseteq> {..<?n}" by (auto simp: id_order_def)
    then show ?thesis
      using False topo_loop_kahn [of ?n events "id_order events" "precedes hb events" "[]"]
      by (simp add: emitted_def)
  qed
  finally show ?thesis .
qed

section \<open>What the abstract algorithm guarantees\<close>

text \<open>Every index was, when it was emitted, the first free one in the order.\<close>

definition greedy :: "(nat \<Rightarrow> nat \<Rightarrow> bool) \<Rightarrow> nat \<Rightarrow> nat list \<Rightarrow> nat list \<Rightarrow> bool" where
  "greedy E n order r \<longleftrightarrow> distinct r \<and> set r \<subseteq> set order \<and>
     (\<forall>k < length r. List.find (free E n (take k r)) order = Some (r ! k))"

lemma greedy_snoc:
  assumes "greedy E n order r" and "List.find (free E n r) order = Some c"
  shows "greedy E n order (r @ [c])"
proof -
  have "c \<in> set order" and "c \<notin> set r" using find_in [OF assms(2)] by (auto simp: free_def)
  then show ?thesis using assms by (auto simp: greedy_def nth_append less_Suc_eq)
qed

lemma kahn_greedy:
  assumes "greedy E n order r"
  shows "greedy E n order (kahn E n order r) \<and>
    (length (kahn E n order r) < n \<longrightarrow> List.find (free E n (kahn E n order r)) order = None)"
  using assms
proof (induction E n order r rule: kahn.induct)
  case (1 E n order r)
  show ?case
  proof (cases "length r < n")
    case False
    then show ?thesis using "1.prems" by (simp add: kahn.simps)
  next
    case less: True
    show ?thesis
    proof (cases "List.find (free E n r) order")
      case None
      then show ?thesis using less "1.prems" by (simp add: kahn.simps)
    next
      case (Some c)
      have "greedy E n order (r @ [c])" by (rule greedy_snoc [OF "1.prems" Some])
      from "1.IH" [OF less Some this] show ?thesis
        using less Some by (simp add: kahn.simps [of E n order r])
    qed
  qed
qed

lemma greedy_free: "greedy E n order r \<Longrightarrow> k < length r \<Longrightarrow> free E n (take k r) (r ! k)"
  using find_in by (fastforce simp: greedy_def)

text \<open>A predecessor of an emitted index has been emitted before it.\<close>

lemma greedy_linear:
  assumes "greedy E n order r" and "k < length r" and "E j (r ! k)" and "j < n"
  shows "\<exists>i < k. r ! i = j"
proof -
  have "j \<in> set (take k r)" using greedy_free [OF assms(1,2)] assms(3,4) by (simp add: free_def)
  then show ?thesis using assms(2) by (auto simp: in_set_conv_nth)
qed

text \<open>Everything is emitted if and only if the relation has no cycle.\<close>

definition edges :: "(nat \<Rightarrow> nat \<Rightarrow> bool) \<Rightarrow> nat \<Rightarrow> (nat \<times> nat) set" where
  "edges E n = {(i, j). i < n \<and> j < n \<and> E i j}"

lemma greedy_complete_acyclic:
  assumes g: "greedy E n order r" and "set order = {..<n}" and "length r = n"
  shows "acyclic (edges E n)"
proof -
  have "card (set r) = n" using g assms(3) by (simp add: greedy_def distinct_card)
  then have all: "set r = {..<n}"
    using g assms(2) by (simp add: greedy_def card_subset_eq)
  define pos where "pos j = (THE k. k < length r \<and> r ! k = j)" for j
  have pos: "pos (r ! k) = k" if "k < length r" for k
    unfolding pos_def using that g by (intro the_equality) (auto simp: greedy_def nth_eq_iff_index_eq)
  have less: "pos i < pos j" if ij: "(i, j) \<in> edges E n" for i j
  proof -
    have "j \<in> set r" using ij all by (simp add: edges_def)
    then obtain k where k: "k < length r" "j = r ! k" by (auto simp: in_set_conv_nth)
    then obtain m where "m < k" "r ! m = i"
      using greedy_linear [OF g k(1), of i] ij by (auto simp: edges_def)
    then show ?thesis using pos [of m] pos [of k] k by auto
  qed
  have "pos i < pos j" if "(i, j) \<in> (edges E n)\<^sup>+" for i j
    using that
  proof induction
    case (base k)
    then show ?case by (rule less)
  next
    case (step k m)
    then show ?case using less [of k m] by simp
  qed
  then show ?thesis by (auto simp: acyclic_def)
qed

lemma greedy_stuck_cyclic:
  assumes g: "greedy E n order r" and order: "set order = {..<n}"
    and "length r < n" and stuck: "List.find (free E n r) order = None"
  shows "\<not> acyclic (edges E n)"
proof
  assume "acyclic (edges E n)"
  moreover have "finite (edges E n)"
    by (rule finite_subset [of _ "{..<n} \<times> {..<n}"]) (auto simp: edges_def)
  ultimately have wf: "wf (edges E n)" by (simp add: finite_acyclic_wf)
  have "card (set r) < card {..<n}" using g assms(3) by (simp add: greedy_def distinct_card)
  then obtain i where "i \<in> {..<n} - set r" by (metis Diff_eq_empty_iff card_mono ex_in_conv finite_set not_le)
  from wf [unfolded wf_eq_minimal, rule_format, OF this]
  obtain c where c: "c < n" "c \<notin> set r" "\<And>j. (j, c) \<in> edges E n \<Longrightarrow> j \<notin> {..<n} - set r"
    by auto
  then have "free E n r c" by (auto simp: free_def edges_def)
  then show False using stuck c(1) order by (auto simp: find_None_iff)
qed

lemma emitted_greedy:
  "greedy (precedes hb events) (length events) (id_order events) (emitted hb events)"
  "length (emitted hb events) < length events \<Longrightarrow>
    List.find (free (precedes hb events) (length events) (emitted hb events)) (id_order events) = None"
proof -
  have "greedy (precedes hb events) (length events) (id_order events) []" by (simp add: greedy_def)
  from kahn_greedy [OF this]
  show "greedy (precedes hb events) (length events) (id_order events) (emitted hb events)"
    and "length (emitted hb events) < length events \<Longrightarrow>
      List.find (free (precedes hb events) (length events) (emitted hb events)) (id_order events) = None"
    by (simp_all add: emitted_def)
qed

lemma set_id_order [simp]: "set (id_order events) = {..<length events}"
  by (auto simp: id_order_def)

lemma length_emitted: "length (emitted hb events) \<le> length events"
proof -
  have "card (set (emitted hb events)) \<le> card {..<length events}"
    using emitted_greedy(1) [of hb events] by (intro card_mono) (auto simp: greedy_def)
  then show ?thesis using emitted_greedy(1) [of hb events] by (simp add: greedy_def distinct_card)
qed

lemma emitted_complete_iff:
  "length (emitted hb events) = length events \<longleftrightarrow>
    acyclic (edges (precedes hb events) (length events))"
  using greedy_complete_acyclic [OF emitted_greedy(1) set_id_order]
    greedy_stuck_cyclic [OF emitted_greedy(1) set_id_order _ emitted_greedy(2)] length_emitted [of hb events]
  by (metis le_neq_implies_less)

section \<open>The output in terms of events\<close>

text \<open>
  \<open>ev_free\<close>: an event of the input that is not yet in the output, although all that happened before it
  are. \<open>ev_greedy\<close>: the output always continues with the free event of the smallest ID, until none is
  free. This does not mention indices, so it does not depend on the order of the input.
\<close>

definition ev_free ::
  "('t \<Rightarrow> 't \<Rightarrow> bool) \<Rightarrow> ('t, 'd) event set \<Rightarrow> ('t, 'd) event set \<Rightarrow> ('t, 'd) event \<Rightarrow> bool" where
  "ev_free hb A done e \<longleftrightarrow> e \<in> A \<and> e \<notin> done \<and>
     (\<forall>f \<in> A. f \<noteq> e \<and> hb (ev_Stamp f) (ev_Stamp e) \<longrightarrow> f \<in> done)"

definition ev_greedy ::
  "('t \<Rightarrow> 't \<Rightarrow> bool) \<Rightarrow> ('t, 'd) event set \<Rightarrow> ('t, 'd) event list \<Rightarrow> bool" where
  "ev_greedy hb A out \<longleftrightarrow>
     (\<forall>k < length out. ev_free hb A (set (take k out)) (out ! k) \<and>
        (\<forall>f. ev_free hb A (set (take k out)) f \<longrightarrow> ev_ID (out ! k) \<le> ev_ID f)) \<and>
     (\<forall>f. \<not> ev_free hb A (set out) f)"

lemma ev_greedy_prefix:
  assumes inj: "inj_on ev_ID A" and g: "ev_greedy hb A out" "ev_greedy hb A out'"
  shows "k \<le> length out \<Longrightarrow> k \<le> length out' \<and> take k out = take k out'"
proof (induction k)
  case 0
  then show ?case by simp
next
  case (Suc k)
  then have k: "k < length out" "k \<le> length out'" and eq: "take k out = take k out'" by auto
  have f: "ev_free hb A (set (take k out)) (out ! k)"
    and min: "\<And>f. ev_free hb A (set (take k out)) f \<Longrightarrow> ev_ID (out ! k) \<le> ev_ID f"
    using g(1) k(1) by (auto simp: ev_greedy_def)
  have k': "k < length out'"
  proof (rule ccontr)
    assume "\<not> k < length out'"
    then have "take k out' = out'" by simp
    then show False using g(2) f eq by (auto simp: ev_greedy_def)
  qed
  then have f': "ev_free hb A (set (take k out)) (out' ! k)"
    and min': "\<And>f. ev_free hb A (set (take k out)) f \<Longrightarrow> ev_ID (out' ! k) \<le> ev_ID f"
    using g(2) eq by (auto simp: ev_greedy_def)
  have "ev_ID (out ! k) = ev_ID (out' ! k)" using min [OF f'] min' [OF f] by simp
  then have "out ! k = out' ! k" using inj f f' by (auto simp: inj_on_def ev_free_def)
  then show ?case using k(1) k' eq by (simp add: take_Suc_conv_app_nth)
qed

lemma ev_greedy_unique:
  assumes "inj_on ev_ID A" and "ev_greedy hb A out" and "ev_greedy hb A out'"
  shows "out = out'"
  using ev_greedy_prefix [OF assms, of "length out"] ev_greedy_prefix [OF assms(1,3,2), of "length out'"]
  by simp

text \<open>Sorting by ID first makes the first free index one with the smallest ID.\<close>

lemma find_smallest_ID:
  assumes "List.find P (id_order events) = Some c" and "i < length events" and "P i"
  shows "ev_ID (events ! c) \<le> ev_ID (events ! i)"
proof -
  let ?o = "id_order events"
  obtain p where p: "p < length ?o" "?o ! p = c" "\<forall>q < p. \<not> P (?o ! q)"
    using assms(1) by (auto simp: find_Some_iff)
  have "i \<in> set ?o" using assms(2) by simp
  then obtain q where q: "q < length ?o" "?o ! q = i" unfolding in_set_conv_nth by blast
  have "p \<le> q" using p(3) q assms(3) by (metis not_le)
  moreover have "sorted (List.map (\<lambda>i. ev_ID (events ! i)) ?o)" by (simp add: id_order_def)
  ultimately show ?thesis
    using p q sorted_nth_mono [of "List.map (\<lambda>i. ev_ID (events ! i)) ?o" p q] by simp
qed

lemma emitted_indices:
  assumes "k < length (emitted hb events)"
  shows "emitted hb events ! k < length events"
proof -
  have "emitted hb events ! k \<in> set (id_order events)"
    using emitted_greedy(1) [of hb events] nth_mem [OF assms] by (auto simp: greedy_def simp del: set_id_order)
  then show ?thesis by simp
qed

lemma free_ev_free:
  assumes "distinct events" and "i < length events" and "set done \<subseteq> {..<length events}"
  shows "free (precedes hb events) (length events) done i \<longleftrightarrow>
    ev_free hb (set events) (set (List.map ((!) events) done)) (events ! i)"
proof -
  have mem: "events ! j \<in> set (List.map ((!) events) done) \<longleftrightarrow> j \<in> set done" if "j < length events" for j
    using assms(1,3) that by (auto simp: nth_eq_iff_index_eq)
  have "(\<forall>f \<in> set events. P f) \<longleftrightarrow> (\<forall>j < length events. P (events ! j))" for P
    by (auto simp: all_set_conv_all_nth)
  then show ?thesis
    using assms(1,2) mem unfolding free_def ev_free_def precedes_def
    by (auto simp: nth_eq_iff_index_eq)
qed

lemma free_bound: "free E n done i \<Longrightarrow> length done < n \<or> n \<le> i \<or> \<not> distinct done \<or> \<not> set done \<subseteq> {..<n}"
proof (rule ccontr)
  assume f: "free E n done i"
    and "\<not> (length done < n \<or> n \<le> i \<or> \<not> distinct done \<or> \<not> set done \<subseteq> {..<n})"
  then have "distinct done" "set done \<subseteq> {..<n}" "n \<le> length done" "i < n" by auto
  then have "set done = {..<n}" by (metis card_lessThan card_seteq distinct_card finite_lessThan)
  then show False using f \<open>i < n\<close> by (simp add: free_def)
qed

lemma TopologicalSort_ev_greedy:
  fixes events :: "('t, 'd) event list"
  assumes "distinct events"
  shows "ev_greedy hb (set events) (TopologicalSort hb events)"
proof -
  let ?r = "emitted hb events" and ?n = "length events"
  note g = emitted_greedy(1) [of hb events]
  have sub: "set ?r \<subseteq> {..<?n}" using g by (simp add: greedy_def)
  have ev: "free (precedes hb events) ?n done i \<longleftrightarrow>
      ev_free hb (set events) (set (List.map ((!) events) done)) (events ! i)"
    if "i < ?n" "set done \<subseteq> set ?r" for i "done"
    using that sub by (intro free_ev_free [OF assms]) auto
  have ex: "\<exists>i < ?n. f = events ! i" if "ev_free hb (set events) D f" for D f
    using that by (auto simp: ev_free_def in_set_conv_nth)
  have step: "ev_free hb (set events) (set (List.map ((!) events) (take k ?r))) (events ! (?r ! k)) \<and>
      (\<forall>f. ev_free hb (set events) (set (List.map ((!) events) (take k ?r))) f \<longrightarrow>
        ev_ID (events ! (?r ! k)) \<le> ev_ID f)" if k: "k < length ?r" for k
  proof -
    have find: "List.find (free (precedes hb events) ?n (take k ?r)) (id_order events) = Some (?r ! k)"
      using g k by (simp add: greedy_def)
    have t: "set (take k ?r) \<subseteq> set ?r" by (rule set_take_subset)
    have "ev_free hb (set events) (set (List.map ((!) events) (take k ?r))) (events ! (?r ! k))"
      using find_in [OF find] ev [OF emitted_indices [OF k] t] by simp
    moreover have "ev_ID (events ! (?r ! k)) \<le> ev_ID f"
      if "ev_free hb (set events) (set (List.map ((!) events) (take k ?r))) f" for f
      using ex [OF that] that ev [OF _ t] find_smallest_ID [OF find] by blast
    ultimately show ?thesis by blast
  qed
  have stop: "\<not> ev_free hb (set events) (set (List.map ((!) events) ?r)) f" for f
  proof
    assume f: "ev_free hb (set events) (set (List.map ((!) events) ?r)) f"
    then obtain i where i: "i < ?n" "free (precedes hb events) ?n ?r i" using ex ev by blast
    have "length ?r < ?n" using free_bound [OF i(2)] i(1) g sub by (auto simp: greedy_def)
    from emitted_greedy(2) [OF this] show False using i by (auto simp: find_None_iff)
  qed
  show ?thesis
    using step stop by (simp add: ev_greedy_def TopologicalSort_emitted take_map)
qed

section \<open>The frontier functions\<close>

lemma is_max_loop_iff:
  "is_max_loop hb i e j fs \<longleftrightarrow>
    (\<forall>k < length fs. j + k \<noteq> i \<longrightarrow> \<not> hb (ev_Stamp e) (ev_Stamp (fs ! k)))"
  by (induction hb i e j fs rule: is_max_loop.induct) (auto simp: All_less_Suc2)

lemma is_min_loop_iff:
  "is_min_loop hb i e j fs \<longleftrightarrow>
    (\<forall>k < length fs. j + k \<noteq> i \<longrightarrow> \<not> hb (ev_Stamp (fs ! k)) (ev_Stamp e))"
  by (induction hb i e j fs rule: is_min_loop.induct) (auto simp: All_less_Suc2)

lemma frontier_loop_filter:
  "frontier_loop keep i es out =
    out @ List.map (\<lambda>k. es ! k) (filter (\<lambda>k. keep (i + k) (es ! k)) [0..<length es])"
proof (induction keep i es out rule: frontier_loop.induct)
  case (1 keep i out)
  then show ?case by simp
next
  case (2 keep i e es out)
  have "[0..<length (e # es)] = 0 # List.map Suc [0..<length es]"
    by (simp add: upt_conv_Cons map_Suc_upt del: upt_Suc)
  then show ?case using 2 by (simp add: filter_map comp_def)
qed

definition maximal :: "('t \<Rightarrow> 't \<Rightarrow> bool) \<Rightarrow> ('t, 'd) event list \<Rightarrow> nat \<Rightarrow> bool" where
  "maximal hb events i \<longleftrightarrow> (\<forall>j < length events. \<not> precedes hb events i j)"

lemma MaximalElements_filter:
  "MaximalElements hb events =
    List.map ((!) events) (filter (maximal hb events) [0..<length events])"
proof -
  have "filter (\<lambda>k. is_max_loop hb (0 + k) (events ! k) 0 events) [0..<length events] =
      filter (maximal hb events) [0..<length events]"
    by (rule filter_cong) (auto simp: is_max_loop_iff maximal_def precedes_def)
  then show ?thesis by (simp add: MaximalElements_def frontier_loop_filter)
qed

text \<open>The minimal elements are the maximal ones of the reversed relation.\<close>

lemma MinimalElements_dual: "MinimalElements hb events = MaximalElements (\<lambda>a b. hb b a) events"
proof -
  have "is_min_loop hb i e j fs = is_max_loop (\<lambda>a b. hb b a) i e j fs" for i j and e :: "('a, 'b) event" and fs
    by (simp add: is_min_loop_iff is_max_loop_iff)
  then show ?thesis by (simp add: MinimalElements_def MaximalElements_def)
qed

section \<open>The contract of \<^verbatim>\<open>Comparable\<close>\<close>

text \<open>
  What \<^verbatim>\<open>TopologicalSort\<close> and the frontier functions need of the stamps: on the stamps that occur,
  \<^verbatim>\<open>HappensBefore\<close> is a strict partial order.
\<close>

locale comparable =
  fixes valid :: "'t \<Rightarrow> bool" and hb :: "'t \<Rightarrow> 't \<Rightarrow> bool"
  assumes hb_irrefl: "valid a \<Longrightarrow> \<not> hb a a"
    and hb_trans: "valid a \<Longrightarrow> valid b \<Longrightarrow> valid c \<Longrightarrow> hb a b \<Longrightarrow> hb b c \<Longrightarrow> hb a c"
begin

lemma edges_trancl:
  assumes "\<forall>e \<in> set events. valid (ev_Stamp e)"
    and "(i, j) \<in> (edges (precedes hb events) (length events))\<^sup>+"
  shows "i < length events \<and> j < length events \<and> hb (ev_Stamp (events ! i)) (ev_Stamp (events ! j))"
  using assms(2)
proof induction
  case (base j)
  then show ?case by (simp add: edges_def precedes_def)
next
  case (step j k)
  then have "j < length events" "k < length events" "hb (ev_Stamp (events ! j)) (ev_Stamp (events ! k))"
    by (simp_all add: edges_def precedes_def)
  then show ?case
    using step.IH assms(1)
      hb_trans [of "ev_Stamp (events ! i)" "ev_Stamp (events ! j)" "ev_Stamp (events ! k)"] by simp
qed

lemma events_acyclic:
  assumes "\<forall>e \<in> set events. valid (ev_Stamp e)"
  shows "acyclic (edges (precedes hb events) (length events))"
  using edges_trancl [OF assms] assms hb_irrefl by (fastforce simp: acyclic_def)

lemma emitted_permutation:
  assumes "\<forall>e \<in> set events. valid (ev_Stamp e)"
  shows "distinct (emitted hb events) \<and> set (emitted hb events) = {..<length events}"
proof -
  have "length (emitted hb events) = length events"
    using events_acyclic [OF assms] by (simp add: emitted_complete_iff)
  moreover have g: "distinct (emitted hb events)" "set (emitted hb events) \<subseteq> {..<length events}"
    using emitted_greedy(1) [of hb events] by (auto simp: greedy_def)
  ultimately show ?thesis by (simp add: card_subset_eq distinct_card)
qed

lemma sort_output:
  assumes "\<forall>e \<in> set events. valid (ev_Stamp e)"
  shows "mset (TopologicalSort hb events) = mset events \<and>
    sorted_wrt (\<lambda>e f. \<not> hb (ev_Stamp f) (ev_Stamp e)) (TopologicalSort hb events)"
proof
  let ?r = "emitted hb events"
  note perm = emitted_permutation [OF assms] and g = emitted_greedy(1) [of hb events]
  have "mset ?r = mset [0..<length events]"
    using perm by (metis atLeast_upt distinct_upt set_eq_iff_mset_eq_distinct)
  then have "mset (List.map ((!) events) ?r) = mset (List.map ((!) events) [0..<length events])"
    by (metis mset_map)
  then show "mset (TopologicalSort hb events) = mset events"
    by (simp add: TopologicalSort_emitted map_nth)
  have "\<not> precedes hb events (?r ! q) (?r ! p)" if "p < q" "q < length ?r" for p q
  proof
    assume e: "precedes hb events (?r ! q) (?r ! p)"
    have "p < length ?r" using that by simp
    from greedy_linear [OF g this e emitted_indices [OF that(2)]]
    obtain i where "i < p" "?r ! i = ?r ! q" by blast
    then show False using perm that by (simp add: nth_eq_iff_index_eq)
  qed
  moreover have "?r ! q \<noteq> ?r ! p" if "p < q" "q < length ?r" for p q
    using perm that by (simp add: nth_eq_iff_index_eq)
  ultimately show "sorted_wrt (\<lambda>e f. \<not> hb (ev_Stamp f) (ev_Stamp e)) (TopologicalSort hb events)"
    by (auto simp: TopologicalSort_emitted sorted_wrt_iff_nth_less precedes_def)
qed

text \<open>Every event is maximal or before a maximal one.\<close>

lemma maximal_above:
  assumes "\<forall>e \<in> set events. valid (ev_Stamp e)" and "i < length events"
  shows "\<exists>m < length events. maximal hb events m \<and>
    (m = i \<or> hb (ev_Stamp (events ! i)) (ev_Stamp (events ! m)))"
proof -
  let ?E = "edges (precedes hb events) (length events)"
  have "finite ?E" by (rule finite_subset [of _ "{..<length events} \<times> {..<length events}"]) (auto simp: edges_def)
  then have wf: "wf (?E\<inverse>)" using events_acyclic [OF assms(1)] by (simp add: finite_acyclic_wf_converse)
  have "i \<in> {m. (i, m) \<in> ?E\<^sup>*}" by simp
  from wf [unfolded wf_eq_minimal, rule_format, OF this]
  obtain m where m: "(i, m) \<in> ?E\<^sup>*" and top: "\<And>j. (m, j) \<in> ?E \<Longrightarrow> (i, j) \<notin> ?E\<^sup>*" by auto
  have top': "(m, j) \<notin> ?E" for j using top m by (meson rtrancl.rtrancl_into_rtrancl)
  have m': "m = i \<or> (i, m) \<in> ?E\<^sup>+" using m by (auto simp: rtrancl_eq_or_trancl)
  then have "m < length events" using edges_trancl [OF assms(1)] assms(2) by blast
  moreover from this have "maximal hb events m"
    using top' by (auto simp: maximal_def edges_def)
  ultimately show ?thesis using m' edges_trancl [OF assms(1)] by blast
qed

text \<open>The frontier as a filter over the events themselves.\<close>

lemma maximal_iff:
  assumes "\<forall>e \<in> set events. valid (ev_Stamp e)" and "i < length events"
  shows "maximal hb events i \<longleftrightarrow> (\<forall>f \<in> set events. \<not> hb (ev_Stamp (events ! i)) (ev_Stamp f))"
proof -
  have "\<not> hb (ev_Stamp (events ! i)) (ev_Stamp (events ! i))"
    using assms by (intro hb_irrefl) simp
  then show ?thesis by (auto simp: maximal_def precedes_def all_set_conv_all_nth)
qed

lemma MaximalElements_filter_events:
  assumes "\<forall>e \<in> set events. valid (ev_Stamp e)"
  shows "MaximalElements hb events =
    filter (\<lambda>e. \<forall>f \<in> set events. \<not> hb (ev_Stamp e) (ev_Stamp f)) events"
proof -
  let ?P = "\<lambda>e. \<forall>f \<in> set events. \<not> hb (ev_Stamp e) (ev_Stamp f)"
  have "filter (maximal hb events) [0..<length events] = filter (\<lambda>i. ?P (events ! i)) [0..<length events]"
    by (rule filter_cong) (simp_all add: maximal_iff [OF assms])
  then have "MaximalElements hb events = filter ?P (List.map ((!) events) [0..<length events])"
    by (simp add: MaximalElements_filter filter_map comp_def)
  then show ?thesis by (simp add: map_nth)
qed

lemma frontier_above:
  assumes "\<forall>e \<in> set events. valid (ev_Stamp e)" and "e \<in> set events"
  shows "\<exists>m \<in> set (MaximalElements hb events). m = e \<or> hb (ev_Stamp e) (ev_Stamp m)"
proof -
  obtain i where i: "i < length events" "e = events ! i" using assms(2) by (auto simp: in_set_conv_nth)
  from maximal_above [OF assms(1) i(1)] obtain m where "m < length events" "maximal hb events m"
      "m = i \<or> hb (ev_Stamp (events ! i)) (ev_Stamp (events ! m))" by blast
  then show ?thesis unfolding MaximalElements_filter i(2) by auto
qed

lemma converse_comparable: "comparable valid (\<lambda>a b. hb b a)"
  by unfold_locales (auto dest: hb_irrefl intro: hb_trans)

end

section \<open>Properties\<close>

text \<open>
  C9. The sort is complete exactly on acyclic inputs. Whatever \<^verbatim>\<open>HappensBefore\<close> answers, the function
  terminates and returns events of the input, no more often than they occur; it returns all of them
  if and only if \<^verbatim>\<open>HappensBefore\<close>, between different positions of the input, has no cycle.
\<close>

theorem TopologicalSort_complete_iff:
  "mset (TopologicalSort hb events) \<subseteq># mset events \<and>
   (mset (TopologicalSort hb events) = mset events \<longleftrightarrow>
    acyclic {(i, j). i < length events \<and> j < length events \<and> i \<noteq> j \<and>
      hb (ev_Stamp (events ! i)) (ev_Stamp (events ! j))})"
proof -
  let ?r = "emitted hb events" and ?n = "length events"
  have rel: "{(i, j). i < ?n \<and> j < ?n \<and> i \<noteq> j \<and>
      hb (ev_Stamp (events ! i)) (ev_Stamp (events ! j))} = edges (precedes hb events) ?n"
    by (simp add: edges_def precedes_def)
  have g: "distinct ?r" "set ?r \<subseteq> {..<?n}"
    using emitted_greedy(1) [of hb events] by (auto simp: greedy_def)
  have events: "mset events = image_mset ((!) events) (mset_set {..<?n})"
    by (metis atLeast_upt map_nth mset_map mset_set_upto_eq_mset_upto)
  have out: "mset (TopologicalSort hb events) = image_mset ((!) events) (mset_set (set ?r))"
    by (simp add: TopologicalSort_emitted mset_set_set [OF g(1)])
  have sub: "mset (TopologicalSort hb events) \<subseteq># mset events"
    unfolding events out using g(2) by (intro image_mset_subseteq_mono subset_imp_msubset_mset_set) auto
  have "mset (TopologicalSort hb events) = mset events \<longleftrightarrow> length ?r = ?n"
  proof
    assume "mset (TopologicalSort hb events) = mset events"
    then have "length (TopologicalSort hb events) = ?n" by (rule mset_eq_length)
    then show "length ?r = ?n" by (simp add: TopologicalSort_emitted)
  next
    assume "length ?r = ?n"
    then have "set ?r = {..<?n}" using g by (simp add: card_subset_eq distinct_card)
    then show "mset (TopologicalSort hb events) = mset events" unfolding events out by simp
  qed
  then show ?thesis using sub by (simp add: rel emitted_complete_iff)
qed

text \<open>
  C25. The output is a linear extension that takes the smallest available ID. It lists the events of a
  sequence of different positions such that, whenever an event is emitted, every event that happened
  before it has been emitted already, and no other event of which that is true has a smaller ID.
\<close>

theorem TopologicalSort_linear_extension:
  "\<exists>r. TopologicalSort hb events = List.map ((!) events) r \<and> distinct r \<and> set r \<subseteq> {..<length events} \<and>
    (\<forall>k < length r.
       {j. j < length events \<and> j \<noteq> r ! k \<and>
           hb (ev_Stamp (events ! j)) (ev_Stamp (events ! (r ! k)))} \<subseteq> set (take k r) \<and>
       (\<forall>i < length events. i \<notin> set (take k r) \<and>
          {j. j < length events \<and> j \<noteq> i \<and>
              hb (ev_Stamp (events ! j)) (ev_Stamp (events ! i))} \<subseteq> set (take k r) \<longrightarrow>
          ev_ID (events ! (r ! k)) \<le> ev_ID (events ! i)))"
proof (intro exI [of _ "emitted hb events"] conjI allI impI)
  let ?r = "emitted hb events" and ?n = "length events"
  note g = emitted_greedy(1) [of hb events]
  show "TopologicalSort hb events = List.map ((!) events) ?r" by (rule TopologicalSort_emitted)
  show "distinct ?r" and "set ?r \<subseteq> {..<?n}" using g by (auto simp: greedy_def)
  fix k assume k: "k < length ?r"
  have find: "List.find (free (precedes hb events) ?n (take k ?r)) (id_order events) = Some (?r ! k)"
    using g k by (simp add: greedy_def)
  show "{j. j < ?n \<and> j \<noteq> ?r ! k \<and> hb (ev_Stamp (events ! j)) (ev_Stamp (events ! (?r ! k)))} \<subseteq> set (take k ?r)"
    using greedy_free [OF g k] by (auto simp: free_def precedes_def)
  fix i assume i: "i < ?n"
    and "i \<notin> set (take k ?r) \<and> {j. j < ?n \<and> j \<noteq> i \<and>
      hb (ev_Stamp (events ! j)) (ev_Stamp (events ! i))} \<subseteq> set (take k ?r)"
  then have "free (precedes hb events) ?n (take k ?r) i" by (auto simp: free_def precedes_def)
  then show "ev_ID (events ! (?r ! k)) \<le> ev_ID (events ! i)" by (rule find_smallest_ID [OF find i])
qed

text \<open>Three events, the second of which happened before the first.\<close>

definition sort_demo :: "(nat, string) event list" where
  "sort_demo =
     [\<lparr>ev_ID = ''b'', ev_Stamp = 2, ev_Data = ''late''\<rparr>,
      \<lparr>ev_ID = ''c'', ev_Stamp = 1, ev_Data = ''early''\<rparr>,
      \<lparr>ev_ID = ''a'', ev_Stamp = 2, ev_Data = ''peer''\<rparr>]"

theorem TopologicalSort_linear_extension_witness:
  "\<exists>r. List.map ev_ID (TopologicalSort (<) sort_demo) = List.map (\<lambda>i. ev_ID (sort_demo ! i)) r \<and>
     distinct r \<and> set r \<subseteq> {..<3}"
proof -
  have "length sort_demo = 3" by (simp add: sort_demo_def)
  then show ?thesis using TopologicalSort_linear_extension [of "(<)" sort_demo] by (auto simp: comp_def)
qed

text \<open>
  C26. The order of the input does not matter. If the IDs are pairwise different, the output is the same for
  every order in which the events are passed.
\<close>

theorem TopologicalSort_order_independent:
  assumes "mset events = mset events'" and "distinct (List.map ev_ID events)"
  shows "TopologicalSort hb events = TopologicalSort hb events'"
proof (rule ev_greedy_unique)
  have set: "set events = set events'" using assms(1) by (rule mset_eq_setD)
  have d: "distinct events" using assms(2) by (simp add: distinct_map)
  then have d': "distinct events'" using assms(1) by (metis mset_eq_imp_distinct_iff)
  show "inj_on ev_ID (set events)" using assms(2) by (simp add: distinct_map)
  show "ev_greedy hb (set events) (TopologicalSort hb events)" by (rule TopologicalSort_ev_greedy [OF d])
  show "ev_greedy hb (set events) (TopologicalSort hb events')"
    unfolding set by (rule TopologicalSort_ev_greedy [OF d'])
qed

theorem TopologicalSort_order_independent_witness:
  "TopologicalSort (<) sort_demo = TopologicalSort (<) (rev sort_demo)"
  using TopologicalSort_order_independent [of sort_demo "rev sort_demo" "(<)"]
  by (simp add: sort_demo_def)

end
