(* ===== verification/Network.thy ===== *)
theory Network
  imports Prelude
begin

text \<open>
  Executions of a distributed system whose processes each own one logical clock, and the
  happened-before relation on their events. The clock is a parameter: three operations
  (\<open>tick\<close>, \<open>send\<close>, \<open>recv\<close>) and its initial state. The locale \<open>causal_clock\<close> states what a
  clock must promise for its stamps to respect causality, \<open>entry_clock\<close> what it must promise
  for them to characterise it. The clocks of the library are interpreted in their own theories.
\<close>

section \<open>Executions\<close>

type_synonym pid = string

text \<open>
  One step of a process. \<open>NRecv p k x\<close> delivers to \<open>p\<close> the message sent by the step at
  position \<open>k\<close> of the execution. Messages may be lost, delayed, reordered and duplicated:
  nothing says that a send is received, once, or in order. \<open>'i\<close> is what the environment
  supplies to the step (a wall-clock reading where the clock reads one).
\<close>

datatype 'i net_op =
    NTick (proc: pid) 'i
  | NSend (proc: pid) 'i
  | NRecv (proc: pid) nat 'i

text \<open>
  The trace records each step with the stamp the clock returned. \<open>None\<close> is a step at which
  no event happened: no such message, or the clock rejected it.
\<close>

type_synonym ('s, 'i) trace = "('i net_op \<times> 's option) list"

record ('c, 's, 'i) net =
  clocks :: "pid \<Rightarrow> 'c"
  trace :: "('s, 'i) trace"

definition sent :: "('s, 'i) trace \<Rightarrow> nat \<Rightarrow> 's option" where
  "sent tr k = (if k < length tr then (case tr ! k of (NSend p x, s) \<Rightarrow> s | _ \<Rightarrow> None) else None)"

definition emit :: "'i net_op \<Rightarrow> 'c \<times> 's option \<Rightarrow> ('c, 's, 'i) net \<Rightarrow> ('c, 's, 'i) net" where
  "emit a r n = n\<lparr>clocks := (clocks n)(proc a := fst r), trace := trace n @ [(a, snd r)]\<rparr>"

fun net_step ::
  "('i \<Rightarrow> 'c \<Rightarrow> 'c \<times> 's) \<Rightarrow> ('i \<Rightarrow> 'c \<Rightarrow> 'c \<times> 's) \<Rightarrow> ('i \<Rightarrow> 's \<Rightarrow> 'c \<Rightarrow> 'c \<times> 's option)
    \<Rightarrow> ('c, 's, 'i) net \<Rightarrow> 'i net_op \<Rightarrow> ('c, 's, 'i) net"
where
  "net_step tick send recv n (NTick p x) =
     emit (NTick p x) (map_prod id Some (tick x (clocks n p))) n"
| "net_step tick send recv n (NSend p x) =
     emit (NSend p x) (map_prod id Some (send x (clocks n p))) n"
| "net_step tick send recv n (NRecv p k x) =
     emit (NRecv p k x)
       (case sent (trace n) k of
          None \<Rightarrow> (clocks n p, None)
        | Some m \<Rightarrow> recv x m (clocks n p)) n"

definition net_run ::
  "(pid \<Rightarrow> 'c) \<Rightarrow> ('i \<Rightarrow> 'c \<Rightarrow> 'c \<times> 's) \<Rightarrow> ('i \<Rightarrow> 'c \<Rightarrow> 'c \<times> 's)
    \<Rightarrow> ('i \<Rightarrow> 's \<Rightarrow> 'c \<Rightarrow> 'c \<times> 's option) \<Rightarrow> 'i net_op list \<Rightarrow> ('c, 's, 'i) net"
where
  "net_run start tick send recv ops =
     foldl (net_step tick send recv) \<lparr>clocks = start, trace = []\<rparr> ops"

section \<open>Happened-before\<close>

definition stamp_at :: "('s, 'i) trace \<Rightarrow> nat \<Rightarrow> 's option" where
  "stamp_at tr i = (if i < length tr then snd (tr ! i) else None)"

abbreviation proc_at :: "('s, 'i) trace \<Rightarrow> nat \<Rightarrow> pid" where
  "proc_at tr i \<equiv> proc (fst (tr ! i))"

text \<open>
  Lamport's relation on the events (positions of the trace that carry a stamp): the order
  within a process, a send before each of its receives, and their transitive closure.
\<close>

inductive happened_before :: "('s, 'i) trace \<Rightarrow> nat \<Rightarrow> nat \<Rightarrow> bool" for tr where
  hb_local: "i < j \<Longrightarrow> stamp_at tr i = Some s \<Longrightarrow> stamp_at tr j = Some t \<Longrightarrow>
     proc_at tr i = proc_at tr j \<Longrightarrow> happened_before tr i j"
| hb_message: "stamp_at tr j = Some t \<Longrightarrow> fst (tr ! j) = NRecv p i x \<Longrightarrow>
     happened_before tr i j"
| hb_trans: "happened_before tr i j \<Longrightarrow> happened_before tr j k \<Longrightarrow> happened_before tr i k"

lemma happened_before_stamp: "happened_before tr i j \<Longrightarrow> \<exists>t. stamp_at tr j = Some t"
  by (induction rule: happened_before.induct) auto

text \<open>Two different events are concurrent when neither happened before the other.\<close>

definition concurrent_events :: "('s, 'i) trace \<Rightarrow> nat \<Rightarrow> nat \<Rightarrow> bool" where
  "concurrent_events tr i j \<longleftrightarrow>
     i \<noteq> j \<and> \<not> happened_before tr i j \<and> \<not> happened_before tr j i"

section \<open>Structure of runs\<close>

lemma net_run_Nil [simp]:
  "clocks (net_run start tick send recv []) = start"
  "trace (net_run start tick send recv []) = []"
  by (simp_all add: net_run_def)

lemma net_run_snoc:
  "net_run start tick send recv (ops @ [a]) =
     net_step tick send recv (net_run start tick send recv ops) a"
  by (simp add: net_run_def)

lemma emit_simps [simp]:
  "clocks (emit a r n) = (clocks n)(proc a := fst r)"
  "trace (emit a r n) = trace n @ [(a, snd r)]"
  by (simp_all add: emit_def)

lemma emit_inject: "emit a (c, r) t = emit a (c', r') t \<longleftrightarrow> c = c' \<and> r = r'"
proof
  assume eq: "emit a (c, r) t = emit a (c', r') t"
  have "clocks (emit a (c, r) t) (proc a) = clocks (emit a (c', r') t) (proc a)"
    and "trace (emit a (c, r) t) = trace (emit a (c', r') t)" using eq by simp_all
  then show "c = c' \<and> r = r'" by simp
qed simp

lemma sent_snoc:
  "sent (tr @ [(a, r)]) k =
     (if k < length tr then sent tr k
      else if k = length tr then (case a of NSend p x \<Rightarrow> r | _ \<Rightarrow> None) else None)"
  by (simp add: sent_def nth_append split: net_op.splits)

lemma sent_stamp_at: "sent tr k = Some m \<Longrightarrow> stamp_at tr k = Some m"
  by (simp add: sent_def stamp_at_def split: if_splits net_op.splits prod.splits)

lemma stamp_at_snoc:
  "stamp_at (tr @ [(a, r)]) i =
     (if i < length tr then stamp_at tr i else if i = length tr then r else None)"
  by (auto simp: stamp_at_def nth_append)

lemma stamp_at_length: "stamp_at tr i = Some s \<Longrightarrow> i < length tr"
  by (simp add: stamp_at_def split: if_splits)

lemma length_net_run [simp]: "length (trace (net_run start tick send recv ops)) = length ops"
proof (induction ops rule: rev_induct)
  case Nil
  then show ?case by simp
next
  case (snoc a ops)
  then show ?case by (cases a) (simp_all add: net_run_snoc)
qed

lemma ops_net_run: "List.map fst (trace (net_run start tick send recv ops)) = ops"
proof (induction ops rule: rev_induct)
  case Nil
  then show ?case by simp
next
  case (snoc a ops)
  then show ?case by (cases a) (simp_all add: net_run_snoc)
qed

text \<open>Adding a step at the end of a trace leaves the relation between earlier events alone.\<close>

lemma proc_at_snoc: "i < length tr \<Longrightarrow> proc_at (tr @ [e]) i = proc_at tr i"
  by (simp add: nth_append)

lemma happened_before_snoc: "happened_before tr i j \<Longrightarrow> happened_before (tr @ [e]) i j"
proof (induction rule: happened_before.induct)
  case (hb_local i j s t)
  then show ?case
    by (cases e) (auto intro!: happened_before.hb_local
        dest: stamp_at_length simp: stamp_at_snoc proc_at_snoc)
next
  case (hb_message j t p i x)
  then show ?case
    by (cases e) (auto intro!: happened_before.hb_message
        dest: stamp_at_length simp: stamp_at_snoc nth_append)
next
  case (hb_trans i j k)
  then show ?case by (blast intro: happened_before.hb_trans)
qed

section \<open>Clocks that respect causality\<close>

text \<open>
  The contract of a clock. \<open>cur c\<close> is the stamp of the latest event of clock \<open>c\<close>, \<open>before\<close> the
  order on stamps, \<open>bounded n s\<close> says that no counter of \<open>s\<close> exceeds \<open>n\<close>, and \<open>limit\<close> is the
  largest counter the machine integers hold: the laws are promised below it only, since Go's
  arithmetic wraps there. \<open>valid\<close> and \<open>ok\<close> are the clock's and the stamp's data invariant.
\<close>

locale causal_clock =
  fixes start :: "pid \<Rightarrow> 'c"
    and tick :: "'i \<Rightarrow> 'c \<Rightarrow> 'c \<times> 's"
    and send :: "'i \<Rightarrow> 'c \<Rightarrow> 'c \<times> 's"
    and recv :: "'i \<Rightarrow> 's \<Rightarrow> 'c \<Rightarrow> 'c \<times> 's option"
    and cur :: "'c \<Rightarrow> 's"
    and before :: "'s \<Rightarrow> 's \<Rightarrow> bool"
    and bounded :: "nat \<Rightarrow> 's \<Rightarrow> bool"
    and limit :: nat
    and valid :: "pid \<Rightarrow> 'c \<Rightarrow> bool"
    and ok :: "'s \<Rightarrow> bool"
  assumes start_law: "valid p (start p) \<and> bounded 0 (cur (start p))"
    and cur_ok: "valid p c \<Longrightarrow> ok (cur c)"
    and bounded_mono: "bounded k s \<Longrightarrow> k \<le> n \<Longrightarrow> bounded n s"
    and tick_law: "valid p c \<Longrightarrow> bounded n (cur c) \<Longrightarrow> n < limit \<Longrightarrow> tick x c = (c', s) \<Longrightarrow>
      valid p c' \<and> cur c' = s \<and> before (cur c) s \<and> bounded (n + 1) s"
    and send_law: "valid p c \<Longrightarrow> bounded n (cur c) \<Longrightarrow> n < limit \<Longrightarrow> send x c = (c', s) \<Longrightarrow>
      valid p c' \<and> cur c' = s \<and> before (cur c) s \<and> bounded (n + 1) s"
    and recv_law: "valid p c \<Longrightarrow> ok m \<Longrightarrow> bounded n (cur c) \<Longrightarrow> bounded n m \<Longrightarrow> n < limit \<Longrightarrow>
      recv x m c = (c', Some s) \<Longrightarrow>
      valid p c' \<and> cur c' = s \<and> before (cur c) s \<and> before m s \<and> bounded (n + 1) s"
    and reject_law: "recv x m c = (c', None) \<Longrightarrow> c' = c"
    and before_trans: "ok r \<Longrightarrow> ok s \<Longrightarrow> ok t \<Longrightarrow> before r s \<Longrightarrow> before s t \<Longrightarrow> before r t"
    and before_irrefl: "ok s \<Longrightarrow> \<not> before s s"
begin

abbreviation run :: "'i net_op list \<Rightarrow> ('c, 's, 'i) net" where
  "run \<equiv> net_run start tick send recv"

text \<open>What a run keeps: every clock and every stamp is valid and counts at most the steps.\<close>

definition sound_at :: "nat \<Rightarrow> ('c, 's, 'i) net \<Rightarrow> bool" where
  "sound_at n t \<longleftrightarrow>
     (\<forall>p. valid p (clocks t p) \<and> bounded n (cur (clocks t p))) \<and>
     (\<forall>i s. stamp_at (trace t) i = Some s \<longrightarrow> ok s \<and> bounded n s)"

lemma sound_at_sent: "sound_at n t \<Longrightarrow> sent (trace t) k = Some m \<Longrightarrow> ok m \<and> bounded n m"
  by (auto simp: sound_at_def dest: sent_stamp_at)

text \<open>
  The shape of one step: it is one \<open>emit\<close> by the acting process, and it either is no event and
  changes no clock, or its stamp is after the process's last one and after the message's.
\<close>

definition good_event ::
  "nat \<Rightarrow> ('c, 's, 'i) net \<Rightarrow> 'i net_op \<Rightarrow> 'c \<Rightarrow> 's option \<Rightarrow> bool" where
  "good_event n t a c' r \<longleftrightarrow>
     (r = None \<longrightarrow> c' = clocks t (proc a)) \<and>
     (\<forall>s. r = Some s \<longrightarrow> valid (proc a) c' \<and> cur c' = s \<and>
        before (cur (clocks t (proc a))) s \<and> bounded (n + 1) s) \<and>
     (\<forall>s p k x. r = Some s \<longrightarrow> a = NRecv p k x \<longrightarrow>
        (\<exists>m. sent (trace t) k = Some m \<and> before m s))"

lemma good_event_message:
  assumes "good_event n t (NRecv p k x) c' (Some u)"
  shows "\<exists>m. stamp_at (trace t) k = Some m \<and> before m u"
proof -
  have "\<exists>m. sent (trace t) k = Some m \<and> before m u"
    using assms by (simp add: good_event_def)
  then show ?thesis by (elim ex_forward) (simp add: sent_stamp_at)
qed

lemma good_event_None: "good_event n t a (clocks t (proc a)) None"
  by (simp add: good_event_def)

lemma step_shape:
  assumes sd: "sound_at n t" and lim: "n < limit"
  shows "\<exists>c' r. net_step tick send recv t a = emit a (c', r) t \<and> good_event n t a c' r"
proof -
  have v: "valid p (clocks t p)" and b: "bounded n (cur (clocks t p))" for p
    using sd by (auto simp: sound_at_def)
  show ?thesis
  proof (cases a)
    case (NTick p x)
    obtain c' s where eq: "tick x (clocks t p) = (c', s)" by fastforce
    show ?thesis
      using tick_law [OF v b lim eq] eq NTick
      by (intro exI [of _ c'] exI [of _ "Some s"]) (simp add: good_event_def)
  next
    case (NSend p x)
    obtain c' s where eq: "send x (clocks t p) = (c', s)" by fastforce
    show ?thesis
      using send_law [OF v b lim eq] eq NSend
      by (intro exI [of _ c'] exI [of _ "Some s"]) (simp add: good_event_def)
  next
    case (NRecv p k x)
    show ?thesis
    proof (cases "sent (trace t) k")
      case None
      then show ?thesis using NRecv good_event_None [of n t a] by auto
    next
      case (Some m)
      obtain c' r where eq: "recv x m (clocks t p) = (c', r)" by fastforce
      have m: "ok m" "bounded n m" using sound_at_sent [OF sd Some] by auto
      have "good_event n t a c' r"
      proof (cases r)
        case None
        then show ?thesis using eq reject_law NRecv good_event_None [of n t a] by auto
      next
        case r: (Some s)
        then show ?thesis
          using recv_law [OF v m(1) b m(2) lim] eq NRecv Some by (simp add: good_event_def)
      qed
      then show ?thesis using eq NRecv Some by auto
    qed
  qed
qed

lemma sound_run: "length ops \<le> limit \<Longrightarrow> sound_at (length ops) (run ops)"
proof (induction ops rule: rev_induct)
  case Nil
  show ?case using start_law by (simp add: sound_at_def stamp_at_def)
next
  case (snoc a ops)
  let ?n = "length ops" and ?t = "run ops"
  have IH: "sound_at ?n ?t" and lim: "?n < limit" using snoc by auto
  obtain c' r where st: "net_step tick send recv ?t a = emit a (c', r) ?t"
    and ge: "good_event ?n ?t a c' r"
    using step_shape [OF IH lim] by blast
  have vb: "valid p (clocks ?t p)" "bounded (?n + 1) (cur (clocks ?t p))" for p
    using IH bounded_mono [of ?n _ "?n + 1"] by (auto simp: sound_at_def)
  have old: "ok s \<and> bounded (?n + 1) s" if "stamp_at (trace ?t) i = Some s" for i s
    using IH that bounded_mono [of ?n _ "?n + 1"] by (auto simp: sound_at_def)
  have new: "valid (proc a) c' \<and> bounded (?n + 1) (cur c')"
    using ge vb unfolding good_event_def by (cases r) auto
  have "ok s \<and> bounded (?n + 1) s" if "r = Some s" for s
    using ge that cur_ok unfolding good_event_def by blast
  then show ?case
    using vb old new by (auto simp: net_run_snoc st sound_at_def stamp_at_snoc split: if_splits)
qed

text \<open>
  The order the stamps keep: each event's stamp is at most its process's current one, the stamps
  of a process increase, and a receive refers to an earlier send with a smaller stamp.
\<close>

definition ordered :: "('c, 's, 'i) net \<Rightarrow> bool" where
  "ordered t \<longleftrightarrow>
     (\<forall>i s. stamp_at (trace t) i = Some s \<longrightarrow>
        s = cur (clocks t (proc_at (trace t) i)) \<or> before s (cur (clocks t (proc_at (trace t) i)))) \<and>
     (\<forall>i j s u. i < j \<longrightarrow> stamp_at (trace t) i = Some s \<longrightarrow> stamp_at (trace t) j = Some u \<longrightarrow>
        proc_at (trace t) i = proc_at (trace t) j \<longrightarrow> before s u) \<and>
     (\<forall>j u p i x. stamp_at (trace t) j = Some u \<longrightarrow> fst (trace t ! j) = NRecv p i x \<longrightarrow>
        i < j \<and> (\<exists>s. stamp_at (trace t) i = Some s \<and> before s u))"

lemma ordered_emit:
  assumes ord: "ordered t"
    and none: "r = None \<Longrightarrow> c' = clocks t (proc a)"
    and cur: "\<And>u. r = Some u \<Longrightarrow> cur c' = u"
    and up: "\<And>i s u. stamp_at (trace t) i = Some s \<Longrightarrow> r = Some u \<Longrightarrow>
      proc_at (trace t) i = proc a \<Longrightarrow> before s u"
    and msg: "\<And>u p k x. r = Some u \<Longrightarrow> a = NRecv p k x \<Longrightarrow>
      \<exists>m. stamp_at (trace t) k = Some m \<and> before m u"
  shows "ordered (emit a (c', r) t)"
proof -
  let ?e = "emit a (c', r) t"
  have 1: "s = cur (clocks ?e (proc_at (trace ?e) i)) \<or> before s (cur (clocks ?e (proc_at (trace ?e) i)))"
    if "stamp_at (trace ?e) i = Some s" for i s
    using that ord none cur up [of i s] unfolding ordered_def
    by (cases r) (auto simp: stamp_at_snoc nth_append split: if_splits)
  have 2: "before s u"
    if "i < j" and "stamp_at (trace ?e) i = Some s" and "stamp_at (trace ?e) j = Some u"
      and "proc_at (trace ?e) i = proc_at (trace ?e) j" for i j s u
    using that ord up [of i s u] unfolding ordered_def
    by (auto simp: stamp_at_snoc nth_append split: if_splits)
  have 3: "i < j \<and> (\<exists>s. stamp_at (trace ?e) i = Some s \<and> before s u)"
    if j: "stamp_at (trace ?e) j = Some u" and f: "fst (trace ?e ! j) = NRecv p i x" for j u p i x
  proof (cases "j < length (trace t)")
    case True
    then have "i < j \<and> (\<exists>s. stamp_at (trace t) i = Some s \<and> before s u)"
      using j f ord unfolding ordered_def by (simp add: stamp_at_snoc nth_append)
    then show ?thesis using True by (auto simp: stamp_at_snoc)
  next
    case False
    then have "j = length (trace t)" and "r = Some u" and "a = NRecv p i x"
      using j f by (auto simp: stamp_at_snoc split: if_splits)
    then show ?thesis
      using msg [of u p i x] stamp_at_length [of "trace t" i] by (auto simp: stamp_at_snoc)
  qed
  show ?thesis unfolding ordered_def using 1 2 3 by blast
qed

lemma ordered_run: "length ops \<le> limit \<Longrightarrow> ordered (run ops)"
proof (induction ops rule: rev_induct)
  case Nil
  show ?case by (simp add: ordered_def stamp_at_def)
next
  case (snoc a ops)
  let ?t = "run ops"
  have lim: "length ops < limit" "length ops \<le> limit" using snoc.prems by auto
  have IH: "ordered ?t" by (rule snoc.IH [OF lim(2)])
  note sd = sound_run [OF lim(2)]
  obtain c' r where st: "net_step tick send recv ?t a = emit a (c', r) ?t"
    and ge: "good_event (length ops) ?t a c' r"
    using step_shape [OF sd lim(1)] by blast
  have up: "before s u"
    if i: "stamp_at (trace ?t) i = Some s" and u: "r = Some u"
      and p: "proc_at (trace ?t) i = proc a" for i s u
  proof -
    have cu: "cur c' = u" "valid (proc a) c'" and b: "before (cur (clocks ?t (proc a))) u"
      using ge u by (auto simp: good_event_def)
    have "ok s" and "ok (cur (clocks ?t (proc a)))" and "ok u"
      using sd i cur_ok cu by (auto simp: sound_at_def)
    moreover have "s = cur (clocks ?t (proc a)) \<or> before s (cur (clocks ?t (proc a)))"
      using IH i p unfolding ordered_def by metis
    ultimately show ?thesis using b before_trans by blast
  qed
  have "ordered (emit a (c', r) ?t)"
  proof (rule ordered_emit [OF IH])
    show "before s u" if "stamp_at (trace ?t) i = Some s" and "r = Some u"
      and "proc_at (trace ?t) i = proc a" for i s u
      by (rule up [OF that])
    show "\<exists>m. stamp_at (trace ?t) k = Some m \<and> before m u"
      if "r = Some u" and "a = NRecv p k x" for u p k x
      using good_event_message ge that by blast
  qed (use ge in \<open>auto simp: good_event_def\<close>)
  then show ?case by (simp add: net_run_snoc st)
qed

lemma ordered_local:
  "ordered t \<Longrightarrow> i < j \<Longrightarrow> stamp_at (trace t) i = Some s \<Longrightarrow> stamp_at (trace t) j = Some u \<Longrightarrow>
    proc_at (trace t) i = proc_at (trace t) j \<Longrightarrow> before s u"
  unfolding ordered_def by blast

lemma ordered_message:
  "ordered t \<Longrightarrow> stamp_at (trace t) j = Some u \<Longrightarrow> fst (trace t ! j) = NRecv p i x \<Longrightarrow>
    i < j \<and> (\<exists>s. stamp_at (trace t) i = Some s \<and> before s u)"
  unfolding ordered_def by blast

section \<open>The clock condition\<close>

lemma happened_before_position:
  "happened_before (trace (run ops)) i j \<Longrightarrow> length ops \<le> limit \<Longrightarrow>
    i < j \<and> (\<exists>s u. stamp_at (trace (run ops)) i = Some s \<and> stamp_at (trace (run ops)) j = Some u)"
proof (induction rule: happened_before.induct)
  case (hb_message j t p i x)
  then show ?case using ordered_message [OF ordered_run] by blast
qed auto

lemma run_ok: "length ops \<le> limit \<Longrightarrow> stamp_at (trace (run ops)) i = Some s \<Longrightarrow> ok s"
  using sound_run unfolding sound_at_def by blast

text \<open>If one event happened before another, its stamp is before the other's.\<close>

lemma clock_condition:
  assumes "length ops \<le> limit" and "happened_before (trace (run ops)) i j"
    and "stamp_at (trace (run ops)) i = Some s" and "stamp_at (trace (run ops)) j = Some u"
  shows "before s u"
  using assms(2,1,3,4)
proof (induction arbitrary: s u rule: happened_before.induct)
  case (hb_local i j a b)
  then show ?case using ordered_local [OF ordered_run, of ops i j s u] by simp
next
  case (hb_message j t p i x)
  then show ?case using ordered_message [OF ordered_run, of ops j u p i x] by auto
next
  case (hb_trans i j k)
  obtain t where t: "stamp_at (trace (run ops)) j = Some t"
    using happened_before_position [OF hb_trans.hyps(1) hb_trans.prems(1)] by blast
  have "before s t" and "before t u" using hb_trans t by auto
  moreover have "ok s" and "ok t" and "ok u"
    using sound_run [OF hb_trans.prems(1)] hb_trans.prems t by (auto simp: sound_at_def)
  ultimately show ?case using before_trans by blast
qed

text \<open>Two different events with one stamp are therefore concurrent.\<close>

lemma equal_stamps_concurrent:
  assumes "length ops \<le> limit" and "i \<noteq> j"
    and "stamp_at (trace (run ops)) i = Some s" and "stamp_at (trace (run ops)) j = Some s"
  shows "concurrent_events (trace (run ops)) i j"
proof -
  have "\<not> before s s"
    using sound_run [OF assms(1)] assms(3) before_irrefl by (auto simp: sound_at_def)
  then show ?thesis
    using assms clock_condition unfolding concurrent_events_def by blast
qed

end

section \<open>Clocks that characterise causality\<close>

text \<open>
  A clock that keeps one counter per process: \<open>entry s q\<close> is what stamp \<open>s\<close> knows of process
  \<open>q\<close>. An event advances its process's own entry by one; a receive first takes the maximum with
  the message, entry by entry.
\<close>

locale entry_clock =
  fixes start :: "pid \<Rightarrow> 'c"
    and tick :: "'i \<Rightarrow> 'c \<Rightarrow> 'c \<times> 's"
    and send :: "'i \<Rightarrow> 'c \<Rightarrow> 'c \<times> 's"
    and recv :: "'i \<Rightarrow> 's \<Rightarrow> 'c \<Rightarrow> 'c \<times> 's option"
    and cur :: "'c \<Rightarrow> 's"
    and before :: "'s \<Rightarrow> 's \<Rightarrow> bool"
    and limit :: nat
    and valid :: "pid \<Rightarrow> 'c \<Rightarrow> bool"
    and ok :: "'s \<Rightarrow> bool"
    and entry :: "'s \<Rightarrow> pid \<Rightarrow> nat"
  assumes entry_start: "valid p (start p) \<and> entry (cur (start p)) q = 0"
    and entry_cur_ok: "valid p c \<Longrightarrow> ok (cur c)"
    and entry_tick: "valid p c \<Longrightarrow> entry (cur c) p < limit \<Longrightarrow> tick x c = (c', s) \<Longrightarrow>
      valid p c' \<and> cur c' = s \<and> entry s q = entry (cur c) q + of_bool (q = p)"
    and entry_send: "valid p c \<Longrightarrow> entry (cur c) p < limit \<Longrightarrow> send x c = (c', s) \<Longrightarrow>
      valid p c' \<and> cur c' = s \<and> entry s q = entry (cur c) q + of_bool (q = p)"
    and entry_recv: "valid p c \<Longrightarrow> ok m \<Longrightarrow> max (entry (cur c) p) (entry m p) < limit \<Longrightarrow>
      recv x m c = (c', r) \<Longrightarrow>
      valid p c' \<and> r = Some (cur c') \<and>
      entry (cur c') q = max (entry (cur c) q) (entry m q) + of_bool (q = p)"
    and entry_total: "recv x m c = (c', r) \<Longrightarrow> r \<noteq> None"
    and before_iff: "ok s \<Longrightarrow> ok t \<Longrightarrow>
      before s t \<longleftrightarrow> (\<forall>q. entry s q \<le> entry t q) \<and> (\<exists>q. entry s q < entry t q)"

text \<open>Such a clock respects causality: its stamps are bounded by their largest entry.\<close>

sublocale entry_clock \<subseteq> causal_clock start tick send recv cur before
  "\<lambda>n s. \<forall>q. entry s q \<le> n" limit valid ok
proof (unfold_locales, goal_cases)
  case (1 p)
  then show ?case using entry_start by simp
next
  case (2 p c)
  then show ?case by (rule entry_cur_ok)
next
  case (3 k s n)
  then show ?case using le_trans by blast
next
  case (4 p c n x c' s)
  then have lim: "entry (cur c) p < limit" using le_less_trans by blast
  note t = entry_tick [OF 4(1) lim 4(4)]
  then show ?case
    using 4(2) t [of p] before_iff [OF entry_cur_ok entry_cur_ok, of p c p c'] 4(1)
    by (auto intro!: exI [of _ p] simp: le_SucI)
next
  case (5 p c n x c' s)
  then have lim: "entry (cur c) p < limit" using le_less_trans by blast
  note t = entry_send [OF 5(1) lim 5(4)]
  then show ?case
    using 5(2) t [of p] before_iff [OF entry_cur_ok entry_cur_ok, of p c p c'] 5(1)
    by (auto intro!: exI [of _ p] simp: le_SucI)
next
  case (6 p c m n x c' s)
  have "max (entry (cur c) p) (entry m p) \<le> n" using 6(3,4) by simp
  then have lim: "max (entry (cur c) p) (entry m p) < limit" using 6(5) by linarith
  note t = entry_recv [OF 6(1,2) lim 6(6)]
  then have v: "valid p c'" and s: "s = cur c'" by auto
  have e: "entry (cur c') q = max (entry (cur c) q) (entry m q) + of_bool (q = p)" for q
    using t by blast
  have "before (cur c) (cur c')" and "before m (cur c')"
    using before_iff [OF entry_cur_ok entry_cur_ok, OF 6(1) v]
      before_iff [OF 6(2) entry_cur_ok [OF v]]
    by (auto simp: e intro!: exI [of _ p])
  moreover have "\<forall>q. entry (cur c') q \<le> n + 1" using 6(3,4) by (auto simp: e le_SucI)
  ultimately show ?case using v s by simp
next
  case (7 x m c c')
  then show ?case using entry_total by blast
next
  case (8 r s t)
  then show ?case by (meson before_iff le_trans less_le_trans)
next
  case (9 s)
  then show ?case by (simp add: before_iff)
qed

context entry_clock
begin

text \<open>
  Event \<open>j\<close> knows the \<open>n\<close>-th event of process \<open>q\<close>: that event is \<open>j\<close> itself or happened
  before it.
\<close>

definition knows :: "('s, 'i) trace \<Rightarrow> nat \<Rightarrow> pid \<Rightarrow> nat \<Rightarrow> bool" where
  "knows tr j q n \<longleftrightarrow>
     (\<exists>i t. stamp_at tr i = Some t \<and> proc_at tr i = q \<and> entry t q = n \<and>
        (i = j \<or> happened_before tr i j))"

definition exact_at :: "('c, 's, 'i) net \<Rightarrow> bool" where
  "exact_at t \<longleftrightarrow>
     (\<forall>i s. stamp_at (trace t) i = Some s \<longrightarrow> 0 < entry s (proc_at (trace t) i) \<and>
        entry s (proc_at (trace t) i) \<le>
          entry (cur (clocks t (proc_at (trace t) i))) (proc_at (trace t) i)) \<and>
     (\<forall>i j s u. i < j \<longrightarrow> stamp_at (trace t) i = Some s \<longrightarrow> stamp_at (trace t) j = Some u \<longrightarrow>
        proc_at (trace t) i = proc_at (trace t) j \<longrightarrow>
        entry s (proc_at (trace t) i) < entry u (proc_at (trace t) i)) \<and>
     (\<forall>j s q. stamp_at (trace t) j = Some s \<longrightarrow> 0 < entry s q \<longrightarrow> knows (trace t) j q (entry s q)) \<and>
     (\<forall>p. (\<forall>q. entry (cur (clocks t p)) q = 0) \<or>
        (\<exists>j. stamp_at (trace t) j = Some (cur (clocks t p)) \<and> proc_at (trace t) j = p))"

lemma knowsI:
  "stamp_at tr i = Some t \<Longrightarrow> proc_at tr i = q \<Longrightarrow> entry t q = n \<Longrightarrow>
    i = j \<or> happened_before tr i j \<Longrightarrow> knows tr j q n"
  unfolding knows_def by blast

lemma knows_snoc:
  assumes "knows tr j q n"
  shows "knows (tr @ [e]) j q n"
proof -
  obtain a r where e: "e = (a, r)" by fastforce
  obtain i t where i: "stamp_at tr i = Some t" "proc_at tr i = q" "entry t q = n"
    "i = j \<or> happened_before tr i j"
    using assms unfolding knows_def by blast
  have "stamp_at (tr @ [e]) i = Some t" and "proc_at (tr @ [e]) i = q"
    using i stamp_at_length [OF i(1)] by (auto simp: e stamp_at_snoc nth_append)
  moreover have "i = j \<or> happened_before (tr @ [e]) i j"
    using i(4) happened_before_snoc [of tr i j e] by blast
  ultimately show ?thesis using i(3) knowsI by blast
qed

lemma knows_trans: "knows tr j q n \<Longrightarrow> happened_before tr j k \<Longrightarrow> knows tr k q n"
  unfolding knows_def by (blast intro: hb_trans)

text \<open>The event a step adds: where each entry of its stamp comes from.\<close>

definition grows :: "('c, 's, 'i) net \<Rightarrow> 'i net_op \<Rightarrow> 's \<Rightarrow> bool" where
  "grows t a s \<longleftrightarrow>
     entry (cur (clocks t (proc a))) (proc a) < entry s (proc a) \<and>
     (\<forall>q. q \<noteq> proc a \<longrightarrow> entry s q = entry (cur (clocks t (proc a))) q \<or>
        (\<exists>k x m. a = NRecv (proc a) k x \<and> stamp_at (trace t) k = Some m \<and> entry s q = entry m q))"

lemma step_grows:
  assumes sd: "sound_at n t" and lim: "n < limit"
    and st: "net_step tick send recv t a = emit a (c', r) t" and r: "r = Some s"
  shows "cur c' = s \<and> grows t a s"
proof -
  have v: "valid p (clocks t p)" and b: "entry (cur (clocks t p)) q < limit" for p q
    using sd lim le_less_trans unfolding sound_at_def by (blast, meson le_less_trans)
  show ?thesis
  proof (cases a)
    case (NTick p x)
    then have "tick x (clocks t p) = (c', s)"
      using st r by (cases "tick x (clocks t p)") (simp add: emit_inject)
    then show ?thesis
      using entry_tick [OF v b, of x p] NTick by (simp add: grows_def)
  next
    case (NSend p x)
    then have "send x (clocks t p) = (c', s)"
      using st r by (cases "send x (clocks t p)") (simp add: emit_inject)
    then show ?thesis
      using entry_send [OF v b, of x p] NSend by (simp add: grows_def)
  next
    case (NRecv p k x)
    show ?thesis
    proof (cases "sent (trace t) k")
      case None
      then show ?thesis using st r NRecv by (simp add: emit_inject)
    next
      case (Some m)
      then have rc: "recv x m (clocks t p) = (c', r)"
        using st NRecv by (cases "recv x m (clocks t p)") (simp add: emit_inject)
      have m: "ok m" "\<forall>q. entry m q \<le> n" using sound_at_sent [OF sd Some] by auto
      then have "entry m p < limit" using lim le_less_trans by blast
      then have "max (entry (cur (clocks t p)) p) (entry m p) < limit" using b by simp
      from entry_recv [OF v m(1) this rc] r have "cur c' = s"
        and e: "\<And>q. entry s q = max (entry (cur (clocks t p)) q) (entry m q) + of_bool (q = p)"
        by auto
      then show ?thesis
        using NRecv sent_stamp_at [OF Some] by (auto simp: grows_def e max_def)
    qed
  qed
qed

lemma exact_old:
  "exact_at t \<Longrightarrow> stamp_at (trace t) j = Some s \<Longrightarrow> 0 < entry s q \<Longrightarrow>
    knows (trace t) j q (entry s q)"
  unfolding exact_at_def by blast

text \<open>What the new event knows it took from its own clock or from the message.\<close>

lemma exact_new:
  assumes ex: "exact_at t" and gr: "grows t a s" and pos: "0 < entry s q"
  shows "knows (trace t @ [(a, Some s)]) (length (trace t)) q (entry s q)"
    (is "knows ?tr ?j q _")
proof -
  have new: "stamp_at ?tr ?j = Some s" and pn: "proc_at ?tr ?j = proc a"
    by (simp_all add: stamp_at_snoc)
  have from_old: "knows ?tr ?j q (entry u q)"
    if "stamp_at (trace t) k = Some u" and "0 < entry u q"
      and "happened_before ?tr k ?j" for k u
    using exact_old [OF ex that(1,2)] knows_snoc knows_trans that(3) by blast
  show ?thesis
  proof (cases "q = proc a")
    case True
    then show ?thesis using new pn by (intro knowsI [of _ ?j]) auto
  next
    case False
    then consider (own) "entry s q = entry (cur (clocks t (proc a))) q"
      | (msg) k x m where "a = NRecv (proc a) k x" "stamp_at (trace t) k = Some m"
          "entry s q = entry m q"
      using gr unfolding grows_def by blast
    then show ?thesis
    proof cases
      case own
      then obtain k where k: "stamp_at (trace t) k = Some (cur (clocks t (proc a)))"
        "proc_at (trace t) k = proc a"
        using ex pos unfolding exact_at_def by (metis less_not_refl)
      have "happened_before ?tr k ?j"
        using k stamp_at_length [OF k(1)] new pn
        by (intro hb_local) (auto simp: stamp_at_snoc nth_append)
      then show ?thesis using from_old [OF k(1)] own pos by simp
    next
      case (msg k x m)
      have "happened_before ?tr k ?j"
        using new msg(1) by (intro hb_message) auto
      then show ?thesis using from_old [OF msg(2)] msg(3) pos by simp
    qed
  qed
qed

lemma exact_emit_bounds:
  fixes c' :: 'c
  assumes ex: "exact_at t" and gr: "grows t a s" and cur: "cur c' = s"
  defines "e \<equiv> emit a (c', Some s) t"
  assumes u: "stamp_at (trace e) i = Some u"
  shows "0 < entry u (proc_at (trace e) i) \<and>
    entry u (proc_at (trace e) i) \<le> entry (cur (clocks e (proc_at (trace e) i))) (proc_at (trace e) i)"
proof -
  have own: "entry (cur (clocks t (proc a))) (proc a) < entry s (proc a)"
    using gr unfolding grows_def by blast
  show ?thesis
  proof (cases "i < length (trace t)")
    case True
    then have "stamp_at (trace t) i = Some u" using u by (simp add: e_def stamp_at_snoc)
    then have "0 < entry u (proc_at (trace t) i)" and "entry u (proc_at (trace t) i) \<le>
        entry (cur (clocks t (proc_at (trace t) i))) (proc_at (trace t) i)"
      using ex unfolding exact_at_def by blast+
    then show ?thesis using True own cur by (auto simp: e_def nth_append)
  next
    case False
    then show ?thesis using u own cur by (auto simp: e_def stamp_at_snoc split: if_splits)
  qed
qed

lemma exact_emit_order:
  fixes c' :: 'c
  assumes ex: "exact_at t" and gr: "grows t a s"
  defines "e \<equiv> emit a (c', Some s) t"
  assumes "i < j" and i: "stamp_at (trace e) i = Some u" and j: "stamp_at (trace e) j = Some w"
    and p: "proc_at (trace e) i = proc_at (trace e) j"
  shows "entry u (proc_at (trace e) i) < entry w (proc_at (trace e) i)"
proof -
  have own: "entry (cur (clocks t (proc a))) (proc a) < entry s (proc a)"
    using gr unfolding grows_def by blast
  have il: "i < length (trace t)" using \<open>i < j\<close> j stamp_at_length by (fastforce simp: e_def)
  then have io: "stamp_at (trace t) i = Some u" using i by (simp add: e_def stamp_at_snoc)
  show ?thesis
  proof (cases "j < length (trace t)")
    case True
    then show ?thesis
      using ex \<open>i < j\<close> io j p il unfolding exact_at_def by (auto simp: e_def stamp_at_snoc nth_append)
  next
    case False
    then have "w = s" and "proc_at (trace t) i = proc a"
      using j p il by (auto simp: e_def stamp_at_snoc nth_append split: if_splits)
    moreover have "entry u (proc_at (trace t) i) \<le>
        entry (cur (clocks t (proc_at (trace t) i))) (proc_at (trace t) i)"
      using ex io unfolding exact_at_def by blast
    ultimately show ?thesis using own il by (simp add: e_def nth_append)
  qed
qed

lemma exact_emit_Some:
  assumes ex: "exact_at t" and gr: "grows t a s" and cur: "cur c' = s"
  shows "exact_at (emit a (c', Some s) t)"
proof -
  let ?e = "emit a (c', Some s) t"
  have C: "knows (trace ?e) j q (entry u q)"
    if "stamp_at (trace ?e) j = Some u" and "0 < entry u q" for j u q
    using that exact_new [OF ex gr, of q] exact_old [OF ex] knows_snoc
    by (auto simp: stamp_at_snoc split: if_splits)
  have D: "(\<forall>q. entry (cur (clocks ?e p)) q = 0) \<or>
      (\<exists>j. stamp_at (trace ?e) j = Some (cur (clocks ?e p)) \<and> proc_at (trace ?e) j = p)" for p
  proof (cases "p = proc a")
    case True
    then show ?thesis
      using cur by (intro disjI2 exI [of _ "length (trace t)"]) (simp add: stamp_at_snoc)
  next
    case False
    have "(\<forall>q. entry (cur (clocks t p)) q = 0) \<or>
        (\<exists>j. stamp_at (trace t) j = Some (cur (clocks t p)) \<and> proc_at (trace t) j = p)"
      using ex unfolding exact_at_def by blast
    then show ?thesis
      using False stamp_at_length by (fastforce simp: stamp_at_snoc nth_append)
  qed
  show ?thesis unfolding exact_at_def
    using exact_emit_bounds [OF ex gr cur] exact_emit_order [OF ex gr, where c' = c'] C D by blast
qed

lemma exact_emit_None:
  assumes ex: "exact_at t"
  shows "exact_at (emit a (clocks t (proc a), None) t)"
proof -
  let ?e = "emit a (clocks t (proc a), None) t"
  have st: "stamp_at (trace ?e) i = stamp_at (trace t) i" for i
    by (simp add: stamp_at_def nth_append)
  have pr: "proc_at (trace ?e) i = proc_at (trace t) i" if "stamp_at (trace t) i = Some u" for i u
    using stamp_at_length [OF that] by (simp add: nth_append)
  have kn: "knows (trace ?e) j q n" if "knows (trace t) j q n" for j q n
    using knows_snoc [OF that] by simp
  have ck: "clocks ?e = clocks t" by simp
  show ?thesis
    unfolding exact_at_def st ck
  proof (intro conjI allI impI, goal_cases)
    case (1 i s)
    then show ?case using ex pr [OF 1] unfolding exact_at_def by metis
  next
    case (2 i s)
    then show ?case using ex pr [OF 2] unfolding exact_at_def by metis
  next
    case (3 i j s u)
    then show ?case using ex pr [OF 3(2)] pr [OF 3(3)] unfolding exact_at_def by metis
  next
    case (4 j s q)
    then show ?case using exact_old [OF ex] kn by blast
  next
    case (5 p)
    have "(\<forall>q. entry (cur (clocks t p)) q = 0) \<or>
        (\<exists>j. stamp_at (trace t) j = Some (cur (clocks t p)) \<and> proc_at (trace t) j = p)"
      using ex unfolding exact_at_def by blast
    then show ?case using pr by fastforce
  qed
qed

lemma exact_run: "length ops \<le> limit \<Longrightarrow> exact_at (run ops)"
proof (induction ops rule: rev_induct)
  case Nil
  show ?case using entry_start by (simp add: exact_at_def stamp_at_def)
next
  case (snoc a ops)
  let ?t = "run ops"
  have lim: "length ops < limit" "length ops \<le> limit" using snoc.prems by auto
  have IH: "exact_at ?t" by (rule snoc.IH [OF lim(2)])
  note sd = sound_run [OF lim(2)]
  obtain c' r where st: "net_step tick send recv ?t a = emit a (c', r) ?t"
    and ge: "good_event (length ops) ?t a c' r"
    using step_shape [OF sd lim(1)] by blast
  show ?case
  proof (cases r)
    case None
    then have "c' = clocks ?t (proc a)" using ge by (simp add: good_event_def)
    then show ?thesis using None st exact_emit_None [OF IH, of a] by (simp add: net_run_snoc)
  next
    case (Some s)
    then have "cur c' = s" and "grows ?t a s" using step_grows [OF sd lim(1) st] by auto
    then show ?thesis
      using Some st exact_emit_Some [OF IH, of a s c'] by (simp add: net_run_snoc)
  qed
qed

text \<open>The stamps of two events compare exactly as the events do.\<close>

lemma before_happened_before:
  assumes lim: "length ops \<le> limit"
    and i: "stamp_at (trace (run ops)) i = Some s" and j: "stamp_at (trace (run ops)) j = Some u"
    and before: "before s u"
  shows "happened_before (trace (run ops)) i j"
proof -
  let ?tr = "trace (run ops)" and ?p = "proc_at (trace (run ops)) i"
  note ex = exact_run [OF lim]
  have oks: "ok s" "ok u" using sound_run [OF lim] i j unfolding sound_at_def by blast+
  have le: "entry s q \<le> entry u q" for q using before before_iff oks by blast
  have "0 < entry s ?p" using ex i unfolding exact_at_def by blast
  then have "0 < entry u ?p" using le [of ?p] by simp
  then obtain k w where k: "stamp_at ?tr k = Some w" "proc_at ?tr k = ?p"
      and w: "entry w ?p = entry u ?p" and kj: "k = j \<or> happened_before ?tr k j"
    using exact_old [OF ex j] unfolding knows_def by blast
  have not_less: "\<not> k < i"
  proof
    assume "k < i"
    then have "entry w ?p < entry s ?p" using ex k i unfolding exact_at_def by metis
    then show False using w le [of ?p] by simp
  qed
  consider "k = i" | "i < k" using not_less by linarith
  then show ?thesis
  proof cases
    case 1
    then show ?thesis using kj i j before before_irrefl [OF oks(1)] by auto
  next
    case 2
    then have "happened_before ?tr i k" using i k by (auto intro: hb_local)
    then show ?thesis using kj hb_trans by blast
  qed
qed

lemma strong_clock_condition:
  assumes "length ops \<le> limit"
    and "stamp_at (trace (run ops)) i = Some s" and "stamp_at (trace (run ops)) j = Some u"
  shows "happened_before (trace (run ops)) i j \<longleftrightarrow> before s u"
  using assms clock_condition before_happened_before by blast

lemma different_events_stamps:
  assumes lim: "length ops \<le> limit" and ne: "i \<noteq> j"
    and i: "stamp_at (trace (run ops)) i = Some s" and j: "stamp_at (trace (run ops)) j = Some u"
  shows "\<exists>q. entry s q \<noteq> entry u q"
proof (rule ccontr)
  assume "\<nexists>q. entry s q \<noteq> entry u q"
  then have eq: "entry s q = entry u q" for q by simp
  note ex = exact_run [OF lim]
  let ?p = "proc_at (trace (run ops)) i"
  have "0 < entry u ?p" using ex i eq [of ?p] unfolding exact_at_def by metis
  then obtain k w where k: "stamp_at (trace (run ops)) k = Some w"
      "proc_at (trace (run ops)) k = ?p" and w: "entry w ?p = entry u ?p"
      and kj: "k = j \<or> happened_before (trace (run ops)) k j"
    using exact_old [OF ex j] unfolding knows_def by blast
  have "k = i"
    using ex i k w eq unfolding exact_at_def by (metis less_irrefl nat_neq_iff)
  then have "before s u" using kj ne strong_clock_condition [OF lim i j] by blast
  moreover have "ok s" "ok u" using sound_run [OF lim] i j unfolding sound_at_def by blast+
  ultimately show False using eq before_iff by auto
qed

end

end
