(* ===== verification/Lamport.thy ===== *)
theory Lamport
  imports Network
begin

text \<open>
  The Lamport clock of \<^verbatim>\<open>lamport/clock.go\<close>: one \<^verbatim>\<open>uint64\<close> counter. Every method locks
  the mutex on entry and unlocks it on return, so each is one step here (shown in \<open>Goroutines\<close>) and the model passes
  the state through: an operation takes the clock and returns the new clock and its result.
\<close>

record lamport =
  counter :: u64

definition lamport_New :: lamport where
  "lamport_New = \<lparr>counter = 0\<rparr>"

definition lamport_NewAt :: "u64 \<Rightarrow> lamport" where
  "lamport_NewAt start = \<lparr>counter = start\<rparr>"

definition lamport_Tick :: "lamport \<Rightarrow> lamport \<times> u64" where
  "lamport_Tick c = (let c = c\<lparr>counter := counter c + 1\<rparr> in (c, counter c))"

definition lamport_Send :: "lamport \<Rightarrow> lamport \<times> u64" where
  "lamport_Send c = (let c = c\<lparr>counter := counter c + 1\<rparr> in (c, counter c))"

definition lamport_Receive :: "u64 \<Rightarrow> lamport \<Rightarrow> lamport \<times> u64" where
  "lamport_Receive remote c =
     (let c = c\<lparr>counter := max (counter c) remote + 1\<rparr> in (c, counter c))"

definition lamport_Now :: "lamport \<Rightarrow> u64" where
  "lamport_Now c = counter c"

definition lamport_Reset :: "u64 \<Rightarrow> lamport \<Rightarrow> lamport" where
  "lamport_Reset to c = c\<lparr>counter := to\<rparr>"

lemmas lamport_defs =
  lamport_New_def lamport_NewAt_def lamport_Tick_def lamport_Send_def lamport_Receive_def
  lamport_Now_def lamport_Reset_def

text \<open>The largest counter; one more event wraps it to 0.\<close>

abbreviation lamport_limit :: nat where
  "lamport_limit \<equiv> 2 ^ 64 - 1"

text \<open>What each event does to the value \<open>Now\<close> reports, and that the event returns it.\<close>

lemma lamport_Tick_Now:
  assumes "lamport_Tick c = (c', s)" and "unat (lamport_Now c) < lamport_limit"
  shows "lamport_Now c' = s" and "unat s = unat (lamport_Now c) + 1"
  using assms by (auto simp: lamport_defs go_arith)

lemma lamport_Send_Tick: "lamport_Send = lamport_Tick"
  by (simp add: fun_eq_iff lamport_defs)

lemma lamport_Receive_Now:
  assumes "lamport_Receive m c = (c', s)"
    and "unat (lamport_Now c) < lamport_limit" and "unat m < lamport_limit"
  shows "lamport_Now c' = s" and "unat s = max (unat (lamport_Now c)) (unat m) + 1"
  using assms by (auto simp: lamport_defs go_arith)

lemma lamport_Receive_greater:
  assumes "lamport_Receive m c = (c', s)"
    and "unat (lamport_Now c) < lamport_limit" and "unat m < lamport_limit"
  shows "lamport_Now c < s" and "m < s"
  using lamport_Receive_Now [OF assms] by (auto simp: word_less_nat_alt)

section \<open>Systems of Lamport clocks\<close>

text \<open>Every process runs a fresh clock; the step needs nothing from the environment.\<close>

definition lamport_recv :: "unit \<Rightarrow> u64 \<Rightarrow> lamport \<Rightarrow> lamport \<times> u64 option" where
  "lamport_recv x m c = (case lamport_Receive m c of (c, s) \<Rightarrow> (c, Some s))"

definition lamport_net :: "unit net_op list \<Rightarrow> (lamport, u64, unit) net" where
  "lamport_net ops =
     net_run (\<lambda>_. lamport_New) (\<lambda>_. lamport_Tick) (\<lambda>_. lamport_Send) lamport_recv ops"

interpretation lamport_clock: causal_clock "\<lambda>_. lamport_New" "\<lambda>_::unit. lamport_Tick"
  "\<lambda>_. lamport_Send" lamport_recv lamport_Now "(<)" "\<lambda>n s. unat s \<le> n" lamport_limit
  "\<lambda>_ _. True" "\<lambda>_. True"
proof (unfold_locales, goal_cases)
  case (1 p)
  then show ?case by (simp add: lamport_defs)
next
  case (4 p c n x c' s)
  then show ?case
    using lamport_Tick_Now [OF 4(4)] by (simp add: word_less_nat_alt)
next
  case (5 p c n x c' s)
  then show ?case
    using lamport_Tick_Now [OF 5(4) [unfolded lamport_Send_Tick]] by (simp add: word_less_nat_alt)
next
  case (6 p c m n x c' s)
  then have "lamport_Receive m c = (c', s)"
    by (simp add: lamport_recv_def split: prod.splits)
  with 6 show ?case
    using lamport_Receive_Now [of m c c' s] by (simp add: word_less_nat_alt less_Suc_eq_le)
next
  case (7 x m c c')
  then show ?case by (simp add: lamport_recv_def split: prod.splits)
qed auto

text \<open>
  C16. Lamport's clock condition. In every execution of at most \<open>2 ^ 64 - 1\<close> steps by any number
  of processes with fresh Lamport clocks, whatever messages are lost, delayed, duplicated or
  reordered, an event that happened before another has the smaller timestamp.
\<close>

theorem lamport_clock_condition:
  assumes "length ops \<le> 2 ^ 64 - 1"
    and "happened_before (trace (lamport_net ops)) i j"
    and "stamp_at (trace (lamport_net ops)) i = Some s"
    and "stamp_at (trace (lamport_net ops)) j = Some u"
  shows "s < u"
  using lamport_clock.clock_condition assms unfolding lamport_net_def by blast

text \<open>Lamport's two processes and one message, used by the witnesses.\<close>

definition lamport_demo :: "unit net_op list" where
  "lamport_demo = [NTick ''A'' (), NSend ''A'' (), NTick ''B'' (), NRecv ''B'' 1 ()]"

lemma lamport_demo_trace:
  "trace (lamport_net lamport_demo) =
     [(NTick ''A'' (), Some 1), (NSend ''A'' (), Some 2), (NTick ''B'' (), Some 1),
      (NRecv ''B'' 1 (), Some 3)]"
  by (simp add: lamport_net_def net_run_def lamport_demo_def emit_def lamport_recv_def
      sent_def lamport_defs)

lemma lamport_demo_hb: "happened_before (trace (lamport_net lamport_demo)) 1 3"
  by (rule hb_message) (auto simp: lamport_demo_trace stamp_at_def)

theorem lamport_clock_condition_witness:
  "stamp_at (trace (lamport_net lamport_demo)) 1 = Some 2 \<and>
   stamp_at (trace (lamport_net lamport_demo)) 3 = Some 3 \<and> (2::u64) < 3"
proof -
  have s: "stamp_at (trace (lamport_net lamport_demo)) 1 = Some 2"
    and u: "stamp_at (trace (lamport_net lamport_demo)) 3 = Some 3"
    by (simp_all add: lamport_demo_trace stamp_at_def)
  have "length lamport_demo \<le> 2 ^ 64 - 1" by (simp add: lamport_demo_def)
  from lamport_clock_condition [OF this lamport_demo_hb s u] s u show ?thesis by blast
qed

text \<open>At the limit the clock wraps: receiving the largest timestamp sets it to 0.\<close>

lemma lamport_Receive_wraps: "lamport_Receive (- 1) c = (c\<lparr>counter := 0\<rparr>, 0)"
  by (simp add: lamport_Receive_def max_def)

end
