(* ===== verification/Hlc.thy ===== *)
theory Hlc
  imports Network
begin

text \<open>
  The hybrid logical clock of \<^verbatim>\<open>hlc/clock.go\<close>. A timestamp is an \<^verbatim>\<open>int64\<close> wall time and a
  \<^verbatim>\<open>uint32\<close> logical counter. The wall clock behind \<^verbatim>\<open>Clock.wall\<close> is an interface value, so its
  reading is an argument: \<open>pt\<close> is what \<^verbatim>\<open>c.wall.NowNanos()\<close> returned to this call. Nothing is
  assumed of it: it may stand still or jump in either direction. Every method holds the mutex
  throughout and is one step here (\<open>Goroutines\<close> shows that callers cannot tell).
\<close>

section \<open>Timestamps\<close>

datatype timestamp = Timestamp (WallTime: i64) (Logical: u32)

definition ts_Less :: "timestamp \<Rightarrow> timestamp \<Rightarrow> bool" where
  "ts_Less a b =
     (if WallTime a \<noteq> WallTime b then WallTime a <s WallTime b else Logical a < Logical b)"

definition ts_Equal :: "timestamp \<Rightarrow> timestamp \<Rightarrow> bool" where
  "ts_Equal a b \<longleftrightarrow> WallTime a = WallTime b \<and> Logical a = Logical b"

definition ts_Compare :: "timestamp \<Rightarrow> timestamp \<Rightarrow> int" where
  "ts_Compare a b =
     (if WallTime a <s WallTime b then -1
      else if WallTime b <s WallTime a then 1
      else if Logical a < Logical b then -1
      else if Logical b < Logical a then 1
      else 0)"

text \<open>The order the code means: lexicographic on the integers the two fields stand for.\<close>

definition ts_key :: "timestamp \<Rightarrow> int \<times> nat" where
  "ts_key a = (sint (WallTime a), unat (Logical a))"

lemma ts_Less_key:
  "ts_Less a b \<longleftrightarrow> sint (WallTime a) < sint (WallTime b) \<or>
     sint (WallTime a) = sint (WallTime b) \<and> unat (Logical a) < unat (Logical b)"
  by (simp add: ts_Less_def word_sless_alt word_less_nat_alt sint_inject_iff)

lemma ts_key_inject: "ts_key a = ts_key b \<longleftrightarrow> a = b"
  by (cases a; cases b) (simp add: ts_key_def sint_inject_iff word_unat_eq_iff)

lemma ts_Less_trans: "ts_Less a b \<Longrightarrow> ts_Less b c \<Longrightarrow> ts_Less a c"
  by (auto simp: ts_Less_key)

lemma ts_Less_irrefl [simp]: "\<not> ts_Less a a"
  by (simp add: ts_Less_key)

lemma ts_Less_total: "ts_Less a b \<or> a = b \<or> ts_Less b a"
  unfolding ts_key_inject [symmetric] ts_key_def by (auto simp: ts_Less_key)

lemma ts_Equal_iff: "ts_Equal a b \<longleftrightarrow> a = b"
  by (cases a; cases b) (simp add: ts_Equal_def)

text \<open>
  The library's order on timestamps is the code's \<open>Less\<close>, so lists of timestamps can be sorted
  and compared with the library's functions.
\<close>

instantiation timestamp :: linorder
begin

definition less_timestamp :: "timestamp \<Rightarrow> timestamp \<Rightarrow> bool" where
  "less_timestamp a b = ts_Less a b"

definition less_eq_timestamp :: "timestamp \<Rightarrow> timestamp \<Rightarrow> bool" where
  "less_eq_timestamp a b \<longleftrightarrow> ts_Less a b \<or> a = b"

instance
proof (standard, goal_cases)
  case (1 x y)
  then show ?case
    by (auto simp: less_timestamp_def less_eq_timestamp_def dest: ts_Less_trans)
next
  case (3 x y z)
  then show ?case by (auto simp: less_eq_timestamp_def dest: ts_Less_trans)
next
  case (4 x y)
  then show ?case by (auto simp: less_eq_timestamp_def dest: ts_Less_trans)
next
  case (5 x y)
  then show ?case using ts_Less_total by (auto simp: less_eq_timestamp_def)
qed (simp add: less_eq_timestamp_def)

end

section \<open>The clock\<close>

record hlc_clock =
  hlc_state :: timestamp
  hlc_maxDrift :: i64

text \<open>The error wraps \<^verbatim>\<open>ErrMaxDriftExceeded\<close> with the remote and local times and the limit.\<close>

datatype hlc_error = ErrMaxDriftExceeded i64 i64 i64

definition hlc_New :: hlc_clock where
  "hlc_New = \<lparr>hlc_state = Timestamp 0 0, hlc_maxDrift = 0\<rparr>"

definition hlc_NewWithMaxDrift :: "i64 \<Rightarrow> hlc_clock" where
  "hlc_NewWithMaxDrift d = \<lparr>hlc_state = Timestamp 0 0, hlc_maxDrift = d\<rparr>"

definition hlc_advanceLocked :: "i64 \<Rightarrow> hlc_clock \<Rightarrow> hlc_clock \<times> timestamp" where
  "hlc_advanceLocked pt c =
     (let newL = WallTime (hlc_state c);
          newL = smax pt newL;
          newC = (if newL = WallTime (hlc_state c) then Logical (hlc_state c) + 1 else 0);
          c = c\<lparr>hlc_state := Timestamp newL newC\<rparr>
      in (c, hlc_state c))"

definition hlc_Now :: "i64 \<Rightarrow> hlc_clock \<Rightarrow> hlc_clock \<times> timestamp" where
  "hlc_Now pt c = hlc_advanceLocked pt c"

definition hlc_Send :: "i64 \<Rightarrow> hlc_clock \<Rightarrow> hlc_clock \<times> timestamp" where
  "hlc_Send pt c = hlc_Now pt c"

definition hlc_Receive ::
  "i64 \<Rightarrow> timestamp \<Rightarrow> hlc_clock \<Rightarrow> hlc_clock \<times> (hlc_error + timestamp)" where
  "hlc_Receive pt remote c =
     (if 0 <s hlc_maxDrift c \<and> pt + hlc_maxDrift c <s WallTime remote
      then (c, Inl (ErrMaxDriftExceeded (WallTime remote) pt (hlc_maxDrift c)))
      else
        (let newL = WallTime (hlc_state c);
             newL = smax (WallTime remote) newL;
             newL = smax pt newL;
             newC =
               (if newL = WallTime (hlc_state c) \<and> newL = WallTime remote
                then max (Logical (hlc_state c)) (Logical remote) + 1
                else if newL = WallTime (hlc_state c) then Logical (hlc_state c) + 1
                else if newL = WallTime remote then Logical remote + 1
                else 0);
             c = c\<lparr>hlc_state := Timestamp newL newC\<rparr>
         in (c, Inr (hlc_state c))))"

definition hlc_Current :: "hlc_clock \<Rightarrow> timestamp" where
  "hlc_Current c = hlc_state c"

lemmas hlc_defs =
  hlc_New_def hlc_NewWithMaxDrift_def hlc_advanceLocked_def hlc_Now_def hlc_Send_def
  hlc_Receive_def hlc_Current_def Let_def

abbreviation logical_limit :: nat where
  "logical_limit \<equiv> 2 ^ 32 - 1"

subsection \<open>The published algorithm\<close>

text \<open>
  The update rules of the package documentation over unbounded integers: the timestamp
  \<open>(l, c)\<close>, the physical time \<open>pt\<close> and the remote timestamp \<open>(ml, mc)\<close>.
\<close>

definition hlc_spec_local :: "int \<Rightarrow> int \<times> nat \<Rightarrow> int \<times> nat" where
  "hlc_spec_local pt = (\<lambda>(l, c). let l' = max l pt in (l', if l' = l then c + 1 else 0))"

definition hlc_spec_receive :: "int \<Rightarrow> int \<times> nat \<Rightarrow> int \<times> nat \<Rightarrow> int \<times> nat" where
  "hlc_spec_receive pt = (\<lambda>(ml, mc) (l, c).
     let l' = max (max l ml) pt
     in (l', if l' = l \<and> l = ml then max c mc + 1
             else if l' = l then c + 1
             else if l' = ml then mc + 1
             else 0))"

lemma hlc_advance_spec:
  assumes "unat (Logical (hlc_state c)) < logical_limit"
  shows "ts_key (hlc_state (fst (hlc_advanceLocked pt c))) =
      hlc_spec_local (sint pt) (ts_key (hlc_state c))"
    and "snd (hlc_advanceLocked pt c) = hlc_state (fst (hlc_advanceLocked pt c))"
  using assms
  by (auto simp: hlc_defs ts_key_def hlc_spec_local_def smax_def word_sless_alt
      sint_inject_iff go_arith max_def)

lemma hlc_Receive_spec:
  assumes "hlc_Receive pt m c = (c', Inr s)"
    and "unat (Logical (hlc_state c)) < logical_limit" and "unat (Logical m) < logical_limit"
  shows "ts_key s = hlc_spec_receive (sint pt) (ts_key m) (ts_key (hlc_state c))"
    and "hlc_state c' = s" and "hlc_maxDrift c' = hlc_maxDrift c"
proof -
  show "hlc_state c' = s" and "hlc_maxDrift c' = hlc_maxDrift c"
    using assms(1) by (auto simp: hlc_defs split: if_splits)
  show "ts_key s = hlc_spec_receive (sint pt) (ts_key m) (ts_key (hlc_state c))"
    using assms
    by (auto simp: hlc_defs ts_key_def hlc_spec_receive_def smax_def word_sless_alt
        sint_inject_iff [symmetric] go_arith max_def word_le_nat_alt split: if_splits)
qed

subsection \<open>What one operation promises\<close>

text \<open>The rules as such: a step is later than the clock and the message, and than the wall.\<close>

lemma spec_local_props:
  "hlc_spec_local pt (l, c) = (l', c') \<Longrightarrow>
     (l < l' \<or> l = l' \<and> c < c') \<and> pt \<le> l' \<and> (l' = l \<or> l' = pt) \<and> c' \<le> c + 1"
  by (auto simp: hlc_spec_local_def Let_def max_def split: if_splits)

lemma spec_receive_props:
  "hlc_spec_receive pt (ml, mc) (l, c) = (l', c') \<Longrightarrow>
     (l < l' \<or> l = l' \<and> c < c') \<and> (ml < l' \<or> ml = l' \<and> mc < c') \<and> pt \<le> l' \<and>
     (l' = l \<or> l' = ml \<or> l' = pt) \<and> c' \<le> max c mc + 1"
  by (auto simp: hlc_spec_receive_def Let_def max_def split: if_splits)

text \<open>The code inherits them below the limit of the 32-bit counter.\<close>

lemma hlc_Now_props:
  assumes "hlc_Now pt c = (c', s)" and "unat (Logical (hlc_Current c)) < logical_limit"
  shows "hlc_Current c' = s \<and> hlc_maxDrift c' = hlc_maxDrift c \<and> ts_Less (hlc_Current c) s \<and>
    sint pt \<le> sint (WallTime s) \<and> (WallTime s = WallTime (hlc_Current c) \<or> WallTime s = pt) \<and>
    unat (Logical s) \<le> unat (Logical (hlc_Current c)) + 1"
proof -
  let ?k = "hlc_spec_local (sint pt) (ts_key (hlc_state c))"
  have lim: "unat (Logical (hlc_state c)) < logical_limit" using assms(2) by (simp add: hlc_defs)
  have s: "hlc_state c' = s" and k: "ts_key s = ?k"
    using hlc_advance_spec [OF lim, of pt] assms(1) by (simp_all add: hlc_Now_def)
  moreover have "hlc_maxDrift c' = hlc_maxDrift c" using assms(1) by (auto simp: hlc_defs)
  moreover have "WallTime s = WallTime (hlc_state c) \<or> WallTime s = pt"
    using assms(1) smax_cases [of pt "WallTime (hlc_state c)"] by (auto simp: hlc_defs)
  ultimately show ?thesis
    using spec_local_props [of "sint pt" "sint (WallTime (hlc_state c))" "unat (Logical (hlc_state c))"
        "sint (WallTime s)" "unat (Logical s)"]
    by (auto simp: ts_key_def ts_Less_key hlc_Current_def)
qed

lemma hlc_Receive_props:
  assumes "hlc_Receive pt m c = (c', Inr s)"
    and "unat (Logical (hlc_Current c)) < logical_limit" and "unat (Logical m) < logical_limit"
  shows "hlc_Current c' = s \<and> hlc_maxDrift c' = hlc_maxDrift c \<and> ts_Less (hlc_Current c) s \<and>
    ts_Less m s \<and> sint pt \<le> sint (WallTime s) \<and>
    (WallTime s = WallTime (hlc_Current c) \<or> WallTime s = WallTime m \<or> WallTime s = pt) \<and>
    unat (Logical s) \<le> max (unat (Logical (hlc_Current c))) (unat (Logical m)) + 1"
proof -
  have lim: "unat (Logical (hlc_state c)) < logical_limit" using assms(2) by (simp add: hlc_defs)
  note k = hlc_Receive_spec [OF assms(1) lim assms(3)]
  have "WallTime s = WallTime (hlc_state c) \<or> WallTime s = WallTime m \<or> WallTime s = pt"
    using assms(1) by (auto simp: hlc_defs smax_def split: if_splits)
  then show ?thesis
    using k spec_receive_props [of "sint pt" "sint (WallTime m)" "unat (Logical m)"
        "sint (WallTime (hlc_state c))" "unat (Logical (hlc_state c))"
        "sint (WallTime s)" "unat (Logical s)"]
    by (auto simp: ts_key_def ts_Less_key hlc_Current_def)
qed

lemma hlc_Send_Now: "hlc_Send = hlc_Now"
  by (simp add: fun_eq_iff hlc_Send_def)

text \<open>A rejected message changes nothing.\<close>

lemma hlc_Receive_reject: "hlc_Receive pt m c = (c', Inl e) \<Longrightarrow> c' = c"
  by (auto simp: hlc_Receive_def Let_def split: if_splits)

section \<open>Systems of hybrid logical clocks\<close>

text \<open>
  Each process has a drift limit of its own; every step is given its own process's wall-clock
  reading. A rejected message is no event.
\<close>

definition hlc_recv :: "i64 \<Rightarrow> timestamp \<Rightarrow> hlc_clock \<Rightarrow> hlc_clock \<times> timestamp option" where
  "hlc_recv pt m c =
     (case hlc_Receive pt m c of (c, Inl e) \<Rightarrow> (c, None) | (c, Inr s) \<Rightarrow> (c, Some s))"

definition hlc_net :: "(pid \<Rightarrow> i64) \<Rightarrow> i64 net_op list \<Rightarrow> (hlc_clock, timestamp, i64) net" where
  "hlc_net drift ops =
     net_run (\<lambda>p. hlc_NewWithMaxDrift (drift p)) hlc_Now hlc_Send hlc_recv ops"

lemma hlc_recv_Some: "hlc_recv pt m c = (c', Some s) \<longleftrightarrow> hlc_Receive pt m c = (c', Inr s)"
  by (auto simp: hlc_recv_def split: prod.splits sum.splits)

interpretation hlc_causal: causal_clock "\<lambda>p. hlc_NewWithMaxDrift (drift p)" hlc_Now hlc_Send
  hlc_recv hlc_Current ts_Less "\<lambda>n s. unat (Logical s) \<le> n" logical_limit "\<lambda>_ _. True" "\<lambda>_. True"
  for drift :: "pid \<Rightarrow> i64"
proof (unfold_locales, goal_cases)
  case (1 p)
  then show ?case by (simp add: hlc_defs)
next
  case (4 p c n x c' s)
  then show ?case using hlc_Now_props [OF 4(4)] by auto
next
  case (5 p c n x c' s)
  then show ?case using hlc_Now_props [of x c c' s] by (auto simp: hlc_Send_Now)
next
  case (6 p c m n x c' s)
  then show ?case using hlc_Receive_props [of x m c c' s] by (auto simp: hlc_recv_Some)
next
  case (7 x m c c')
  then show ?case
    using hlc_Receive_reject by (auto simp: hlc_recv_def split: prod.splits sum.splits)
next
  case (8 r s t)
  then show ?case by (blast intro: ts_Less_trans)
qed auto

section \<open>Sequences of operations on one clock\<close>

text \<open>
  Any calls in any order, with any wall-clock readings and any remote timestamps: what a single
  process may do to its clock, whoever sends to it.
\<close>

datatype hlc_op = HNow (reading: i64) | HSend (reading: i64) | HReceive (reading: i64) timestamp

fun hlc_apply :: "hlc_op \<Rightarrow> hlc_clock \<Rightarrow> hlc_clock \<times> (hlc_error + timestamp)" where
  "hlc_apply (HNow pt) c = (case hlc_Now pt c of (c, s) \<Rightarrow> (c, Inr s))"
| "hlc_apply (HSend pt) c = (case hlc_Send pt c of (c, s) \<Rightarrow> (c, Inr s))"
| "hlc_apply (HReceive pt m) c = hlc_Receive pt m c"

text \<open>The clock after the calls, and the timestamps the successful ones returned, in order.\<close>

fun hlc_run :: "hlc_op list \<Rightarrow> hlc_clock \<Rightarrow> hlc_clock \<times> timestamp list" where
  "hlc_run [] c = (c, [])"
| "hlc_run (a # as) c =
     (case hlc_apply a c of (c, r) \<Rightarrow>
        (case hlc_run as c of (c, ss) \<Rightarrow>
           (c, (case r of Inl e \<Rightarrow> ss | Inr s \<Rightarrow> s # ss))))"

text \<open>The logical counter a call can bring in from outside.\<close>

fun remote_logical :: "hlc_op \<Rightarrow> nat" where
  "remote_logical (HReceive pt m) = unat (Logical m)"
| "remote_logical _ = 0"

lemma hlc_apply_props:
  assumes "hlc_apply a c = (c', Inr s)"
    and "unat (Logical (hlc_Current c)) < logical_limit" and "remote_logical a < logical_limit"
  shows "hlc_Current c' = s \<and> ts_Less (hlc_Current c) s \<and> sint (reading a) \<le> sint (WallTime s) \<and>
    unat (Logical s) \<le> max (unat (Logical (hlc_Current c))) (remote_logical a) + 1"
proof (cases a)
  case (HNow pt)
  then show ?thesis using assms hlc_Now_props [of pt c c' s] by (auto split: prod.splits)
next
  case (HSend pt)
  then show ?thesis
    using assms hlc_Now_props [of pt c c' s] by (auto simp: hlc_Send_Now split: prod.splits)
next
  case (HReceive pt m)
  then show ?thesis using assms hlc_Receive_props [of pt m c c' s] by auto
qed

lemma hlc_apply_reject: "hlc_apply a c = (c', Inl e) \<Longrightarrow> c' = c"
  by (cases a) (auto split: prod.splits dest: hlc_Receive_reject)

lemma hlc_run_increasing:
  assumes "hlc_run as c = (c', ss)"
    and "unat (Logical (hlc_Current c)) + length as \<le> n"
    and "\<forall>a \<in> set as. remote_logical a + length as \<le> n" and "n \<le> logical_limit"
  shows "sorted_wrt ts_Less (hlc_Current c # ss)"
  using assms
proof (induction as arbitrary: c ss)
  case Nil
  then show ?case by simp
next
  case (Cons a as)
  obtain c1 r where a: "hlc_apply a c = (c1, r)" by fastforce
  obtain c2 ss' where as: "hlc_run as c1 = (c2, ss')" by fastforce
  have as': "hlc_run as c1 = (c', ss')" using Cons.prems(1) a as by simp
  show ?case
  proof (cases r)
    case (Inl e)
    then have "c1 = c" and "ss = ss'"
      using a as Cons.prems(1) hlc_apply_reject by auto
    then show ?thesis using Cons.IH [OF as'] Cons.prems(2-4) by force
  next
    case (Inr s)
    have ra: "remote_logical a < logical_limit" using Cons.prems(3,4) by fastforce
    have "unat (Logical (hlc_Current c)) < logical_limit" using Cons.prems(2,4) by simp
    note p = hlc_apply_props [OF a [unfolded Inr] this ra]
    have "remote_logical a + Suc (length as) \<le> n" using Cons.prems(3) by simp
    then have "unat (Logical (hlc_Current c1)) + length as \<le> n" using p Cons.prems(2) by auto
    moreover have "\<forall>b \<in> set as. remote_logical b + length as \<le> n" using Cons.prems(3) by auto
    ultimately have "sorted_wrt ts_Less (hlc_Current c1 # ss')"
      using Cons.IH [OF as'] Cons.prems(4) by blast
    moreover have "ss = s # ss'" using Cons.prems(1) a as Inr by simp
    ultimately show ?thesis using p by (auto intro: ts_Less_trans)
  qed
qed

text \<open>
  The drift limit. If no wall-clock reading exceeds \<open>M\<close> and \<open>M\<close> plus the limit is an \<^verbatim>\<open>int64\<close>,
  the clock never runs ahead of \<open>M\<close> by more than the limit.
\<close>

lemma hlc_apply_drift:
  assumes "0 < sint (hlc_maxDrift c)" and "sint (reading a) \<le> M"
    and "M + sint (hlc_maxDrift c) < 2 ^ 63"
    and "sint (WallTime (hlc_Current c)) \<le> M + sint (hlc_maxDrift c)"
    and "hlc_apply a c = (c', r)"
  shows "hlc_maxDrift c' = hlc_maxDrift c \<and>
    sint (WallTime (hlc_Current c')) \<le> M + sint (hlc_maxDrift c)"
proof -
  have lb: "- (2 ^ 63) \<le> sint x" for x :: i64 using sint_ge [of x] by simp
  have "sint (reading a + hlc_maxDrift c) = sint (reading a) + sint (hlc_maxDrift c)"
    using assms(1-3) lb [of "reading a"] by (intro sint_plus) linarith+
  then show ?thesis
    using assms
    by (cases a) (auto simp: hlc_defs word_sless_alt sint_smax split: if_splits)
qed

lemma hlc_run_drift:
  assumes "0 < sint (hlc_maxDrift c)" and "\<forall>a \<in> set as. sint (reading a) \<le> M"
    and "M + sint (hlc_maxDrift c) < 2 ^ 63"
    and "sint (WallTime (hlc_Current c)) \<le> M + sint (hlc_maxDrift c)"
  shows "hlc_maxDrift (fst (hlc_run as c)) = hlc_maxDrift c \<and>
    sint (WallTime (hlc_Current (fst (hlc_run as c)))) \<le> M + sint (hlc_maxDrift c)"
  using assms
proof (induction as arbitrary: c)
  case Nil
  then show ?case by simp
next
  case (Cons a as)
  obtain c1 r where a: "hlc_apply a c = (c1, r)" by fastforce
  obtain c2 ss where as: "hlc_run as c1 = (c2, ss)" by fastforce
  have "sint (reading a) \<le> M" using Cons.prems(2) by simp
  note d = hlc_apply_drift [OF Cons.prems(1) this Cons.prems(3,4) a]
  then show ?case using Cons.IH [of c1] Cons.prems a as by simp
qed

section \<open>Properties\<close>

text \<open>
  C2. The HLC clock condition. In every execution of at most \<open>2 ^ 32 - 1\<close> steps by any number of
  processes, with any wall-clock readings and any drift limits, an event that happened before
  another has the smaller timestamp in the order of \<open>Less\<close>.
\<close>

theorem hlc_clock_condition:
  assumes "length ops \<le> 2 ^ 32 - 1"
    and "happened_before (trace (hlc_net drift ops)) i j"
    and "stamp_at (trace (hlc_net drift ops)) i = Some s"
    and "stamp_at (trace (hlc_net drift ops)) j = Some u"
  shows "ts_Less s u"
  using hlc_causal.clock_condition assms unfolding hlc_net_def by blast

text \<open>Two nodes whose wall clocks differ by 50ms; the second message goes to the slower node.\<close>

definition hlc_demo :: "i64 net_op list" where
  "hlc_demo =
     [NSend ''n1'' 1000000000000, NRecv ''n2'' 0 1000050000000,
      NSend ''n2'' 1000050000000, NRecv ''n1'' 2 1000000000000]"

lemma hlc_demo_trace:
  "trace (hlc_net (\<lambda>_. 0) hlc_demo) =
     [(NSend ''n1'' 1000000000000, Some (Timestamp 1000000000000 0)),
      (NRecv ''n2'' 0 1000050000000, Some (Timestamp 1000050000000 0)),
      (NSend ''n2'' 1000050000000, Some (Timestamp 1000050000000 1)),
      (NRecv ''n1'' 2 1000000000000, Some (Timestamp 1000050000000 2))]"
  by (simp add: hlc_net_def net_run_def hlc_demo_def emit_def hlc_recv_def sent_def hlc_defs
      smax_def word_sless_alt)

theorem hlc_clock_condition_witness:
  "stamp_at (trace (hlc_net (\<lambda>_. 0) hlc_demo)) 2 = Some (Timestamp 1000050000000 1) \<and>
   stamp_at (trace (hlc_net (\<lambda>_. 0) hlc_demo)) 3 = Some (Timestamp 1000050000000 2) \<and>
   ts_Less (Timestamp 1000050000000 1) (Timestamp 1000050000000 2)"
proof -
  have s: "stamp_at (trace (hlc_net (\<lambda>_. 0) hlc_demo)) 2 = Some (Timestamp 1000050000000 1)"
    and u: "stamp_at (trace (hlc_net (\<lambda>_. 0) hlc_demo)) 3 = Some (Timestamp 1000050000000 2)"
    by (simp_all add: hlc_demo_trace stamp_at_def)
  have hb: "happened_before (trace (hlc_net (\<lambda>_. 0) hlc_demo)) 2 3"
    by (rule hb_message [OF u]) (simp add: hlc_demo_trace)
  have "length hlc_demo \<le> 2 ^ 32 - 1" by (simp add: hlc_demo_def)
  from hlc_clock_condition [OF this hb s u] s u show ?thesis by blast
qed

text \<open>
  C20. One clock never goes backward. Whatever calls are made in whatever order, with any
  wall-clock readings (an NTP step backward included) and any remote timestamps, the timestamps
  returned increase strictly from the clock's state on, as long as the counters that come in
  leave room for the number of calls below \<open>2 ^ 32 - 1\<close>. Rejected messages return none.
\<close>

theorem hlc_monotone:
  assumes "hlc_run as c = (c', ss)"
    and "unat (Logical (hlc_Current c)) + length as \<le> 2 ^ 32 - 1"
    and "\<forall>a \<in> set as. remote_logical a + length as \<le> 2 ^ 32 - 1"
  shows "sorted_wrt ts_Less (hlc_Current c # ss)"
  using hlc_run_increasing [OF assms(1-3)] by simp

text \<open>The wall clock steps back by 200ms between the second and the third call.\<close>

theorem hlc_monotone_witness:
  "hlc_run [HNow 1000, HNow 1100, HNow 900] hlc_New =
     (\<lparr>hlc_state = Timestamp 1100 1, hlc_maxDrift = 0\<rparr>,
      [Timestamp 1000 0, Timestamp 1100 0, Timestamp 1100 1]) \<and>
   sorted_wrt ts_Less [Timestamp 0 0, Timestamp 1000 0, Timestamp 1100 0, Timestamp 1100 1]"
proof -
  have run: "hlc_run [HNow 1000, HNow 1100, HNow 900] hlc_New =
     (\<lparr>hlc_state = Timestamp 1100 1, hlc_maxDrift = 0\<rparr>,
      [Timestamp 1000 0, Timestamp 1100 0, Timestamp 1100 1])"
    by (simp add: hlc_defs smax_def word_sless_alt)
  have "sorted_wrt ts_Less (hlc_Current hlc_New #
      [Timestamp 1000 0, Timestamp 1100 0, Timestamp 1100 1])"
    by (rule hlc_monotone [OF run]) (simp_all add: hlc_defs)
  moreover have "hlc_Current hlc_New = Timestamp 0 0" by (simp add: hlc_defs)
  ultimately show ?thesis using run by metis
qed



text \<open>
  C19. The code implements the published algorithm. Below the limit of the 32-bit counter, a local
  event and an accepted receive compute the update rules of the package documentation on the
  integers the fields stand for; a receive is rejected exactly when the limit is positive and the
  message's wall time exceeds \<^verbatim>\<open>pt + maxDrift\<close>, and then the clock is unchanged.
\<close>

theorem hlc_refines_published:
  assumes "unat (Logical (hlc_Current c)) < 2 ^ 32 - 1" and "unat (Logical m) < 2 ^ 32 - 1"
  shows "ts_key (snd (hlc_Now pt c)) = hlc_spec_local (sint pt) (ts_key (hlc_Current c)) \<and>
    hlc_Current (fst (hlc_Now pt c)) = snd (hlc_Now pt c) \<and>
    (case hlc_Receive pt m c of
       (c', Inl e) \<Rightarrow> c' = c \<and> 0 <s hlc_maxDrift c \<and> pt + hlc_maxDrift c <s WallTime m
     | (c', Inr s) \<Rightarrow> hlc_Current c' = s \<and>
         ts_key s = hlc_spec_receive (sint pt) (ts_key m) (ts_key (hlc_Current c)) \<and>
         \<not> (0 <s hlc_maxDrift c \<and> pt + hlc_maxDrift c <s WallTime m))"
proof (intro conjI)
  have lim: "unat (Logical (hlc_state c)) < logical_limit" using assms(1) by (simp add: hlc_defs)
  note adv = hlc_advance_spec [OF lim, of pt]
  show "ts_key (snd (hlc_Now pt c)) = hlc_spec_local (sint pt) (ts_key (hlc_Current c))"
    and "hlc_Current (fst (hlc_Now pt c)) = snd (hlc_Now pt c)"
    using adv by (simp_all add: hlc_Now_def hlc_Current_def)
  show "case hlc_Receive pt m c of
       (c', Inl e) \<Rightarrow> c' = c \<and> 0 <s hlc_maxDrift c \<and> pt + hlc_maxDrift c <s WallTime m
     | (c', Inr s) \<Rightarrow> hlc_Current c' = s \<and>
         ts_key s = hlc_spec_receive (sint pt) (ts_key m) (ts_key (hlc_Current c)) \<and>
         \<not> (0 <s hlc_maxDrift c \<and> pt + hlc_maxDrift c <s WallTime m)"
  proof (cases "0 <s hlc_maxDrift c \<and> pt + hlc_maxDrift c <s WallTime m")
    case True
    then show ?thesis by (simp add: hlc_Receive_def)
  next
    case False
    then obtain c' s where r: "hlc_Receive pt m c = (c', Inr s)"
      by (auto simp: hlc_Receive_def Let_def)
    then show ?thesis
      using hlc_Receive_spec [OF r lim] assms(2) False by (simp add: hlc_Current_def)
  qed
qed

theorem hlc_refines_published_witness:
  "ts_key (snd (hlc_Now 990 \<lparr>hlc_state = Timestamp 1000 3, hlc_maxDrift = 0\<rparr>)) = (1000, 4) \<and>
   snd (hlc_Receive 990 (Timestamp 1000 7) \<lparr>hlc_state = Timestamp 1000 3, hlc_maxDrift = 0\<rparr>) =
     Inr (Timestamp 1000 8)"
proof -
  let ?c = "\<lparr>hlc_state = Timestamp 1000 3, hlc_maxDrift = 0\<rparr>"
  have a: "unat (Logical (hlc_Current ?c)) < 2 ^ 32 - 1" and b: "unat (Logical (Timestamp 1000 7)) < 2 ^ 32 - 1"
    by (simp_all add: hlc_defs)
  show ?thesis
    using hlc_refines_published [OF a b, of 990]
    by (simp add: hlc_defs smax_def word_sless_alt ts_key_def hlc_spec_local_def)
qed

text \<open>
  The counter wraps. A message that carries the largest 32-bit counter and is ahead of both the
  clock and the wall (within the drift limit, if there is one) is accepted, and the receive is then
  stamped with counter 0: the receive's timestamp is before the message's.
\<close>

lemma hlc_Receive_wraps:
  assumes "Logical m = - 1" and "WallTime (hlc_Current c) <s WallTime m" and "pt \<le>s WallTime m"
    and "hlc_maxDrift c = 0 \<or> WallTime m \<le>s pt + hlc_maxDrift c"
  shows "snd (hlc_Receive pt m c) = Inr (Timestamp (WallTime m) 0) \<and>
    ts_Less (Timestamp (WallTime m) 0) m"
  using assms
  by (auto simp: hlc_defs smax_def word_sless_alt word_sle_eq ts_Less_def word_gt_0
      sint_inject_iff)

text \<open>
  Timestamps are totally ordered: \<open>Less\<close> is the lexicographic order on wall time (signed) and
  counter, \<open>Equal\<close> is equality, and \<open>Compare\<close> is -1, 0 or 1 accordingly.
\<close>

lemma ts_order:
  "(ts_Less a b \<longleftrightarrow> sint (WallTime a) < sint (WallTime b) \<or>
      sint (WallTime a) = sint (WallTime b) \<and> unat (Logical a) < unat (Logical b)) \<and>
   (ts_Equal a b \<longleftrightarrow> a = b) \<and>
   ts_Compare a b = (if ts_Less a b then - 1 else if a = b then 0 else 1)"
  by (cases a; cases b)
     (auto simp: ts_Less_def ts_Equal_def ts_Compare_def word_sless_alt word_less_nat_alt
        sint_inject_iff word_unat_eq_iff [where 'a = 32])

text \<open>
  The sum of the reading and the limit can overflow: with the largest limit, a clock that should accept
  any message rejects one that is not ahead at all.
\<close>

lemma hlc_drift_overflow:
  "hlc_Receive 1000 (Timestamp 1000 0) (hlc_NewWithMaxDrift (2 ^ 63 - 1)) =
    (hlc_NewWithMaxDrift (2 ^ 63 - 1), Inl (ErrMaxDriftExceeded 1000 1000 (2 ^ 63 - 1)))"
  by (simp add: hlc_defs word_sless_alt)

end
