(* ===== verification/History.thy ===== *)
theory History
  imports Prelude
begin

text \<open>
  What a version promises: it stands for a set of events, its causal history, and the comparison of
  versions is inclusion of histories. Vector snapshots and dotted versions both meet this contract;
  what follows from it is proved once, in the locales below. \<open>dots_of\<close> is the history a map of
  counters compresses: with counter \<open>n\<close> for an actor come its events \<open>1\<close> to \<open>n\<close>.
\<close>

section \<open>The history a map of counters stands for\<close>

definition dots_of :: "counters \<Rightarrow> (string \<times> nat) set" where
  "dots_of m = {(a, n). 1 \<le> n \<and> n \<le> unat (cget m a)}"

lemma in_dots_of [simp]: "(a, n) \<in> dots_of m \<longleftrightarrow> 1 \<le> n \<and> n \<le> unat (cget m a)"
  by (simp add: dots_of_def)

lemma dots_of_subset: "dots_of m \<subseteq> dots_of m' \<longleftrightarrow> (\<forall>a. cget m a \<le> cget m' a)"
proof
  assume sub: "dots_of m \<subseteq> dots_of m'"
  show "\<forall>a. cget m a \<le> cget m' a"
  proof
    fix a
    show "cget m a \<le> cget m' a"
    proof (cases "unat (cget m a) = 0")
      case True
      then show ?thesis by (simp add: word_le_nat_alt)
    next
      case False
      then have "(a, unat (cget m a)) \<in> dots_of m" by simp
      then have "(a, unat (cget m a)) \<in> dots_of m'" using sub by blast
      then show ?thesis by (simp add: word_le_nat_alt)
    qed
  qed
qed (fastforce simp: word_le_nat_alt intro: order_trans)

lemma dots_of_eq: "dots_of m = dots_of m' \<longleftrightarrow> (\<forall>a. cget m a = cget m' a)"
  using dots_of_subset [of m m'] dots_of_subset [of m' m] by (auto intro: antisym)

lemma dots_of_max_loop: "wf_map m \<Longrightarrow> dots_of (max_loop m acc) = dots_of acc \<union> dots_of m"
  by (auto simp: cget_max_loop unat_max)

lemma dots_of_Nil [simp]: "dots_of [] = {}"
  by auto

lemma dots_of_Cons:
  "\<not> mhas m k \<Longrightarrow> dots_of ((k, c) # m) = {k} \<times> {1..unat c} \<union> dots_of m"
  by (auto simp: mget_Cons mget_absent split: if_splits)

text \<open>The size of a history is the sum of the counters.\<close>

lemma card_dots_of:
  "wf_map m \<Longrightarrow> finite (dots_of m) \<and> card (dots_of m) = sum_list (List.map (\<lambda>e. unat (snd e)) m)"
proof (induction m)
  case Nil
  then show ?case by simp
next
  case (Cons e m)
  obtain k c where e: "e = (k, c)" by fastforce
  have new: "\<not> mhas m k" and wf: "wf_map m" using Cons.prems by (auto simp: e wf_map_Cons)
  have "({k} \<times> {1..unat c}) \<inter> dots_of m = {}" using new by (auto simp: mget_absent)
  then show ?case
    using Cons.IH [OF wf] by (simp add: e dots_of_Cons [OF new] card_Un_disjoint card_cartesian_product)
qed

section \<open>Versions ordered by their histories\<close>

locale causal_order =
  fixes ok :: "'v \<Rightarrow> bool" and history :: "'v \<Rightarrow> 'd set" and covers :: "'v \<Rightarrow> 'v \<Rightarrow> bool"
  assumes covers_history: "ok v \<Longrightarrow> ok w \<Longrightarrow> covers v w \<longleftrightarrow> history w \<subseteq> history v"
begin

lemma covers_refl: "ok v \<Longrightarrow> covers v v"
  by (simp add: covers_history)

lemma covers_trans: "ok u \<Longrightarrow> ok v \<Longrightarrow> ok w \<Longrightarrow> covers u v \<Longrightarrow> covers v w \<Longrightarrow> covers u w"
  by (auto simp: covers_history)

lemma covers_antisym: "ok v \<Longrightarrow> ok w \<Longrightarrow> covers v w \<and> covers w v \<longleftrightarrow> history v = history w"
  by (auto simp: covers_history)

text \<open>Of any two versions, exactly one of the four causal relations holds.\<close>

lemma four_cases:
  assumes "ok v" and "ok w"
  shows "of_bool (history v = history w) + of_bool (covers v w \<and> \<not> covers w v) +
    of_bool (covers w v \<and> \<not> covers v w) + of_bool (\<not> covers v w \<and> \<not> covers w v) = (1::nat)"
  using covers_antisym [OF assms] by auto

text \<open>
  A store that drops what a new version strictly covers and refuses a version it already covers keeps
  an antichain, and everything once covered stays covered.
\<close>

lemma keepers_antichain:
  assumes "ok v" and "\<forall>r \<in> set rs. ok r" and "\<forall>r \<in> set rs. \<not> covers r v"
    and "sorted_wrt (\<lambda>r s. \<not> covers r s \<and> \<not> covers s r) rs"
  shows "sorted_wrt (\<lambda>r s. \<not> covers r s \<and> \<not> covers s r) (filter (\<lambda>r. \<not> covers v r) rs @ [v])"
  using assms by (auto simp: sorted_wrt_append sorted_wrt_filter)

lemma keepers_cover:
  assumes "ok v" and "\<forall>r \<in> set rs. ok r" and "ok w" and "r \<in> set rs" and "covers r w"
  shows "\<exists>r \<in> set (filter (\<lambda>r. \<not> covers v r) rs @ [v]). covers r w"
  using assms covers_trans [of v r w] by (cases "covers v r") auto

end

text \<open>A store's merge takes the union of the histories.\<close>

locale causal_join = causal_order +
  fixes merge :: "'v \<Rightarrow> 'v \<Rightarrow> 'v"
  assumes ok_merge: "ok v \<Longrightarrow> ok w \<Longrightarrow> ok (merge v w)"
    and history_merge: "ok v \<Longrightarrow> ok w \<Longrightarrow> history (merge v w) = history v \<union> history w"
begin

lemma merge_upper: "ok v \<Longrightarrow> ok w \<Longrightarrow> covers (merge v w) v \<and> covers (merge v w) w"
  by (simp add: covers_history ok_merge history_merge)

lemma merge_least:
  "ok u \<Longrightarrow> ok v \<Longrightarrow> ok w \<Longrightarrow> covers u (merge v w) \<longleftrightarrow> covers u v \<and> covers u w"
  by (simp add: covers_history ok_merge history_merge)

lemma merge_laws:
  assumes "ok u" and "ok v" and "ok w"
  shows "history (merge v w) = history (merge w v)"
    and "history (merge (merge u v) w) = history (merge u (merge v w))"
    and "history (merge v v) = history v"
    and "covers v w \<Longrightarrow> history (merge v w) = history v"
  using assms by (auto simp: covers_history ok_merge history_merge)

end

end
