(* ===== verification/Vector.thy ===== *)
theory Vector
  imports Network History
begin

text \<open>
  The vector clock of \<^verbatim>\<open>vector/clock.go\<close> and the comparison of \<^verbatim>\<open>vector/compare.go\<close>. A clock
  holds its node's identifier and a \<^verbatim>\<open>map[string]uint64\<close>; a snapshot is a copy of both. Every
  method holds the lock throughout and is one step here (\<open>Goroutines\<close> shows that callers cannot tell).
  Since a snapshot owns a copy of the map and no method writes to a snapshot's map, maps are values
  (\<open>Sharing\<close> shows that this loses no aliasing).
\<close>

section \<open>Clocks and snapshots\<close>

record vclock =
  vc_nodeID :: string
  vc_vec :: counters

record snapshot =
  sn_nodeID :: string
  sn_vec :: counters

definition vector_New :: "string \<Rightarrow> vclock" where
  "vector_New nodeID = \<lparr>vc_nodeID = nodeID, vc_vec = []\<rparr>"

text \<open>\<^verbatim>\<open>maps.Copy\<close> assigns every entry of the argument.\<close>

definition vector_NewFromMap :: "string \<Rightarrow> counters \<Rightarrow> vclock" where
  "vector_NewFromMap nodeID initial = \<lparr>vc_nodeID = nodeID, vc_vec = copy_loop initial []\<rparr>"

definition vector_NodeID :: "vclock \<Rightarrow> string" where
  "vector_NodeID c = vc_nodeID c"

definition snapshotLocked :: "vclock \<Rightarrow> snapshot" where
  "snapshotLocked c = \<lparr>sn_nodeID = vc_nodeID c, sn_vec = copy_loop (vc_vec c) []\<rparr>"

definition vector_Tick :: "vclock \<Rightarrow> vclock \<times> snapshot" where
  "vector_Tick c =
     (let c = c\<lparr>vc_vec := mput (vc_nodeID c) (cget (vc_vec c) (vc_nodeID c) + 1) (vc_vec c)\<rparr>
      in (c, snapshotLocked c))"

definition vector_Send :: "vclock \<Rightarrow> vclock \<times> snapshot" where
  "vector_Send c =
     (let c = c\<lparr>vc_vec := mput (vc_nodeID c) (cget (vc_vec c) (vc_nodeID c) + 1) (vc_vec c)\<rparr>
      in (c, snapshotLocked c))"

definition vector_Receive :: "snapshot \<Rightarrow> vclock \<Rightarrow> vclock \<times> snapshot" where
  "vector_Receive remote c =
     (let c = c\<lparr>vc_vec :=
            range_loop (\<lambda>node rv vec. if rv > cget vec node then mput node rv vec else vec)
              (sn_vec remote) (vc_vec c)\<rparr>;
          c = c\<lparr>vc_vec := mput (vc_nodeID c) (cget (vc_vec c) (vc_nodeID c) + 1) (vc_vec c)\<rparr>
      in (c, snapshotLocked c))"

definition vector_Now :: "vclock \<Rightarrow> snapshot" where
  "vector_Now c = snapshotLocked c"

definition snapshot_NodeID :: "snapshot \<Rightarrow> string" where
  "snapshot_NodeID s = sn_nodeID s"

definition snapshot_Get :: "snapshot \<Rightarrow> string \<Rightarrow> u64" where
  "snapshot_Get s nodeID = cget (sn_vec s) nodeID"

definition snapshot_Nodes :: "snapshot \<Rightarrow> string list" where
  "snapshot_Nodes s = range_loop (\<lambda>k v out. out @ [k]) (sn_vec s) []"

definition snapshot_Equal :: "snapshot \<Rightarrow> snapshot \<Rightarrow> bool" where
  "snapshot_Equal s other =
     (if length (sn_vec s) \<noteq> length (sn_vec other) then False
      else range_all (\<lambda>k v. cget (sn_vec other) k = v) (sn_vec s))"

definition snapshot_Copy :: "snapshot \<Rightarrow> snapshot" where
  "snapshot_Copy s = \<lparr>sn_nodeID = sn_nodeID s, sn_vec = copy_loop (sn_vec s) []\<rparr>"

section \<open>Comparison\<close>

datatype relation = Before | After | Equal | Concurrent

definition relation_String :: "relation \<Rightarrow> string" where
  "relation_String r =
     (case r of Before \<Rightarrow> ''Before'' | After \<Rightarrow> ''After'' | Equal \<Rightarrow> ''Equal''
      | Concurrent \<Rightarrow> ''Concurrent'')"

definition vector_Compare :: "snapshot \<Rightarrow> snapshot \<Rightarrow> relation" where
  "vector_Compare a b =
     (let (aLessOrEq, bLessOrEq) =
            range_loop
              (\<lambda>k av (aLE, bLE).
                 let bv = cget (sn_vec b) k
                 in (if av > bv then False else aLE, if bv > av then False else bLE))
              (sn_vec a) (True, True);
          bLessOrEq =
            range_loop
              (\<lambda>k bv bLE. if mhas (sn_vec a) k then bLE else if bv > 0 then False else bLE)
              (sn_vec b) bLessOrEq
      in if aLessOrEq \<and> bLessOrEq then Equal
         else if aLessOrEq then Before
         else if bLessOrEq then After
         else Concurrent)"

section \<open>Functional behaviour\<close>

definition wf_clock :: "vclock \<Rightarrow> bool" where
  "wf_clock c \<longleftrightarrow> wf_map (vc_vec c)"

definition wf_snapshot :: "snapshot \<Rightarrow> bool" where
  "wf_snapshot s \<longleftrightarrow> wf_map (sn_vec s)"

lemmas vector_wf_defs = wf_clock_def wf_snapshot_def

lemma snapshotLocked_vec [simp]: "wf_clock c \<Longrightarrow> sn_vec (snapshotLocked c) = vc_vec c"
  by (simp add: snapshotLocked_def wf_clock_def)

lemma snapshotLocked_wf: "wf_clock c \<Longrightarrow> wf_snapshot (snapshotLocked c)"
  by (simp add: vector_wf_defs)

lemma vector_New_wf [simp]: "wf_clock (vector_New p)" "cget (vc_vec (vector_New p)) k = 0"
  by (simp_all add: vector_New_def wf_clock_def)

lemma vector_Receive_max_loop:
  "fst (vector_Receive m c) =
     (let v = max_loop (sn_vec m) (vc_vec c)
      in c\<lparr>vc_vec := mput (vc_nodeID c) (cget v (vc_nodeID c) + 1) v\<rparr>)"
  by (simp add: vector_Receive_def max_loop_def Let_def)

lemma vector_Send_Tick: "vector_Send = vector_Tick"
  by (simp add: fun_eq_iff vector_Send_def vector_Tick_def)

lemma vector_Tick_props:
  assumes "vector_Tick c = (c', s)" and "wf_clock c"
  shows "wf_clock c'" and "vc_nodeID c' = vc_nodeID c" and "s = vector_Now c'"
    and "cget (vc_vec c') k = (if k = vc_nodeID c then cget (vc_vec c) k + 1 else cget (vc_vec c) k)"
  using assms by (auto simp: vector_Tick_def Let_def wf_clock_def vector_Now_def)

lemma vector_Receive_props:
  assumes "vector_Receive m c = (c', s)" and "wf_clock c" and "wf_snapshot m"
  shows "wf_clock c'" and "vc_nodeID c' = vc_nodeID c" and "s = vector_Now c'"
    and "cget (vc_vec c') k =
      (if k = vc_nodeID c then max (cget (vc_vec c) k) (cget (sn_vec m) k) + 1
       else max (cget (vc_vec c) k) (cget (sn_vec m) k))"
proof -
  have c': "c' = fst (vector_Receive m c)" using assms(1) by simp
  show "wf_clock c'" and "vc_nodeID c' = vc_nodeID c"
    using assms(2) by (simp_all add: c' vector_Receive_max_loop Let_def wf_clock_def)
  show "s = vector_Now c'"
    using assms(1) by (auto simp: vector_Receive_def Let_def vector_Now_def)
  show "cget (vc_vec c') k =
      (if k = vc_nodeID c then max (cget (vc_vec c) k) (cget (sn_vec m) k) + 1
       else max (cget (vc_vec c) k) (cget (sn_vec m) k))"
    using assms(3)
    by (simp add: c' vector_Receive_max_loop Let_def wf_snapshot_def cget_max_loop)
qed

subsection \<open>Comparison is the order by entries\<close>

text \<open>The abstract view of a vector: a total function from nodes to counters.\<close>

definition vec_le :: "counters \<Rightarrow> counters \<Rightarrow> bool" where
  "vec_le v w \<longleftrightarrow> (\<forall>k. cget v k \<le> cget w k)"

lemma vec_le_antisym: "vec_le v w \<and> vec_le w v \<longleftrightarrow> (\<forall>k. cget v k = cget w k)"
  by (auto simp: vec_le_def intro: antisym)

lemma compare_first_loop:
  "range_loop
     (\<lambda>k av (aLE, bLE). let bv = cget w k
        in (if av > bv then False else aLE, if bv > av then False else bLE)) m (x, y) =
   (x \<and> (\<forall>(k, av) \<in> set m. av \<le> cget w k), y \<and> (\<forall>(k, av) \<in> set m. cget w k \<le> av))"
  by (induction m arbitrary: x y) (auto simp: Let_def)

lemma compare_second_loop:
  fixes m v :: counters
  shows "range_loop (\<lambda>k bv bLE. if mhas v k then bLE else if bv > 0 then False else bLE) m y =
   (y \<and> (\<forall>(k, bv) \<in> set m. \<not> mhas v k \<longrightarrow> bv = 0))"
proof (induction m arbitrary: y)
  case Nil
  then show ?case by simp
next
  case (Cons e m)
  obtain k b where e: "e = (k, b)" by fastforce
  show ?case
    by (cases "mhas v k"; cases "b = 0") (simp_all add: e Cons.IH word_gt_0)
qed

lemma vec_le_entries:
  assumes "wf_map v"
  shows "vec_le v w \<longleftrightarrow> (\<forall>(k, a) \<in> set v. a \<le> cget w k)"
proof
  assume le: "vec_le v w"
  show "\<forall>(k, a) \<in> set v. a \<le> cget w k"
  proof (clarify)
    fix k a assume "(k, a) \<in> set v"
    then have "cget v k = a" using assms by (simp add: mget_in)
    then show "a \<le> cget w k" using le by (auto simp: vec_le_def)
  qed
next
  assume all: "\<forall>(k, a) \<in> set v. a \<le> cget w k"
  show "vec_le v w" unfolding vec_le_def
  proof
    fix k
    show "cget v k \<le> cget w k"
      using all in_mget [of v k 0] mget_absent [of v k 0] by (cases "mhas v k") auto
  qed
qed

lemma vec_ge_entries:
  assumes "wf_map v" and "wf_map w"
  shows "vec_le w v \<longleftrightarrow>
    (\<forall>(k, a) \<in> set v. cget w k \<le> a) \<and> (\<forall>(k, b) \<in> set w. \<not> mhas v k \<longrightarrow> b = 0)"
    (is "_ \<longleftrightarrow> ?L \<and> ?R")
proof
  assume le: "vec_le w v"
  have ?L
  proof (clarify)
    fix k a assume "(k, a) \<in> set v"
    then have "cget v k = a" using assms(1) by (simp add: mget_in)
    then show "cget w k \<le> a" using le by (auto simp: vec_le_def)
  qed
  moreover have ?R
  proof (clarify)
    fix k b assume "(k, b) \<in> set w" and "\<not> mhas v k"
    then have "cget w k = b" and "cget v k = 0"
      using assms(2) by (simp_all add: mget_in mget_absent)
    then show "b = 0" using le by (auto simp: vec_le_def dest: spec [of _ k])
  qed
  ultimately show "?L \<and> ?R" ..
next
  assume LR: "?L \<and> ?R"
  show "vec_le w v" unfolding vec_le_def
  proof
    fix k
    show "cget w k \<le> cget v k"
    proof (cases "mhas v k")
      case True
      then show ?thesis using LR in_mget [of v k 0] by auto
    next
      case False
      then show ?thesis
        using LR in_mget [of w k 0] mget_absent [of w k 0] by (cases "mhas w k") auto
    qed
  qed
qed

lemma vector_Compare_vec_le:
  assumes "wf_snapshot a" and "wf_snapshot b"
  shows "vector_Compare a b =
    (if vec_le (sn_vec a) (sn_vec b) \<and> vec_le (sn_vec b) (sn_vec a) then Equal
     else if vec_le (sn_vec a) (sn_vec b) then Before
     else if vec_le (sn_vec b) (sn_vec a) then After
     else Concurrent)"
  using assms vec_le_entries [of "sn_vec a" "sn_vec b"] vec_ge_entries [of "sn_vec a" "sn_vec b"]
  by (simp add: vector_Compare_def compare_first_loop compare_second_loop wf_snapshot_def)

lemma Compare_Before:
  assumes "wf_snapshot a" and "wf_snapshot b"
  shows "vector_Compare a b = Before \<longleftrightarrow>
    (\<forall>k. unat (cget (sn_vec a) k) \<le> unat (cget (sn_vec b) k)) \<and>
    (\<exists>k. unat (cget (sn_vec a) k) < unat (cget (sn_vec b) k))"
proof -
  have "vector_Compare a b = Before \<longleftrightarrow>
      vec_le (sn_vec a) (sn_vec b) \<and> \<not> vec_le (sn_vec b) (sn_vec a)"
    by (simp add: vector_Compare_vec_le assms)
  then show ?thesis by (simp add: vec_le_def word_le_nat_alt not_le)
qed

section \<open>Systems of vector clocks\<close>

text \<open>Every process runs a fresh clock under its own name.\<close>

definition vector_recv :: "unit \<Rightarrow> snapshot \<Rightarrow> vclock \<Rightarrow> vclock \<times> snapshot option" where
  "vector_recv x m c = (case vector_Receive m c of (c, s) \<Rightarrow> (c, Some s))"

definition vector_net :: "unit net_op list \<Rightarrow> (vclock, snapshot, unit) net" where
  "vector_net ops =
     net_run vector_New (\<lambda>_. vector_Tick) (\<lambda>_. vector_Send) vector_recv ops"

abbreviation counter_limit :: nat where
  "counter_limit \<equiv> 2 ^ 64 - 1"

interpretation vector_exact: entry_clock vector_New "\<lambda>_::unit. vector_Tick" "\<lambda>_. vector_Send"
  vector_recv vector_Now "\<lambda>s t. vector_Compare s t = Before" counter_limit
  "\<lambda>p c. wf_clock c \<and> vc_nodeID c = p" wf_snapshot "\<lambda>s q. unat (cget (sn_vec s) q)"
proof (unfold_locales, goal_cases)
  case (1 p q)
  then show ?case by (simp add: vector_Now_def) (simp add: vector_New_def)
next
  case (2 p c)
  then show ?case by (simp add: vector_Now_def snapshotLocked_wf)
next
  case (3 p c x c' s q)
  then show ?case
    using vector_Tick_props [of c c' s] by (auto simp: vector_Now_def go_arith)
next
  case (4 p c x c' s q)
  then show ?case
    using vector_Tick_props [of c c' s] by (auto simp: vector_Now_def go_arith vector_Send_Tick)
next
  case (5 p c m x c' r q)
  then obtain s where "vector_Receive m c = (c', s)" and "r = Some s"
    by (auto simp: vector_recv_def split: prod.splits)
  with 5 show ?case
    using vector_Receive_props [of m c c' s] by (auto simp: vector_Now_def go_arith)
next
  case (6 x m c c' r)
  then show ?case by (auto simp: vector_recv_def split: prod.splits)
next
  case (7 s t)
  then show ?case by (rule Compare_Before)
qed

lemma vector_Compare_flip:
  assumes "wf_snapshot a" and "wf_snapshot b"
  shows "vector_Compare a b = After \<longleftrightarrow> vector_Compare b a = Before"
    and "vector_Compare a b = Equal \<longleftrightarrow> (\<forall>k. cget (sn_vec a) k = cget (sn_vec b) k)"
    and "vector_Compare a b = Concurrent \<longleftrightarrow>
      vector_Compare a b \<noteq> Before \<and> vector_Compare b a \<noteq> Before \<and> vector_Compare a b \<noteq> Equal"
proof -
  show "vector_Compare a b = After \<longleftrightarrow> vector_Compare b a = Before"
    and "vector_Compare a b = Concurrent \<longleftrightarrow>
      vector_Compare a b \<noteq> Before \<and> vector_Compare b a \<noteq> Before \<and> vector_Compare a b \<noteq> Equal"
    by (simp_all add: vector_Compare_vec_le assms)
  show "vector_Compare a b = Equal \<longleftrightarrow> (\<forall>k. cget (sn_vec a) k = cget (sn_vec b) k)"
    by (simp add: vector_Compare_vec_le assms flip: vec_le_antisym)
qed

text \<open>Snapshots are ordered by the histories they stand for.\<close>

definition vector_covers :: "snapshot \<Rightarrow> snapshot \<Rightarrow> bool" where
  "vector_covers a b \<longleftrightarrow> vector_Compare b a = Before \<or> vector_Compare b a = Equal"

interpretation vector_order: causal_order wf_snapshot "\<lambda>s. dots_of (sn_vec s)" vector_covers
  by unfold_locales
     (auto simp: vector_covers_def vector_Compare_vec_le dots_of_subset vec_le_def)

lemma vector_Compare_covers:
  assumes "wf_snapshot a" and "wf_snapshot b"
  shows "vector_Compare a b = Concurrent \<longleftrightarrow> \<not> vector_covers a b \<and> \<not> vector_covers b a"
    and "vector_Compare a b = Before \<longleftrightarrow> vector_covers b a \<and> \<not> vector_covers a b"
  using assms by (simp_all add: vector_covers_def vector_Compare_vec_le)

lemma vector_net_run: "vector_net ops = vector_exact.run ops"
  by (simp add: vector_net_def)

section \<open>Properties\<close>

text \<open>
  C1. Vector clocks characterise causality. In every execution of at most \<open>2 ^ 64 - 1\<close> steps by any
  set of processes with fresh clocks under different names, \<^verbatim>\<open>Compare\<close> of the snapshots of two
  different events says exactly how the events are related: \<open>Before\<close> if and only if the first
  happened before the second, \<open>After\<close> if and only if the second happened before the first,
  \<open>Concurrent\<close> if and only if neither did. It never says \<open>Equal\<close>.
\<close>

theorem vector_strong_clock_condition:
  assumes "length ops \<le> 2 ^ 64 - 1" and "i \<noteq> j"
    and "stamp_at (trace (vector_net ops)) i = Some s"
    and "stamp_at (trace (vector_net ops)) j = Some u"
  shows "(vector_Compare s u = Before \<longleftrightarrow> happened_before (trace (vector_net ops)) i j) \<and>
    (vector_Compare s u = After \<longleftrightarrow> happened_before (trace (vector_net ops)) j i) \<and>
    (vector_Compare s u = Concurrent \<longleftrightarrow> concurrent_events (trace (vector_net ops)) i j) \<and>
    vector_Compare s u \<noteq> Equal"
proof -
  note lim = assms(1) and st = assms(3,4) [unfolded vector_net_run]
  have wf: "wf_snapshot s" "wf_snapshot u" using vector_exact.run_ok [OF lim] st by blast+
  have "\<exists>q. unat (cget (sn_vec s) q) \<noteq> unat (cget (sn_vec u) q)"
    by (rule vector_exact.different_events_stamps [OF lim assms(2) st])
  then have ne: "vector_Compare s u \<noteq> Equal" using vector_Compare_flip(2) [OF wf] by auto
  have b: "vector_Compare s u = Before \<longleftrightarrow> happened_before (trace (vector_net ops)) i j"
    and a: "vector_Compare u s = Before \<longleftrightarrow> happened_before (trace (vector_net ops)) j i"
    using vector_exact.strong_clock_condition [OF lim] st by (simp_all add: vector_net_run)
  show ?thesis
    using ne a b assms(2) vector_Compare_flip(1,3) [OF wf] by (auto simp: concurrent_events_def)
qed

definition vector_demo :: "unit net_op list" where
  "vector_demo = [NTick ''c1'' (), NSend ''c1'' (), NTick ''c2'' (), NRecv ''c2'' 1 ()]"

lemma vector_demo_trace:
  "trace (vector_net vector_demo) =
     [(NTick ''c1'' (), Some \<lparr>sn_nodeID = ''c1'', sn_vec = [(''c1'', 1)]\<rparr>),
      (NSend ''c1'' (), Some \<lparr>sn_nodeID = ''c1'', sn_vec = [(''c1'', 2)]\<rparr>),
      (NTick ''c2'' (), Some \<lparr>sn_nodeID = ''c2'', sn_vec = [(''c2'', 1)]\<rparr>),
      (NRecv ''c2'' 1 (), Some \<lparr>sn_nodeID = ''c2'', sn_vec = [(''c2'', 2), (''c1'', 2)]\<rparr>)]"
  by (simp add: vector_net_def net_run_def vector_demo_def emit_def vector_recv_def sent_def
      vector_New_def vector_Tick_def vector_Send_def vector_Receive_def snapshotLocked_def
      copy_loop_def mput_def mget_def Let_def)

theorem vector_strong_clock_condition_witness:
  "vector_Compare \<lparr>sn_nodeID = ''c1'', sn_vec = [(''c1'', 2)]\<rparr>
     \<lparr>sn_nodeID = ''c2'', sn_vec = [(''c2'', 1)]\<rparr> = Concurrent \<and>
   concurrent_events (trace (vector_net vector_demo)) 1 2"
proof -
  let ?s = "\<lparr>sn_nodeID = ''c1'', sn_vec = [(''c1'', 2)]\<rparr>"
  let ?u = "\<lparr>sn_nodeID = ''c2'', sn_vec = [(''c2'', 1)]\<rparr>"
  have s: "stamp_at (trace (vector_net vector_demo)) 1 = Some ?s"
    and u: "stamp_at (trace (vector_net vector_demo)) 2 = Some ?u"
    by (simp_all add: vector_demo_trace stamp_at_def)
  have l: "length vector_demo \<le> 2 ^ 64 - 1" by (simp add: vector_demo_def)
  have "vector_Compare ?s ?u = Concurrent"
    by (simp add: vector_Compare_def mget_def mhas_def Let_def)
  then show ?thesis using vector_strong_clock_condition [OF l _ s u] by simp
qed

text \<open>
  \<^verbatim>\<open>Compare\<close> is the order by entries, an absent entry counting as 0: it answers \<open>Equal\<close>,
  \<open>Before\<close>, \<open>After\<close> or \<open>Concurrent\<close> as the first vector is, entry by entry, equal to, below, above
  or incomparable with the second. The order in which the maps are visited plays no part.
\<close>

lemma vector_Compare_correct:
  assumes "wf_snapshot a" and "wf_snapshot b"
  shows "vector_Compare a b =
    (if \<forall>k. snapshot_Get a k = snapshot_Get b k then Equal
     else if \<forall>k. snapshot_Get a k \<le> snapshot_Get b k then Before
     else if \<forall>k. snapshot_Get b k \<le> snapshot_Get a k then After
     else Concurrent)"
  unfolding vector_Compare_vec_le [OF assms] vec_le_antisym
  by (simp add: vec_le_def snapshot_Get_def)

text \<open>
  \<^verbatim>\<open>Receive\<close> takes the element-wise maximum and then counts the receive itself: the clock's own
  entry becomes the maximum plus one (modulo \<open>2 ^ 64\<close>), every other entry the maximum. The node
  keeps its name, the map stays well-formed, and the returned snapshot is the new state.
\<close>

lemma vector_Receive_correct:
  assumes "wf_clock c" and "wf_snapshot m"
  shows "wf_clock (fst (vector_Receive m c)) \<and>
    vector_NodeID (fst (vector_Receive m c)) = vector_NodeID c \<and>
    snd (vector_Receive m c) = vector_Now (fst (vector_Receive m c)) \<and>
    (\<forall>k. snapshot_Get (snd (vector_Receive m c)) k =
       max (snapshot_Get (vector_Now c) k) (snapshot_Get m k) + of_bool (k = vector_NodeID c))"
proof -
  obtain c' s where r: "vector_Receive m c = (c', s)" by fastforce
  note p = vector_Receive_props [OF r assms]
  have "snapshot_Get s k = max (snapshot_Get (vector_Now c) k) (snapshot_Get m k) +
      of_bool (k = vector_NodeID c)" for k
    using p(1,3) p(4) [of k] assms(1)
    by (simp add: snapshot_Get_def vector_Now_def vector_NodeID_def)
  then show ?thesis using p(1-3) r by (simp add: vector_NodeID_def)
qed

text \<open>
  The order in which Go visits a map does not matter to \<^verbatim>\<open>Receive\<close>: whatever orders the two
  maps are laid out in, the resulting clock and snapshot stand for the same finite map.
\<close>

lemma vector_Receive_order:
  assumes "wf_clock c" and "wf_clock c'" and "wf_snapshot m" and "wf_snapshot m'"
    and "vc_nodeID c = vc_nodeID c'"
    and "same_map (vc_vec c) (vc_vec c')" and "same_map (sn_vec m) (sn_vec m')"
  shows "same_map (vc_vec (fst (vector_Receive m c))) (vc_vec (fst (vector_Receive m' c'))) \<and>
    same_map (sn_vec (snd (vector_Receive m c))) (sn_vec (snd (vector_Receive m' c')))"
proof -
  have sm: "same_map (max_loop (sn_vec m) (vc_vec c)) (max_loop (sn_vec m') (vc_vec c'))"
    using assms by (intro same_map_max_loop) (simp_all add: vector_wf_defs)
  have clk: "same_map (vc_vec (fst (vector_Receive m c))) (vc_vec (fst (vector_Receive m' c')))"
    using sm assms(5)
    by (simp add: vector_Receive_max_loop Let_def same_map_mget [OF sm] same_map_mput)
  have snap: "sn_vec (snd (vector_Receive n d)) = vc_vec (fst (vector_Receive n d))"
    if "wf_clock d" and "wf_snapshot n" for n d
    using vector_Receive_props [of n d "fst (vector_Receive n d)" "snd (vector_Receive n d)"] that
    by (simp add: vector_Now_def)
  show ?thesis using clk snap assms(1-4) by simp
qed

text \<open>The clock's map never holds a zero entry, until a counter wraps.\<close>

lemma vector_no_zero:
  assumes "wf_clock c" and "no_zero (vc_vec c)"
  shows "cget (vc_vec c) (vc_nodeID c) \<noteq> - 1 \<Longrightarrow> no_zero (vc_vec (fst (vector_Tick c)))"
    and "cget (vc_vec (fst (vector_Receive m c))) (vc_nodeID c) \<noteq> 0 \<Longrightarrow>
      no_zero (vc_vec (fst (vector_Receive m c)))"
  using assms
  by (auto simp: vector_Tick_def vector_Receive_max_loop Let_def wf_clock_def eq_neg_iff_add_eq_0
      intro!: no_zero_mput no_zero_max_loop)

text \<open>
  \<^verbatim>\<open>Snapshot.Equal\<close> agrees with \<^verbatim>\<open>Compare\<close> on snapshots without zero entries, the only ones
  that clocks made by \<^verbatim>\<open>New\<close> produce (before a counter wraps).
\<close>

lemma snapshot_Equal_correct:
  assumes "wf_snapshot a" and "no_zero (sn_vec a)" and "wf_snapshot b" and "no_zero (sn_vec b)"
  shows "snapshot_Equal a b \<longleftrightarrow> vector_Compare a b = Equal"
proof -
  have "snapshot_Equal a b \<longleftrightarrow> length (sn_vec a) = length (sn_vec b) \<and>
      range_all (\<lambda>k v. cget (sn_vec b) k = v) (sn_vec a)"
    by (simp add: snapshot_Equal_def)
  then show ?thesis
    using assms length_all_entries [of "sn_vec a" "sn_vec b"]
      vector_Compare_flip(2) [OF assms(1,3)] by (simp add: wf_snapshot_def)
qed

text \<open>
  Zero entries break \<^verbatim>\<open>Snapshot.Equal\<close>. For the two snapshots taken of clocks restored with
  \<^verbatim>\<open>NewFromMap\<close> from \<^verbatim>\<open>{a: 0}\<close> and \<^verbatim>\<open>{b: 5}\<close>, it answers true one way round and false the other,
  while \<^verbatim>\<open>Compare\<close> says \<open>Before\<close>; and \<^verbatim>\<open>Nodes\<close> lists a node whose counter is 0.
\<close>

lemma snapshot_Equal_zero_entries:
  "let x = vector_Now (vector_NewFromMap ''n'' [(''a'', 0)]);
       y = vector_Now (vector_NewFromMap ''n'' [(''b'', 5)])
   in snapshot_Equal x y \<and> \<not> snapshot_Equal y x \<and> vector_Compare x y = Before \<and>
      snapshot_Nodes x = [''a''] \<and> snapshot_Get x ''a'' = 0"
  by (simp add: vector_Now_def vector_NewFromMap_def snapshotLocked_def copy_loop_def mput_def
      snapshot_Equal_def vector_Compare_def snapshot_Nodes_def snapshot_Get_def mget_def mhas_def Let_def)

text \<open>In general \<^verbatim>\<open>Nodes\<close> lists the keys of the map, zero entries included.\<close>

lemma snapshot_Nodes_keys: "snapshot_Nodes s = keys (sn_vec s)"
proof -
  have "range_loop (\<lambda>k v out. out @ [k]) m out = out @ keys m" for m :: counters and out
    by (induction m arbitrary: out) (auto simp: keys_def)
  then show ?thesis by (simp add: snapshot_Nodes_def)
qed

text \<open>A snapshot restored through \<^verbatim>\<open>NewFromMap\<close> is the snapshot again, and \<^verbatim>\<open>Copy\<close> the identity.\<close>

lemma vector_restore: "wf_snapshot s \<Longrightarrow> vector_Now (vector_NewFromMap (sn_nodeID s) (sn_vec s)) = s"
  by (simp add: vector_Now_def vector_NewFromMap_def snapshotLocked_def wf_snapshot_def)

lemma snapshot_Copy_same: "wf_snapshot s \<Longrightarrow> snapshot_Copy s = s"
  by (simp add: snapshot_Copy_def wf_snapshot_def)

end
