(* ===== verification/Stamps.thy ===== *)
theory Stamps
  imports Ordering Lamport Hlc Vector
begin

text \<open>
  The adapters of \<^verbatim>\<open>ordering/happens_before.go\<close>. The interface \<^verbatim>\<open>Comparable\<close> has three implementations,
  the constructors of \<open>stamp\<close>; the type assertion \<^verbatim>\<open>other.(T)\<close> is a case on the constructor. With
  wf maps inside vector stamps they meet the contract that the sort and the frontier functions need.
\<close>

section \<open>The adapters\<close>

datatype stamp = LamportStamp u64 | HLCStamp timestamp | VectorStamp snapshot

definition NewVectorStamp :: "snapshot \<Rightarrow> stamp" where
  "NewVectorStamp snap = VectorStamp snap"

fun stamp_Snapshot :: "stamp \<Rightarrow> snapshot option" where
  "stamp_Snapshot (VectorStamp snap) = Some snap"
| "stamp_Snapshot _ = None"

text \<open>One definition per method; \<^verbatim>\<open>ok\<close> of the type assertion is false in the other cases.\<close>

definition LamportStamp_HappensBefore :: "u64 \<Rightarrow> stamp \<Rightarrow> bool" where
  "LamportStamp_HappensBefore s other = (case other of LamportStamp u \<Rightarrow> s < u | _ \<Rightarrow> False)"

definition LamportStamp_Concurrent :: "u64 \<Rightarrow> stamp \<Rightarrow> bool" where
  "LamportStamp_Concurrent s other = (case other of LamportStamp u \<Rightarrow> s = u | _ \<Rightarrow> False)"

definition HLCStamp_HappensBefore :: "timestamp \<Rightarrow> stamp \<Rightarrow> bool" where
  "HLCStamp_HappensBefore h other = (case other of HLCStamp u \<Rightarrow> ts_Less h u | _ \<Rightarrow> False)"

definition HLCStamp_Concurrent :: "timestamp \<Rightarrow> stamp \<Rightarrow> bool" where
  "HLCStamp_Concurrent h other = (case other of HLCStamp u \<Rightarrow> ts_Equal h u | _ \<Rightarrow> False)"

definition VectorStamp_HappensBefore :: "snapshot \<Rightarrow> stamp \<Rightarrow> bool" where
  "VectorStamp_HappensBefore v other =
     (case other of VectorStamp u \<Rightarrow> vector_Compare v u = Before | _ \<Rightarrow> False)"

definition VectorStamp_Concurrent :: "snapshot \<Rightarrow> stamp \<Rightarrow> bool" where
  "VectorStamp_Concurrent v other =
     (case other of VectorStamp u \<Rightarrow> vector_Compare v u = Concurrent | _ \<Rightarrow> False)"

text \<open>A call through the interface goes to the method of the receiver's type.\<close>

fun HappensBefore :: "stamp \<Rightarrow> stamp \<Rightarrow> bool" where
  "HappensBefore (LamportStamp s) other = LamportStamp_HappensBefore s other"
| "HappensBefore (HLCStamp h) other = HLCStamp_HappensBefore h other"
| "HappensBefore (VectorStamp v) other = VectorStamp_HappensBefore v other"

fun stamp_Concurrent :: "stamp \<Rightarrow> stamp \<Rightarrow> bool" where
  "stamp_Concurrent (LamportStamp s) other = LamportStamp_Concurrent s other"
| "stamp_Concurrent (HLCStamp h) other = HLCStamp_Concurrent h other"
| "stamp_Concurrent (VectorStamp v) other = VectorStamp_Concurrent v other"

lemmas stamp_methods [simp] =
  LamportStamp_HappensBefore_def LamportStamp_Concurrent_def HLCStamp_HappensBefore_def
  HLCStamp_Concurrent_def VectorStamp_HappensBefore_def VectorStamp_Concurrent_def

fun stamp_ok :: "stamp \<Rightarrow> bool" where
  "stamp_ok (VectorStamp v) = wf_snapshot v"
| "stamp_ok _ = True"

lemma HappensBefore_irrefl: "stamp_ok s \<Longrightarrow> \<not> HappensBefore s s"
  by (cases s) (simp_all add: vector_Compare_covers(2))

lemma HappensBefore_trans:
  "stamp_ok s \<Longrightarrow> stamp_ok t \<Longrightarrow> stamp_ok u \<Longrightarrow> HappensBefore s t \<Longrightarrow> HappensBefore t u \<Longrightarrow>
    HappensBefore s u"
  by (cases s; cases t; cases u)
     (auto dest: ts_Less_trans simp: vector_Compare_covers(2) intro: vector_order.covers_trans)

interpretation stamps: comparable stamp_ok HappensBefore
  by unfold_locales (fact HappensBefore_irrefl HappensBefore_trans)+

interpretation stamps_converse: comparable stamp_ok "\<lambda>s t. HappensBefore t s"
  by (rule stamps.converse_comparable)

text \<open>Two stamps of the same kind; two vector stamps with equal vectors.\<close>

fun same_kind :: "stamp \<Rightarrow> stamp \<Rightarrow> bool" where
  "same_kind (LamportStamp _) (LamportStamp _) = True"
| "same_kind (HLCStamp _) (HLCStamp _) = True"
| "same_kind (VectorStamp _) (VectorStamp _) = True"
| "same_kind _ _ = False"

fun equal_vectors :: "stamp \<Rightarrow> stamp \<Rightarrow> bool" where
  "equal_vectors (VectorStamp v) (VectorStamp u) = (vector_Compare v u = Equal)"
| "equal_vectors _ _ = False"

lemma relation_count:
  assumes "wf_snapshot v" and "wf_snapshot u"
  shows "of_bool (vector_Compare v u = Before) + of_bool (vector_Compare u v = Before) +
    of_bool (vector_Compare v u = Concurrent) = (of_bool (vector_Compare v u \<noteq> Equal) :: nat)"
  using vector_Compare_flip(1) [OF assms] by (cases "vector_Compare v u") auto

section \<open>Properties\<close>

text \<open>
  The adapters define a strict partial order. Within one kind of stamp, exactly one of
  "happens before", "happens after" and "concurrent" holds, except for two vector stamps with equal
  vectors, for which none holds; between different kinds none ever holds. \<^verbatim>\<open>HappensBefore\<close> is irreflexive
  and transitive, also across mixed collections, and \<^verbatim>\<open>Concurrent\<close> is symmetric.
\<close>

lemma stamp_relations:
  assumes "stamp_ok s" and "stamp_ok t" and "stamp_ok u"
  shows "of_bool (HappensBefore s t) + of_bool (HappensBefore t s) + of_bool (stamp_Concurrent s t) =
      (of_bool (same_kind s t \<and> \<not> equal_vectors s t) :: nat) \<and>
    \<not> HappensBefore s s \<and>
    (HappensBefore s t \<and> HappensBefore t u \<longrightarrow> HappensBefore s u) \<and>
    stamp_Concurrent s t = stamp_Concurrent t s"
proof -
  have "of_bool (HappensBefore s t) + of_bool (HappensBefore t s) + of_bool (stamp_Concurrent s t) =
      (of_bool (same_kind s t \<and> \<not> equal_vectors s t) :: nat)"
  proof (cases "\<exists>v w. s = VectorStamp v \<and> t = VectorStamp w")
    case True
    then obtain v w where "s = VectorStamp v" "t = VectorStamp w" by blast
    then show ?thesis using relation_count [of v w] assms(1,2) by simp
  next
    case False
    have "of_bool (a < b) + of_bool (b < a) + of_bool (a = b) = (1 :: nat)" for a b :: u64
      by (cases a b rule: linorder_cases) auto
    moreover have "of_bool (ts_Less a b) + of_bool (ts_Less b a) + of_bool (a = b) = (1 :: nat)" for a b
      using ts_Less_total [of a b] ts_Less_trans [of a b a] by auto
    ultimately show ?thesis using False by (cases s; cases t) (simp_all add: ts_Equal_iff)
  qed
  moreover have "stamp_Concurrent s t = stamp_Concurrent t s"
    using assms by (cases s; cases t) (auto simp: ts_Equal_iff vector_Compare_covers(1))
  ultimately show ?thesis
    using assms HappensBefore_irrefl HappensBefore_trans by blast
qed

text \<open>
  Sorting stamped events. For events with any mix of well-formed stamps, \<^verbatim>\<open>TopologicalSort\<close> returns a
  permutation of the input in which no event comes after one that it happened before.
\<close>

lemma TopologicalSort_stamps:
  assumes "\<forall>e \<in> set events. stamp_ok (ev_Stamp e)"
  shows "mset (TopologicalSort HappensBefore events) = mset events \<and>
    sorted_wrt (\<lambda>e f. \<not> HappensBefore (ev_Stamp f) (ev_Stamp e)) (TopologicalSort HappensBefore events)"
  by (rule stamps.sort_output [OF assms])

definition stamp_demo :: "(stamp, unit) event list" where
  "stamp_demo =
     [\<lparr>ev_ID = ''a'', ev_Stamp = LamportStamp 7, ev_Data = ()\<rparr>,
      \<lparr>ev_ID = ''b'', ev_Stamp = HLCStamp (Timestamp 1 0), ev_Data = ()\<rparr>,
      \<lparr>ev_ID = ''c'', ev_Stamp = LamportStamp 2, ev_Data = ()\<rparr>]"

text \<open>
  C27. The frontiers. \<^verbatim>\<open>MaximalElements\<close> returns, in input order, the events that happened before no
  other, \<^verbatim>\<open>MinimalElements\<close> those that no other happened before; and every event is, or is before (after),
  an event of the frontier, which is therefore empty only for an empty input.
\<close>

theorem frontier_correct:
  assumes "\<forall>e \<in> set events. stamp_ok (ev_Stamp e)"
  shows "MaximalElements HappensBefore events =
      filter (\<lambda>e. \<forall>f \<in> set events. \<not> HappensBefore (ev_Stamp e) (ev_Stamp f)) events \<and>
    MinimalElements HappensBefore events =
      filter (\<lambda>e. \<forall>f \<in> set events. \<not> HappensBefore (ev_Stamp f) (ev_Stamp e)) events \<and>
    (\<forall>e \<in> set events. \<exists>m \<in> set (MaximalElements HappensBefore events).
      m = e \<or> HappensBefore (ev_Stamp e) (ev_Stamp m)) \<and>
    (\<forall>e \<in> set events. \<exists>m \<in> set (MinimalElements HappensBefore events).
      m = e \<or> HappensBefore (ev_Stamp m) (ev_Stamp e))"
  using stamps.MaximalElements_filter_events [OF assms] stamps.frontier_above [OF assms]
    stamps_converse.MaximalElements_filter_events [OF assms] stamps_converse.frontier_above [OF assms]
  by (simp add: MinimalElements_dual)

theorem frontier_correct_witness:
  "List.map ev_ID (MaximalElements HappensBefore stamp_demo) = [''a'', ''b''] \<and>
   List.map ev_ID (MinimalElements HappensBefore stamp_demo) = [''b'', ''c'']"
  using frontier_correct [of stamp_demo] by (simp add: stamp_demo_def)

end
