(* ===== verification/Bytes.thy ===== *)
theory Bytes
  imports Prelude
begin

text \<open>
  What the library uses of Go's \<^verbatim>\<open>encoding/binary\<close> and of byte slices: big-endian integers, the
  conversion between a string and its bytes, slicing, and writing into a preallocated buffer.
  \<open>None\<close> is the panic of a slice operation out of range.
\<close>

unbundle bit_operations_syntax

section \<open>Big-endian integers\<close>

text \<open>\<^verbatim>\<open>binary.BigEndian.PutUint16/32/64\<close> write the \<open>n\<close> bytes \<open>be_put n v\<close>.\<close>

definition be_put :: "nat \<Rightarrow> 'a::len word \<Rightarrow> byte list" where
  "be_put n v = List.map (\<lambda>i. ucast (drop_bit (8 * (n - 1 - i)) v)) [0..<n]"

text \<open>\<^verbatim>\<open>binary.BigEndian.Uint16/32/64\<close> read them.\<close>

definition be_get :: "byte list \<Rightarrow> 'a::len word" where
  "be_get bs = foldl (\<lambda>acc b. push_bit 8 acc OR ucast b) 0 bs"

lemma length_be_put [simp]: "length (be_put n v) = n"
  by (simp add: be_put_def)

lemma be_get_snoc: "be_get (bs @ [b]) = push_bit 8 (be_get bs) OR ucast b"
  by (simp add: be_get_def)

lemma bit_be_put:
  assumes "i < n" and "j < 8"
  shows "bit (be_put n v ! i) j = bit v (8 * (n - 1 - i) + j)"
  using assms by (simp add: be_put_def bit_simps)

lemma bit_be_get:
  fixes bs :: "byte list"
  assumes "8 * length bs \<le> LENGTH('a::len)"
  shows "bit (be_get bs :: 'a word) k \<longleftrightarrow>
    k < 8 * length bs \<and> bit (bs ! (length bs - 1 - k div 8)) (k mod 8)"
  using assms
proof (induction bs arbitrary: k rule: rev_induct)
  case Nil
  then show ?case by (simp add: be_get_def)
next
  case (snoc b bs)
  show ?case
  proof (cases "k < 8")
    case True
    then show ?thesis
      using snoc.prems by (auto simp: be_get_snoc bit_simps nth_append)
  next
    case False
    then obtain m where k: "k = m + 8" using le_Suc_ex [of 8 k] by (auto simp: not_less)
    have div_k: "(m + 8) div 8 = Suc (m div 8)" by simp
    have "bit (be_get (bs @ [b]) :: 'a word) k \<longleftrightarrow> k < LENGTH('a) \<and> bit (be_get bs :: 'a word) m"
      using snoc.prems by (auto simp: be_get_snoc bit_simps k dest: bit_imp_le_length)
    also have "\<dots> \<longleftrightarrow> k < 8 * length (bs @ [b]) \<and>
        bit ((bs @ [b]) ! (length (bs @ [b]) - 1 - k div 8)) (k mod 8)"
      using snoc.IH [of m] snoc.prems by (auto simp: k div_k nth_append)
    finally show ?thesis .
  qed
qed

lemma be_get_put:
  fixes v :: "'a::len word"
  assumes "LENGTH('a) = 8 * n"
  shows "be_get (be_put n v) = v"
proof (rule bit_word_eqI)
  fix k assume k: "k < LENGTH('a)"
  then have i: "n - 1 - k div 8 < n" using assms by auto
  have "n - 1 - (n - 1 - k div 8) = k div 8" using k assms by auto
  then show "bit (be_get (be_put n v) :: 'a word) k = bit v k"
    using k assms bit_be_put [OF i, of "k mod 8" v] by (simp add: bit_be_get)
qed

lemma be_put_get:
  fixes bs :: "byte list"
  assumes "length bs = n" and "8 * n \<le> LENGTH('a::len)"
  shows "be_put n (be_get bs :: 'a word) = bs"
proof (rule nth_equalityI)
  show "length (be_put n (be_get bs :: 'a word)) = length bs" using assms by simp
next
  fix i assume "i < length (be_put n (be_get bs :: 'a word))"
  then have i: "i < n" by simp
  show "be_put n (be_get bs :: 'a word) ! i = bs ! i"
  proof (rule bit_word_eqI)
    fix j assume "j < LENGTH(8)"
    then have j: "j < 8" by simp
    have "8 * (n - 1 - i) + j < 8 * n" using i j by linarith
    moreover have "length bs - 1 - (8 * (n - 1 - i) + j) div 8 = i" using i j assms(1) by simp
    ultimately show "bit (be_put n (be_get bs :: 'a word) ! i) j = bit (bs ! i) j"
      using i j assms by (simp add: bit_be_put bit_be_get)
  qed
qed

section \<open>Strings as bytes\<close>

definition byte_of_char :: "char \<Rightarrow> byte" where
  "byte_of_char c = word_of_nat (of_char c)"

definition char_of_byte :: "byte \<Rightarrow> char" where
  "char_of_byte b = char_of (unat b)"

definition bytes_of :: "string \<Rightarrow> byte list" where
  "bytes_of s = List.map byte_of_char s"

definition string_of :: "byte list \<Rightarrow> string" where
  "string_of bs = List.map char_of_byte bs"

lemma char_of_byte_of_char [simp]: "char_of_byte (byte_of_char c) = c"
  by (simp add: char_of_byte_def byte_of_char_def unat_of_nat)

lemma byte_of_char_of_byte [simp]: "byte_of_char (char_of_byte b) = b"
proof -
  have "unat b < 2 ^ LENGTH(8)" by (rule unsigned_less)
  then have "unat b < 256" by simp
  then show ?thesis by (simp add: char_of_byte_def byte_of_char_def)
qed

lemma string_of_bytes_of [simp]: "string_of (bytes_of s) = s"
  by (simp add: string_of_def bytes_of_def comp_def)

lemma bytes_of_string_of [simp]: "bytes_of (string_of bs) = bs"
  by (simp add: string_of_def bytes_of_def comp_def)

lemma length_bytes_of [simp]: "length (bytes_of s) = length s"
  by (simp add: bytes_of_def)

lemma length_string_of [simp]: "length (string_of bs) = length bs"
  by (simp add: string_of_def)

section \<open>Slices and buffers\<close>

text \<open>\<^verbatim>\<open>data[a:b]\<close>; the callers check the range first.\<close>

definition go_slice :: "'a list \<Rightarrow> nat \<Rightarrow> nat \<Rightarrow> 'a list" where
  "go_slice data a b = take (b - a) (drop a data)"

lemma go_slice_append [simp]:
  "length xs = a \<Longrightarrow> length ys = b - a \<Longrightarrow> a \<le> b \<Longrightarrow> go_slice (xs @ ys @ zs) a b = ys"
  by (simp add: go_slice_def)

lemma length_go_slice: "a \<le> b \<Longrightarrow> b \<le> length xs \<Longrightarrow> length (go_slice xs a b) = b - a"
  by (simp add: go_slice_def)

lemma go_slice_replicate: "go_slice (replicate n x) a b = replicate (min (b - a) (n - a)) x"
  by (simp add: go_slice_def min.commute)

text \<open>\<^verbatim>\<open>PutUintN(buf[off:], v)\<close> panics unless \<open>n\<close> bytes are left in the buffer.\<close>

definition buf_put :: "nat \<Rightarrow> byte list \<Rightarrow> byte list \<Rightarrow> byte list option" where
  "buf_put off bs buf =
     (if off + length bs \<le> length buf
      then Some (take off buf @ bs @ drop (off + length bs) buf) else None)"

text \<open>\<^verbatim>\<open>copy(buf[off:], src)\<close> copies what fits, and panics if \<^verbatim>\<open>off\<close> is past the end.\<close>

definition buf_copy :: "nat \<Rightarrow> byte list \<Rightarrow> byte list \<Rightarrow> byte list option" where
  "buf_copy off src buf =
     (if off \<le> length buf
      then let n = min (length src) (length buf - off)
           in Some (take off buf @ take n src @ drop (off + n) buf) else None)"

text \<open>Writing the next bytes behind what has been written leaves the rest of the buffer.\<close>

lemma buf_put_next:
  "length w = off \<Longrightarrow> length bs \<le> length r \<Longrightarrow>
    buf_put off bs (w @ r) = Some (w @ bs @ drop (length bs) r)"
  by (simp add: buf_put_def)

lemma buf_copy_next:
  "length w = off \<Longrightarrow> length bs \<le> length r \<Longrightarrow>
    buf_copy off bs (w @ r) = Some (w @ bs @ drop (length bs) r)"
  by (simp add: buf_copy_def Let_def min_def)

text \<open>What evaluates bytes on concrete data.\<close>

lemmas bytes_eval = be_put_def be_get_def upt_rec bytes_of_def byte_of_char_def string_of_def
  char_of_byte_def char_of_def bit_0

end
