(* ===== verification/Decimal.thy ===== *)
theory Decimal
  imports Prelude
begin

text \<open>
  The verb \<^verbatim>\<open>%d\<close> of \<^verbatim>\<open>fmt.Sprintf\<close> on integers: the decimal digits, most significant first, behind
  a minus sign for a negative number. Reading the digits back shows that nothing is lost.
\<close>

definition digit :: "nat \<Rightarrow> char" where
  "digit d = char_of (48 + d)"

fun decimal :: "nat \<Rightarrow> string" where
  "decimal n = (if n < 10 then [digit n] else decimal (n div 10) @ [digit (n mod 10)])"

declare decimal.simps [simp del]

definition fmt_int :: "int \<Rightarrow> string" where
  "fmt_int i = (if i < 0 then CHR ''-'' # decimal (nat (- i)) else decimal (nat i))"

definition digits_value :: "string \<Rightarrow> nat" where
  "digits_value s = foldl (\<lambda>acc c. 10 * acc + (of_char c - 48)) 0 s"

lemma of_char_digit [simp]: "d < 10 \<Longrightarrow> of_char (digit d) = 48 + d"
  by (simp add: digit_def)

lemma digits_value_decimal [simp]: "digits_value (decimal n) = n"
proof (induction n rule: decimal.induct)
  case (1 n)
  then show ?case
    by (subst decimal.simps) (simp add: digits_value_def)
qed

lemma decimal_inject [simp]: "decimal m = decimal n \<longleftrightarrow> m = n"
  by (metis digits_value_decimal)

definition digit_chars :: "string" where
  "digit_chars = List.map digit [0..<10]"

lemma decimal_digits: "set (decimal n) \<subseteq> set digit_chars"
proof (induction n rule: decimal.induct)
  case (1 n)
  then show ?case by (subst decimal.simps) (auto simp: digit_chars_def)
qed

lemma digit_ne: "d < 10 \<Longrightarrow> of_char c < (48::nat) \<Longrightarrow> digit d \<noteq> c"
  by (metis not_add_less1 of_char_digit)

lemma decimal_no_char: "of_char c < (48::nat) \<Longrightarrow> c \<notin> set (decimal n)"
  using decimal_digits [of n] digit_ne [of _ c] by (fastforce simp: digit_chars_def)

lemma minus_dot_small: "of_char CHR ''-'' < (48::nat)" "of_char CHR ''.'' < (48::nat)"
  by simp_all

lemma decimal_Cons: "of_char c < (48::nat) \<Longrightarrow> decimal n \<noteq> c # s"
  by (metis decimal_no_char list.set_intros(1))

lemma fmt_int_inject [simp]: "fmt_int i = fmt_int j \<longleftrightarrow> i = j"
  using decimal_Cons [OF minus_dot_small(1)]
  by (auto simp: fmt_int_def dest: sym)

lemma fmt_int_no_dot: "CHR ''.'' \<notin> set (fmt_int i)"
  using decimal_no_char [OF minus_dot_small(2)] by (simp add: fmt_int_def)

end
