(* ===== verification/Hlc_Encode.thy ===== *)
theory Hlc_Encode
  imports Hlc Bytes Decimal
begin

text \<open>
  The binary wire format of HLC timestamps, \<^verbatim>\<open>hlc/encode.go\<close>: 8 bytes of wall time and 4 bytes of
  counter, and the printed form of \<^verbatim>\<open>Timestamp.String\<close> in \<^verbatim>\<open>hlc/clock.go\<close>. \<open>None\<close> as a result of the
  encoder would be a panic.
\<close>

definition hlc_MarshalBinary :: "timestamp \<Rightarrow> byte list option" where
  "hlc_MarshalBinary a =
     (let buf = replicate 12 0
      in Option.bind (buf_put 0 (be_put 8 (WallTime a)) buf)
           (\<lambda>buf. buf_put 8 (be_put 4 (Logical a)) buf))"

datatype hlc_decode_error = HlcErrCorruptEncoding

definition hlc_UnmarshalBinary ::
  "byte list \<Rightarrow> timestamp \<Rightarrow> timestamp \<times> hlc_decode_error option" where
  "hlc_UnmarshalBinary data a =
     (if length data \<noteq> 12 then (a, Some HlcErrCorruptEncoding)
      else (Timestamp (be_get (go_slice data 0 8)) (be_get (go_slice data 8 12)), None))"

definition ts_String :: "timestamp \<Rightarrow> string" where
  "ts_String a = fmt_int (sint (WallTime a)) @ ''.'' @ fmt_int (int (unat (Logical a)))"

lemma hlc_MarshalBinary_bytes:
  "hlc_MarshalBinary a = Some (be_put 8 (WallTime a) @ be_put 4 (Logical a))"
proof -
  have "buf_put 0 (be_put 8 (WallTime a)) (replicate 12 0) =
      Some (be_put 8 (WallTime a) @ replicate 4 0)"
    using buf_put_next [of "[]" 0 "be_put 8 (WallTime a)" "replicate 12 0"] by simp
  moreover have "buf_put 8 (be_put 4 (Logical a)) (be_put 8 (WallTime a) @ replicate 4 0) =
      Some (be_put 8 (WallTime a) @ be_put 4 (Logical a))"
    using buf_put_next [of "be_put 8 (WallTime a)" 8 "be_put 4 (Logical a)" "replicate 4 0"] by simp
  ultimately show ?thesis by (simp add: hlc_MarshalBinary_def)
qed

lemma hlc_Unmarshal_Marshal:
  "hlc_UnmarshalBinary (be_put 8 (WallTime a) @ be_put 4 (Logical a)) b = (a, None)"
proof -
  have "go_slice (be_put 8 (WallTime a) @ be_put 4 (Logical a)) 0 8 = be_put 8 (WallTime a)"
    and "go_slice (be_put 8 (WallTime a) @ be_put 4 (Logical a)) 8 12 = be_put 4 (Logical a)"
    by (simp_all add: go_slice_def)
  then show ?thesis by (simp add: hlc_UnmarshalBinary_def be_get_put)
qed

section \<open>Properties\<close>

text \<open>
  C35. The 12 bytes and the timestamps correspond one to one. \<^verbatim>\<open>MarshalBinary\<close> always yields 12 bytes;
  \<^verbatim>\<open>UnmarshalBinary\<close> accepts exactly the inputs of 12 bytes, and reads a timestamp from just the bytes
  that timestamp is encoded as. On any other length it reports \<^verbatim>\<open>ErrCorruptEncoding\<close> and leaves the
  receiver as it was.
\<close>

theorem hlc_encode_bijective:
  "(hlc_UnmarshalBinary data b = (a, None) \<longleftrightarrow> hlc_MarshalBinary a = Some data) \<and>
   (snd (hlc_UnmarshalBinary data b) = None \<longleftrightarrow> length data = 12) \<and>
   (snd (hlc_UnmarshalBinary data b) = None \<or>
    hlc_UnmarshalBinary data b = (b, Some HlcErrCorruptEncoding)) \<and>
   map_option length (hlc_MarshalBinary a) = Some 12"
proof (intro conjI iffI)
  assume u: "hlc_UnmarshalBinary data b = (a, None)"
  then have l: "length data = 12" by (simp add: hlc_UnmarshalBinary_def split: if_splits)
  then have "length (go_slice data 0 8) = 8" "length (go_slice data 8 12) = 4"
    by (simp_all add: length_go_slice)
  then have "be_put 8 (WallTime a) = take 8 data" "be_put 4 (Logical a) = drop 8 data"
    using u l by (auto simp: hlc_UnmarshalBinary_def be_put_get go_slice_def)
  then show "hlc_MarshalBinary a = Some data"
    by (simp add: hlc_MarshalBinary_bytes)
next
  assume "hlc_MarshalBinary a = Some data"
  then show "hlc_UnmarshalBinary data b = (a, None)"
    using hlc_Unmarshal_Marshal by (auto simp: hlc_MarshalBinary_bytes)
qed (auto simp: hlc_UnmarshalBinary_def hlc_MarshalBinary_bytes split: if_splits)

text \<open>Different timestamps print differently: \<^verbatim>\<open>String\<close> loses nothing.\<close>

lemma ts_String_inject: "ts_String a = ts_String b \<longleftrightarrow> a = b"
proof
  assume "ts_String a = ts_String b"
  then have "fmt_int (sint (WallTime a)) = fmt_int (sint (WallTime b)) \<and>
      fmt_int (int (unat (Logical a))) = fmt_int (int (unat (Logical b)))"
    unfolding ts_String_def
    by (simp add: append_Cons_eq_iff [OF fmt_int_no_dot fmt_int_no_dot])
  then have "ts_key a = ts_key b" by (simp add: ts_key_def flip: nat_uint_eq)
  then show "a = b" by (simp add: ts_key_inject)
qed simp

end
