(* ===== verification/Vector_Encode.thy ===== *)
theory Vector_Encode
  imports Vector Bytes
begin

text \<open>
  The binary wire format of vector snapshots, \<^verbatim>\<open>vector/encode.go\<close>: a 16-bit count, then per entry
  a 16-bit length, the node identifier and a 64-bit counter, in the order of the identifiers. The
  model writes into a preallocated buffer at running offsets and reads with explicit offsets, as
  the code does; \<open>encoding\<close> is the format as a reference.
\<close>

section \<open>Encoding\<close>

text \<open>The two errors of \<^verbatim>\<open>MarshalBinary\<close>, and the panic that writing past the buffer would be.\<close>

datatype marshal_error = TooManyNodes nat | NodeIdTooLong string | BufferPanic

fun marshal_size :: "string list \<Rightarrow> nat \<Rightarrow> marshal_error + nat" where
  "marshal_size [] sz = Inr sz"
| "marshal_size (k # ks) sz =
     (if length k > 0xFFFF then Inl (NodeIdTooLong k)
      else marshal_size ks (sz + (2 + length k + 8)))"

fun marshal_loop :: "counters \<Rightarrow> string list \<Rightarrow> nat \<Rightarrow> byte list \<Rightarrow> byte list option" where
  "marshal_loop vec [] off buff = Some buff"
| "marshal_loop vec (k # ks) off buff =
     Option.bind (buf_put off (be_put 2 (word_of_nat (length k) :: u16)) buff) (\<lambda>buff.
     let off = off + 2 in
     Option.bind (buf_copy off (bytes_of k) buff) (\<lambda>buff.
     let off = off + length k in
     Option.bind (buf_put off (be_put 8 (cget vec k)) buff) (\<lambda>buff.
     let off = off + 8 in
     marshal_loop vec ks off buff)))"

definition vector_MarshalBinary :: "snapshot \<Rightarrow> marshal_error + byte list" where
  "vector_MarshalBinary s =
     (if length (sn_vec s) > 0xFFFF then Inl (TooManyNodes (length (sn_vec s)))
      else
        let ks = range_loop (\<lambda>k v ks. ks @ [k]) (sn_vec s) [];
            ks = sort ks
        in case marshal_size ks 2 of
             Inl e \<Rightarrow> Inl e
           | Inr sz \<Rightarrow>
               let buff = replicate sz 0; off = 0
               in case Option.bind (buf_put off (be_put 2 (word_of_nat (length ks) :: u16)) buff)
                     (\<lambda>buff. let off = off + 2 in marshal_loop (sn_vec s) ks off buff) of
                    None \<Rightarrow> Inl BufferPanic
                  | Some buff \<Rightarrow> Inr buff)"

section \<open>Decoding\<close>

datatype vector_decode_error = VectorErrCorruptEncoding

fun unmarshal_loop ::
  "nat \<Rightarrow> byte list \<Rightarrow> nat \<Rightarrow> counters \<Rightarrow> vector_decode_error + counters \<times> nat" where
  "unmarshal_loop 0 data off vec = Inr (vec, off)"
| "unmarshal_loop (Suc n) data off vec =
     (if off + 2 > length data then Inl VectorErrCorruptEncoding
      else
        let idLen = unat (be_get (go_slice data off (off + 2)) :: u16); off = off + 2
        in if off + idLen + 8 > length data then Inl VectorErrCorruptEncoding
           else
             let id = string_of (go_slice data off (off + idLen)); off = off + idLen;
                 val = be_get (go_slice data off (off + 8)); off = off + 8
             in unmarshal_loop n data off (mput id val vec))"

text \<open>The receiver is assigned only on success.\<close>

definition vector_UnmarshalBinary ::
  "byte list \<Rightarrow> snapshot \<Rightarrow> snapshot \<times> vector_decode_error option" where
  "vector_UnmarshalBinary data s =
     (if length data < 2 then (s, Some VectorErrCorruptEncoding)
      else
        let count = unat (be_get (go_slice data 0 2) :: u16); off = 2; vec = []
        in case unmarshal_loop count data off vec of
             Inl e \<Rightarrow> (s, Some e)
           | Inr (vec, off) \<Rightarrow>
               if off \<noteq> length data then (s, Some VectorErrCorruptEncoding)
               else (s\<lparr>sn_nodeID := '''', sn_vec := vec\<rparr>, None))"

section \<open>The format\<close>

definition entry_bytes :: "string \<times> u64 \<Rightarrow> byte list" where
  "entry_bytes e = be_put 2 (word_of_nat (length (fst e)) :: u16) @ bytes_of (fst e) @ be_put 8 (snd e)"

definition encoding :: "counters \<Rightarrow> byte list" where
  "encoding es = be_put 2 (word_of_nat (length es) :: u16) @ concat (List.map entry_bytes es)"

definition short_ids :: "counters \<Rightarrow> bool" where
  "short_ids es \<longleftrightarrow> (\<forall>e \<in> set es. length (fst e) \<le> 0xFFFF)"

text \<open>The entries in the order of the sorted identifiers.\<close>

definition sorted_entries :: "counters \<Rightarrow> counters" where
  "sorted_entries m = List.map (\<lambda>k. (k, cget m k)) (sort (keys m))"

lemma length_entry_bytes [simp]: "length (entry_bytes e) = 2 + length (fst e) + 8"
  by (simp add: entry_bytes_def)

lemma short_ids_Nil [simp]: "short_ids []"
  by (simp add: short_ids_def)

lemma short_ids_Cons [simp]: "short_ids (e # es) \<longleftrightarrow> length (fst e) \<le> 0xFFFF \<and> short_ids es"
  by (simp add: short_ids_def)

lemma sorted_entries_wf: "wf_map m \<Longrightarrow> wf_map (sorted_entries m)"
  by (simp add: wf_map_def keys_def sorted_entries_def comp_def)

lemma length_sorted_entries [simp]: "length (sorted_entries m) = length m"
  by (simp add: sorted_entries_def keys_def)

lemma sorted_entries_keys: "keys (sorted_entries m) = sort (keys m)"
  by (simp add: sorted_entries_def keys_def comp_def)

lemma sorted_entries_same: "wf_map m \<Longrightarrow> same_map (sorted_entries m) m"
proof (rule same_mapI [where z = 0])
  assume wf: "wf_map m"
  show has: "mhas (sorted_entries m) k = mhas m k" for k
    by (simp add: mhas_iff sorted_entries_keys)
  show "cget (sorted_entries m) k = cget m k" for k
  proof (cases "mhas m k")
    case True
    then have "(k, cget m k) \<in> set (sorted_entries m)"
      by (auto simp: sorted_entries_def mhas_iff)
    then show ?thesis using sorted_entries_wf [OF wf] by (simp add: mget_in)
  next
    case False
    then show ?thesis using has by (simp add: mget_absent)
  qed
qed

lemma short_ids_sorted: "short_ids (sorted_entries m) \<longleftrightarrow> (\<forall>k \<in> set (keys m). length k \<le> 0xFFFF)"
  by (auto simp: short_ids_def sorted_entries_def)

subsection \<open>The encoder writes the format\<close>

lemma marshal_size_ok:
  "marshal_size ks n =
     (if \<forall>k \<in> set ks. length k \<le> 0xFFFF then Inr (n + sum_list (List.map (\<lambda>k. 10 + length k) ks))
      else Inl (NodeIdTooLong (hd (filter (\<lambda>k. length k > 0xFFFF) ks))))"
  by (induction ks n rule: marshal_size.induct) (auto simp: not_le)

lemma marshal_loop_writes:
  assumes "length w = off" and "sum_list (List.map (\<lambda>k. 10 + length k) ks) = length r"
  shows "marshal_loop vec ks off (w @ r) =
    Some (w @ concat (List.map (\<lambda>k. entry_bytes (k, cget vec k)) ks))"
  using assms
proof (induction ks arbitrary: off w r)
  case Nil
  then show ?case by simp
next
  case (Cons k ks)
  let ?l = "be_put 2 (word_of_nat (length k) :: u16)" and ?v = "be_put 8 (cget vec k)"
  have r: "length r = 10 + length k + sum_list (List.map (\<lambda>k. 10 + length k) ks)"
    using Cons.prems(2) by simp
  have 1: "buf_put off ?l (w @ r) = Some ((w @ ?l) @ drop 2 r)"
    using Cons.prems(1) r by (simp add: buf_put_next)
  have 2: "buf_copy (off + 2) (bytes_of k) ((w @ ?l) @ drop 2 r) =
      Some ((w @ ?l @ bytes_of k) @ drop (2 + length k) r)"
    using Cons.prems(1) r by (subst buf_copy_next) (simp_all add: add.commute)
  have 3: "buf_put (off + 2 + length k) ?v ((w @ ?l @ bytes_of k) @ drop (2 + length k) r) =
      Some ((w @ entry_bytes (k, cget vec k)) @ drop (10 + length k) r)"
    using Cons.prems(1) r by (subst buf_put_next) (simp_all add: entry_bytes_def add.commute)
  have "marshal_loop vec ks (off + 2 + length k + 8)
      ((w @ entry_bytes (k, cget vec k)) @ drop (10 + length k) r) =
      Some ((w @ entry_bytes (k, cget vec k)) @ concat (List.map (\<lambda>k. entry_bytes (k, cget vec k)) ks))"
    by (rule Cons.IH) (use Cons.prems(1) r in auto)
  then show ?case by (simp only: marshal_loop.simps 1 2 3 Let_def bind.bind_lunit) simp
qed

lemma MarshalBinary_encoding:
  "vector_MarshalBinary s =
     (if length (sn_vec s) > 0xFFFF then Inl (TooManyNodes (length (sn_vec s)))
      else if \<not> short_ids (sorted_entries (sn_vec s)) then
        Inl (NodeIdTooLong (hd (filter (\<lambda>k. length k > 0xFFFF) (sort (keys (sn_vec s))))))
      else Inr (encoding (sorted_entries (sn_vec s))))"
proof -
  have ks: "range_loop (\<lambda>k v ks. ks @ [k]) (sn_vec s) [] = keys (sn_vec s)"
    using snapshot_Nodes_keys [of s] by (simp add: snapshot_Nodes_def)
  let ?ks = "sort (keys (sn_vec s))"
  let ?n = "2 + sum_list (List.map (\<lambda>k. 10 + length k) ?ks)"
  let ?c = "be_put 2 (word_of_nat (length ?ks) :: u16)"
  have "buf_put 0 ?c (replicate ?n 0) =
      Some (?c @ replicate (sum_list (List.map (\<lambda>k. 10 + length k) ?ks)) 0)"
    using buf_put_next [of "[]" 0 ?c "replicate ?n 0"] by simp
  then have "Option.bind (buf_put 0 ?c (replicate ?n 0))
      (\<lambda>buff. let off = 0 + 2 in marshal_loop (sn_vec s) ?ks off buff) =
      Some (?c @ concat (List.map (\<lambda>k. entry_bytes (k, cget (sn_vec s) k)) ?ks))"
    by (simp add: marshal_loop_writes)
  moreover have "?c @ concat (List.map (\<lambda>k. entry_bytes (k, cget (sn_vec s) k)) ?ks) =
      encoding (sorted_entries (sn_vec s))"
    by (simp add: encoding_def sorted_entries_def comp_def)
  ultimately show ?thesis
    by (simp add: vector_MarshalBinary_def ks marshal_size_ok short_ids_sorted Let_def)
qed

subsection \<open>The decoder reads exactly the format\<close>

lemma be_word_of_nat:
  "n \<le> 0xFFFF \<Longrightarrow> unat (be_get (be_put 2 (word_of_nat n :: u16)) :: u16) = n"
  by (simp add: be_get_put unat_of_nat)

lemma be_count_le: "unat (v :: u16) \<le> 0xFFFF"
proof -
  have "unat v < 2 ^ LENGTH(16)" by (rule unsigned_less)
  then show ?thesis by simp
qed

text \<open>One entry at offset \<open>off\<close>: what the body of the loop finds there.\<close>

lemma unmarshal_entry:
  assumes "length p = off" and "length (fst e) \<le> 0xFFFF"
  shows "unmarshal_loop (Suc n) (p @ entry_bytes e @ q) off vec =
    unmarshal_loop n (p @ entry_bytes e @ q) (off + length (entry_bytes e)) (mput (fst e) (snd e) vec)"
proof -
  let ?l = "be_put 2 (word_of_nat (length (fst e)) :: u16)" and ?k = "bytes_of (fst e)"
  let ?v = "be_put 8 (snd e)" and ?d = "p @ entry_bytes e @ q"
  have 1: "go_slice ?d off (off + 2) = ?l"
    using go_slice_append [of p off ?l "off + 2" "?k @ ?v @ q"] assms(1) by (simp add: entry_bytes_def)
  have 2: "go_slice ?d (off + 2) (off + 2 + length (fst e)) = ?k"
    using go_slice_append [of "p @ ?l" "off + 2" ?k "off + 2 + length (fst e)" "?v @ q"] assms(1)
    by (simp add: entry_bytes_def)
  have 3: "go_slice ?d (off + 2 + length (fst e)) (off + 2 + length (fst e) + 8) = ?v"
    using go_slice_append [of "p @ ?l @ ?k" "off + 2 + length (fst e)" ?v "off + 2 + length (fst e) + 8" q]
      assms(1) by (simp add: entry_bytes_def)
  have v: "(be_get ?v :: u64) = snd e" by (rule be_get_put) simp
  have len: "length ?d = off + 2 + length (fst e) + 8 + length q" using assms(1) by simp
  show ?thesis
    unfolding unmarshal_loop.simps Let_def 1 be_word_of_nat [OF assms(2)] 2 3 v string_of_bytes_of
    using len by (simp add: ac_simps)
qed

lemma unmarshal_loop_reads:
  assumes "length p = off" and "short_ids es"
  shows "unmarshal_loop (length es) (p @ concat (List.map entry_bytes es) @ q) off vec =
    Inr (copy_loop es vec, off + length (concat (List.map entry_bytes es)))"
  using assms
proof (induction es arbitrary: p off vec)
  case Nil
  then show ?case by (simp add: copy_loop_def)
next
  case (Cons e es)
  let ?r = "concat (List.map entry_bytes es)"
  have "unmarshal_loop (length (e # es)) (p @ entry_bytes e @ ?r @ q) off vec =
      unmarshal_loop (length es) ((p @ entry_bytes e) @ ?r @ q) (off + length (entry_bytes e))
        (mput (fst e) (snd e) vec)"
    using unmarshal_entry [of p off e "length es" "?r @ q" vec] Cons.prems by simp
  also have "\<dots> = Inr (copy_loop es (mput (fst e) (snd e) vec),
      off + length (entry_bytes e) + length ?r)"
    using Cons.IH [of "p @ entry_bytes e" "off + length (entry_bytes e)"] Cons.prems by simp
  finally show ?case by (cases e) (simp add: copy_loop_def)
qed

text \<open>Conversely, whatever the loop accepts is a sequence of entries.\<close>

lemma go_slice_split: "a \<le> b \<Longrightarrow> b \<le> length xs \<Longrightarrow> take b xs = take a xs @ go_slice xs a b"
  by (simp add: go_slice_def take_add [symmetric])

lemma unmarshal_loop_accepts:
  assumes "unmarshal_loop n data off vec = Inr (vec', off')" and "off \<le> length data"
  shows "off' \<le> length data \<and> (\<exists>es. length es = n \<and> short_ids es \<and> vec' = copy_loop es vec \<and>
    take off' data = take off data @ concat (List.map entry_bytes es))"
  using assms
proof (induction n data off vec rule: unmarshal_loop.induct)
  case (1 data off vec)
  then show ?case by (auto simp: copy_loop_def short_ids_def)
next
  case (2 n data off vec)
  let ?l = "go_slice data off (off + 2)"
  let ?m = "unat (be_get ?l :: u16)"
  let ?k = "go_slice data (off + 2) (off + 2 + ?m)"
  let ?v = "go_slice data (off + 2 + ?m) (off + 2 + ?m + 8)"
  let ?e = "(string_of ?k, be_get ?v :: u64)"
  have b1: "off + 2 \<le> length data" and b2: "off + 2 + ?m + 8 \<le> length data"
    and rec: "unmarshal_loop n data (off + 2 + ?m + 8) (mput (fst ?e) (snd ?e) vec) = Inr (vec', off')"
    using "2.prems"(1) by (auto simp: Let_def split: if_splits)
  obtain es where off': "off' \<le> length data" and es: "length es = n" "short_ids es"
      "vec' = copy_loop es (mput (fst ?e) (snd ?e) vec)"
      "take off' data = take (off + 2 + ?m + 8) data @ concat (List.map entry_bytes es)"
    using "2.IH" [OF _ refl refl _ refl refl refl refl] b1 b2 rec by (auto simp: not_less)
  have lens: "length ?l = 2" "length ?k = ?m" "length ?v = 8"
    using b1 b2 by (simp_all add: length_go_slice)
  have eb: "entry_bytes ?e = ?l @ ?k @ ?v"
    using lens by (simp add: entry_bytes_def be_put_get)
  have "take (off + 2) data = take off data @ ?l"
    and "take (off + 2 + ?m) data = take (off + 2) data @ ?k"
    and "take (off + 2 + ?m + 8) data = take (off + 2 + ?m) data @ ?v"
    by (rule go_slice_split; use b1 b2 in linarith)+
  then have "take (off + 2 + ?m + 8) data = take off data @ entry_bytes ?e"
    by (simp only: eb append_assoc)
  then have "take off' data = take off data @ concat (List.map entry_bytes (?e # es))"
    using es(4) by simp
  moreover have "short_ids (?e # es)" using es(2) lens be_count_le by simp
  moreover have "vec' = copy_loop (?e # es) vec" using es(3) by (simp add: copy_loop_def)
  moreover have "length (?e # es) = Suc n" using es(1) by simp
  ultimately show ?case using off' by blast
qed

lemma UnmarshalBinary_encoding:
  assumes "short_ids es" and "length es \<le> 0xFFFF"
  shows "vector_UnmarshalBinary (encoding es @ q) s =
    (if q = [] then (s\<lparr>sn_nodeID := '''', sn_vec := copy_loop es []\<rparr>, None)
     else (s, Some VectorErrCorruptEncoding))"
proof -
  let ?c = "be_put 2 (word_of_nat (length es) :: u16)" and ?b = "concat (List.map entry_bytes es)"
  have c: "unat (be_get (go_slice (encoding es @ q) 0 2) :: u16) = length es"
    using go_slice_append [of "[]" 0 ?c 2 "?b @ q"] be_word_of_nat [OF assms(2)]
    by (simp add: encoding_def)
  have "unmarshal_loop (length es) (encoding es @ q) 2 [] = Inr (copy_loop es [], length (encoding es))"
    using unmarshal_loop_reads [of ?c 2 es q "[]"] assms(1) by (simp add: encoding_def)
  moreover have "2 \<le> length (encoding es @ q)" by (simp add: encoding_def)
  ultimately show ?thesis
    unfolding vector_UnmarshalBinary_def Let_def c by (simp add: not_less)
qed

lemma UnmarshalBinary_accepts:
  assumes "vector_UnmarshalBinary data s = (s', None)"
  obtains es where "short_ids es" and "length es \<le> 0xFFFF" and "data = encoding es"
    and "s' = s\<lparr>sn_nodeID := '''', sn_vec := copy_loop es []\<rparr>"
proof -
  let ?n = "unat (be_get (go_slice data 0 2) :: u16)"
  obtain vec where l: "2 \<le> length data"
    and r: "unmarshal_loop ?n data 2 [] = Inr (vec, length data)"
    and s': "s' = s\<lparr>sn_nodeID := '''', sn_vec := vec\<rparr>"
    using assms by (auto simp: vector_UnmarshalBinary_def Let_def split: if_splits sum.splits)
  obtain es where es: "length es = ?n" "short_ids es" "vec = copy_loop es []"
      "take (length data) data = take 2 data @ concat (List.map entry_bytes es)"
    using unmarshal_loop_accepts [OF r l] by blast
  have "be_put 2 (be_get (go_slice data 0 2) :: u16) = go_slice data 0 2"
    using l by (simp add: be_put_get length_go_slice)
  then have "data = encoding es"
    using es(1,4) by (simp add: encoding_def go_slice_def)
  then show ?thesis using that es s' be_count_le by simp
qed

text \<open>Sorting makes the encoding a function of the finite map.\<close>

lemma sort_keys_same:
  assumes "wf_map m" and "wf_map m'" and "same_map m m'"
  shows "sort (keys m) = sort (keys m')"
proof -
  have "set (keys m) = set (keys m')"
    using same_map_mhas [OF assms(3)] by (auto simp: mhas_iff [symmetric])
  then show ?thesis
    using assms(1,2) by (intro sorted_distinct_set_unique) (simp_all add: wf_map_def)
qed

lemma sorted_entries_same_iff:
  "wf_map m \<Longrightarrow> wf_map m' \<Longrightarrow> sorted_entries m = sorted_entries m' \<longleftrightarrow> same_map m m'"
  using sorted_entries_same [of m] sorted_entries_same [of m'] sort_keys_same [of m m']
  by (auto simp: same_map_def sorted_entries_def mget_def)

lemma MarshalBinary_ok:
  "vector_MarshalBinary s = Inr bs \<Longrightarrow>
    short_ids (sorted_entries (sn_vec s)) \<and> length (sn_vec s) \<le> 0xFFFF \<and>
    bs = encoding (sorted_entries (sn_vec s))"
  by (simp add: MarshalBinary_encoding split: if_splits)

lemma UnmarshalBinary_sorted:
  assumes "short_ids (sorted_entries m)" and "wf_map m" and "length m \<le> 0xFFFF"
  shows "vector_UnmarshalBinary (encoding (sorted_entries m)) t =
    (t\<lparr>sn_nodeID := '''', sn_vec := sorted_entries m\<rparr>, None)"
  using UnmarshalBinary_encoding [OF assms(1), of "[]" t] assms sorted_entries_wf [OF assms(2)]
  by simp

lemma encoding_sorted_inject:
  assumes "short_ids (sorted_entries m)" and "wf_map m" and "length m \<le> 0xFFFF"
    and "short_ids (sorted_entries m')" and "wf_map m'" and "length m' \<le> 0xFFFF"
  shows "encoding (sorted_entries m) = encoding (sorted_entries m') \<longleftrightarrow>
    sorted_entries m = sorted_entries m'"
proof
  assume "encoding (sorted_entries m) = encoding (sorted_entries m')"
  then have "fst (vector_UnmarshalBinary (encoding (sorted_entries m)) t) =
      fst (vector_UnmarshalBinary (encoding (sorted_entries m')) t)" for t by simp
  then show "sorted_entries m = sorted_entries m'"
    unfolding UnmarshalBinary_sorted [OF assms(1-3)] UnmarshalBinary_sorted [OF assms(4-6)]
    by (metis fst_conv snapshot.select_convs(2) snapshot.surjective snapshot.update_convs(2))
qed simp

section \<open>Properties\<close>

text \<open>
  C32. Round trip. Whatever \<^verbatim>\<open>MarshalBinary\<close> produces, \<^verbatim>\<open>UnmarshalBinary\<close> reads back: it succeeds for any
  receiver and restores a well-formed snapshot with the same finite map, which \<^verbatim>\<open>Compare\<close> cannot
  tell from the original. Only the node's name is lost.
\<close>

theorem vector_encode_roundtrip:
  assumes "wf_snapshot s" and "vector_MarshalBinary s = Inr bs"
  shows "snd (vector_UnmarshalBinary bs t) = None \<and>
    wf_snapshot (fst (vector_UnmarshalBinary bs t)) \<and>
    same_map (sn_vec (fst (vector_UnmarshalBinary bs t))) (sn_vec s) \<and>
    snapshot_NodeID (fst (vector_UnmarshalBinary bs t)) = '''' \<and>
    vector_Compare (fst (vector_UnmarshalBinary bs t)) s = Equal"
proof -
  let ?t = "t\<lparr>sn_nodeID := '''', sn_vec := sorted_entries (sn_vec s)\<rparr>"
  have wf: "wf_map (sn_vec s)" using assms(1) by (simp add: wf_snapshot_def)
  have u: "vector_UnmarshalBinary bs t = (?t, None)"
    using MarshalBinary_ok [OF assms(2)] wf UnmarshalBinary_sorted by blast
  note same = sorted_entries_same [OF wf]
  have "wf_snapshot ?t" using sorted_entries_wf [OF wf] by (simp add: wf_snapshot_def)
  moreover from this have "vector_Compare ?t s = Equal"
    using same_map_mget [OF same] by (simp add: vector_Compare_flip(2) assms(1))
  ultimately show ?thesis using same u by (simp add: snapshot_NodeID_def)
qed

definition wire_demo :: snapshot where
  "wire_demo = \<lparr>sn_nodeID = ''n1'', sn_vec = [(''b'', 258), (''a'', 7)]\<rparr>"

lemma wire_demo_bytes:
  "vector_MarshalBinary wire_demo =
    Inr [0, 2, 0, 1, 97, 0, 0, 0, 0, 0, 0, 0, 7, 0, 1, 98, 0, 0, 0, 0, 0, 0, 1, 2]"
  by (simp add: MarshalBinary_encoding wire_demo_def sorted_entries_def keys_def encoding_def
      entry_bytes_def bytes_eval mget_def)

lemma unmarshal_loop_2: "unmarshal_loop 2 data off vec = unmarshal_loop (Suc (Suc 0)) data off vec"
  by (simp add: numeral_2_eq_2)

theorem vector_encode_roundtrip_witness:
  "fst (vector_UnmarshalBinary [0, 2, 0, 1, 97, 0, 0, 0, 0, 0, 0, 0, 7, 0, 1, 98, 0, 0, 0, 0, 0, 0, 1, 2]
     \<lparr>sn_nodeID = ''old'', sn_vec = []\<rparr>) = \<lparr>sn_nodeID = '''', sn_vec = [(''a'', 7), (''b'', 258)]\<rparr> \<and>
   same_map [(''a'', 7 :: u64), (''b'', 258)] [(''b'', 258), (''a'', 7)]"
proof -
  have wf: "wf_snapshot wire_demo"
    by (simp add: wf_snapshot_def wire_demo_def wf_map_def keys_def)
  have "fst (vector_UnmarshalBinary [0, 2, 0, 1, 97, 0, 0, 0, 0, 0, 0, 0, 7, 0, 1, 98, 0, 0, 0, 0, 0, 0, 1, 2]
     \<lparr>sn_nodeID = ''old'', sn_vec = []\<rparr>) = \<lparr>sn_nodeID = '''', sn_vec = [(''a'', 7), (''b'', 258)]\<rparr>"
    by (simp add: vector_UnmarshalBinary_def Let_def unmarshal_loop_2 go_slice_def bytes_eval mput_def)
  with vector_encode_roundtrip [OF wf wire_demo_bytes, of "\<lparr>sn_nodeID = ''old'', sn_vec = []\<rparr>"]
  show ?thesis by (simp add: wire_demo_def)
qed

text \<open>
  The encoding is canonical. Two snapshots have the same bytes if and only if they stand for the
  same finite map: the order in which Go visits the map does not show, and no two maps collide.
\<close>

lemma vector_encode_canonical:
  assumes "wf_snapshot s" and "vector_MarshalBinary s = Inr bs"
    and "wf_snapshot s'" and "vector_MarshalBinary s' = Inr bs'"
  shows "bs = bs' \<longleftrightarrow> same_map (sn_vec s) (sn_vec s')"
proof -
  let ?m = "sorted_entries (sn_vec s)" and ?m' = "sorted_entries (sn_vec s')"
  have wf: "wf_map (sn_vec s)" "wf_map (sn_vec s')" using assms(1,3) by (simp_all add: wf_snapshot_def)
  note ok = MarshalBinary_ok [OF assms(2)] MarshalBinary_ok [OF assms(4)]
  have "encoding ?m = encoding ?m' \<longleftrightarrow> ?m = ?m'"
    by (rule encoding_sorted_inject) (use ok wf in blast)+
  then have "bs = bs' \<longleftrightarrow> ?m = ?m'" using ok by blast
  then show ?thesis by (simp add: sorted_entries_same_iff wf)
qed

text \<open>
  C12. What the decoder accepts. \<^verbatim>\<open>UnmarshalBinary\<close> succeeds exactly on the encodings of sequences of at
  most 65535 entries with short names, and then holds the map these entries build in order, so that of
  two entries for a node the later one counts. On every other input it reports
  \<^verbatim>\<open>ErrCorruptEncoding\<close> and leaves the receiver as it was.
\<close>

theorem vector_decode_exact:
  "(vector_UnmarshalBinary data s = (s', None) \<longleftrightarrow>
      (\<exists>es. short_ids es \<and> length es \<le> 0xFFFF \<and> data = encoding es \<and>
        s' = s\<lparr>sn_nodeID := '''', sn_vec := copy_loop es []\<rparr>)) \<and>
   (snd (vector_UnmarshalBinary data s) = None \<or>
    vector_UnmarshalBinary data s = (s, Some VectorErrCorruptEncoding))"
proof (intro conjI iffI)
  assume "vector_UnmarshalBinary data s = (s', None)"
  then show "\<exists>es. short_ids es \<and> length es \<le> 0xFFFF \<and> data = encoding es \<and>
      s' = s\<lparr>sn_nodeID := '''', sn_vec := copy_loop es []\<rparr>"
    by (rule UnmarshalBinary_accepts) blast
next
  assume "\<exists>es. short_ids es \<and> length es \<le> 0xFFFF \<and> data = encoding es \<and>
      s' = s\<lparr>sn_nodeID := '''', sn_vec := copy_loop es []\<rparr>"
  then show "vector_UnmarshalBinary data s = (s', None)"
    using UnmarshalBinary_encoding [of _ "[]" s] by auto
next
  show "snd (vector_UnmarshalBinary data s) = None \<or>
      vector_UnmarshalBinary data s = (s, Some VectorErrCorruptEncoding)"
    by (simp add: vector_UnmarshalBinary_def Let_def split: sum.splits)
       (metis (full_types) vector_decode_error.exhaust)
qed

text \<open>
  No truncated or padded message decodes: if the decoder accepts a message, it rejects every
  proper prefix of it and everything longer that starts with it.
\<close>

lemma vector_decode_prefix_free:
  assumes "snd (vector_UnmarshalBinary data s) = None" and "q \<noteq> []"
  shows "snd (vector_UnmarshalBinary (data @ q) s) = Some VectorErrCorruptEncoding"
proof -
  obtain es where "short_ids es" and "length es \<le> 0xFFFF" and "data = encoding es"
    using assms(1) by (metis UnmarshalBinary_accepts prod.collapse)
  then show ?thesis using UnmarshalBinary_encoding [of es q s] assms(2) by simp
qed

text \<open>
  When encoding fails. \<^verbatim>\<open>MarshalBinary\<close> returns an error exactly for more than 65535 entries or,
  otherwise, for a name longer than 65535 bytes, and it names the first such in the sorted order.
  Otherwise it returns as many bytes as the size computed in advance: it never panics by writing
  past the buffer.
\<close>

lemma vector_Marshal_total:
  "vector_MarshalBinary s \<noteq> Inl BufferPanic \<and>
   (vector_MarshalBinary s = Inl (TooManyNodes n) \<longleftrightarrow> length (sn_vec s) = n \<and> n > 0xFFFF) \<and>
   (vector_MarshalBinary s = Inl (NodeIdTooLong k) \<longleftrightarrow> length (sn_vec s) \<le> 0xFFFF \<and>
      (\<exists>ks ks'. sort (keys (sn_vec s)) = ks @ k # ks' \<and> length k > 0xFFFF \<and>
        {j \<in> set ks. length j > 0xFFFF} = {})) \<and>
   (vector_MarshalBinary s = Inr bs \<longleftrightarrow> length (sn_vec s) \<le> 0xFFFF \<and>
      {j \<in> set (keys (sn_vec s)). length j > 0xFFFF} = {} \<and>
      bs = be_put 2 (word_of_nat (length (sn_vec s)) :: u16) @
        concat (List.map (\<lambda>j. be_put 2 (word_of_nat (length j) :: u16) @ bytes_of j @
          be_put 8 (snapshot_Get s j)) (sort (keys (sn_vec s)))))"
proof -
  let ?P = "\<lambda>j :: string. length j > 0xFFFF" and ?ks = "sort (keys (sn_vec s))"
  have short: "short_ids (sorted_entries (sn_vec s)) \<longleftrightarrow> {j \<in> set (keys (sn_vec s)). ?P j} = {}"
    by (auto simp: short_ids_sorted not_less)
  have enc: "encoding (sorted_entries (sn_vec s)) =
      be_put 2 (word_of_nat (length (sn_vec s)) :: u16) @
        concat (List.map (\<lambda>j. be_put 2 (word_of_nat (length j) :: u16) @ bytes_of j @
          be_put 8 (snapshot_Get s j)) ?ks)"
    by (simp add: encoding_def sorted_entries_def entry_bytes_def keys_def comp_def snapshot_Get_def)
  have hd: "(\<not> short_ids (sorted_entries (sn_vec s)) \<and> hd (filter ?P ?ks) = k) \<longleftrightarrow>
      (\<exists>ks ks'. ?ks = ks @ k # ks' \<and> ?P k \<and> {j \<in> set ks. ?P j} = {})" (is "?l \<longleftrightarrow> ?r")
  proof
    assume l: ?l
    then have "filter ?P ?ks \<noteq> []" by (auto simp: short filter_empty_conv)
    then obtain x xs where "filter ?P ?ks = x # xs" by (auto simp: neq_Nil_conv)
    then show ?r using l by (fastforce simp: filter_eq_Cons_iff)
  next
    assume ?r
    then obtain ks ks' where r: "?ks = ks @ k # ks'" "?P k" "{j \<in> set ks. ?P j} = {}" by blast
    then have "k \<in> set (keys (sn_vec s))" by (metis in_set_conv_decomp set_sort)
    moreover have "filter ?P ks = []" using r(3) by (auto simp: filter_empty_conv)
    ultimately show ?l using r by (auto simp: short)
  qed
  show ?thesis
    unfolding hd [symmetric] short [symmetric] enc [symmetric]
    by (auto simp: MarshalBinary_encoding not_less)
qed

end
