(* ===== verification/Utf8.thy ===== *)
theory Utf8
  imports Bytes
begin

text \<open>
  What \<^verbatim>\<open>encoding/json\<close> uses of Go's \<^verbatim>\<open>unicode/utf8\<close>: \<^verbatim>\<open>DecodeRune\<close> and \<^verbatim>\<open>EncodeRune\<close>. A Go
  string is a list of bytes that need not be valid UTF-8, so \<open>string\<close> models it with one character
  per byte, and \<open>ord\<close> is the value of a byte. Runes are natural numbers.
\<close>

definition ord :: "char \<Rightarrow> nat" where
  "ord c = of_char c"

lemma ord_less: "ord c < 256"
  using nat_of_char_less_256 [of c] by (simp add: ord_def)

lemma char_of_ord [simp]: "char_of (ord c) = c"
  by (simp add: ord_def)

lemma ord_char_of [simp]: "n < 256 \<Longrightarrow> ord (char_of n) = n"
  by (simp add: ord_def)

lemma ord_inject: "ord c = ord d \<longleftrightarrow> c = d"
  by (metis char_of_ord)

section \<open>Decoding and encoding one rune\<close>

definition RuneError :: nat where
  "RuneError = 0xFFFD"

text \<open>The range of the second byte after the first byte \<open>x\<close>; further bytes are continuation bytes.\<close>

definition second_lo :: "nat \<Rightarrow> nat" where
  "second_lo x = (if x = 0xE0 then 0xA0 else if x = 0xF0 then 0x90 else 0x80)"

definition second_hi :: "nat \<Rightarrow> nat" where
  "second_hi x = (if x = 0xED then 0x9F else if x = 0xF4 then 0x8F else 0xBF)"

definition is_cont :: "nat \<Rightarrow> bool" where
  "is_cont y \<longleftrightarrow> 0x80 \<le> y \<and> y \<le> 0xBF"

text \<open>
  \<^verbatim>\<open>utf8.DecodeRune\<close>: the rune and its width, \<open>(RuneError, 0)\<close> for no input and \<open>(RuneError, 1)\<close>
  for an encoding that is invalid, overlong, a surrogate or too large.
\<close>

definition decode_rune :: "string \<Rightarrow> nat \<times> nat" where
  "decode_rune s =
     (case s of
        [] \<Rightarrow> (RuneError, 0)
      | c0 # s1 \<Rightarrow>
          let x = ord c0
          in if x < 0x80 then (x, 1)
             else if x < 0xC2 \<or> 0xF4 < x then (RuneError, 1)
             else case s1 of
               [] \<Rightarrow> (RuneError, 1)
             | c1 # s2 \<Rightarrow>
                 let y = ord c1
                 in if \<not> (second_lo x \<le> y \<and> y \<le> second_hi x) then (RuneError, 1)
                    else if x < 0xE0 then ((x - 0xC0) * 64 + (y - 0x80), 2)
                    else case s2 of
                      [] \<Rightarrow> (RuneError, 1)
                    | c2 # s3 \<Rightarrow>
                        let z = ord c2
                        in if \<not> is_cont z then (RuneError, 1)
                           else if x < 0xF0 then
                             (((x - 0xE0) * 64 + (y - 0x80)) * 64 + (z - 0x80), 3)
                           else case s3 of
                             [] \<Rightarrow> (RuneError, 1)
                           | c3 # _ \<Rightarrow>
                               let w = ord c3
                               in if \<not> is_cont w then (RuneError, 1)
                                  else ((((x - 0xF0) * 64 + (y - 0x80)) * 64 + (z - 0x80)) * 64 + (w - 0x80), 4))"

definition is_surrogate :: "nat \<Rightarrow> bool" where
  "is_surrogate r \<longleftrightarrow> 0xD800 \<le> r \<and> r < 0xE000"

text \<open>\<^verbatim>\<open>utf8.EncodeRune\<close> writes the replacement character for what is not a rune.\<close>

definition encode_rune :: "nat \<Rightarrow> string" where
  "encode_rune r0 =
     (let r = (if is_surrogate r0 \<or> 0x10FFFF < r0 then RuneError else r0)
      in if r < 0x80 then [char_of r]
         else if r < 0x800 then [char_of (0xC0 + r div 64), char_of (0x80 + r mod 64)]
         else if r < 0x10000 then
           [char_of (0xE0 + r div 4096), char_of (0x80 + r div 64 mod 64), char_of (0x80 + r mod 64)]
         else
           [char_of (0xF0 + r div 262144), char_of (0x80 + r div 4096 mod 64),
            char_of (0x80 + r div 64 mod 64), char_of (0x80 + r mod 64)])"

text \<open>
  \<open>rune_at p r\<close>: the bytes \<open>p\<close> are the encoding of the rune \<open>r\<close>. Whatever follows them, \<^verbatim>\<open>DecodeRune\<close>
  reads \<open>r\<close>, and \<^verbatim>\<open>EncodeRune\<close> writes them again.
\<close>

definition rune_at :: "string \<Rightarrow> nat \<Rightarrow> bool" where
  "rune_at p r \<longleftrightarrow> p \<noteq> [] \<and> (\<forall>rest. decode_rune (p @ rest) = (r, length p)) \<and> encode_rune r = p \<and>
     (length p = 1 \<longrightarrow> r < 0x80) \<and> (1 < length p \<longrightarrow> 0x80 \<le> r \<and> (\<forall>c \<in> set p. 0x80 \<le> ord c))"

lemma rune_at_ascii: "ord c < 0x80 \<Longrightarrow> rune_at [c] (ord c)"
  by (simp add: rune_at_def decode_rune_def encode_rune_def is_surrogate_def)

lemma rune_at_2:
  assumes "0xC2 \<le> ord a" "ord a < 0xE0" "0x80 \<le> ord b" "ord b \<le> 0xBF"
  shows "rune_at [a, b] ((ord a - 0xC0) * 64 + (ord b - 0x80))"
proof -
  obtain x y where xy: "ord a = 0xC0 + x" "ord b = 0x80 + y" "2 \<le> x" "x < 32" "y < 64"
    using assms by (intro that [of "ord a - 0xC0" "ord b - 0x80"]) auto
  then have "char_of (0xC0 + x) = a" "char_of (0x80 + y) = b" by (metis char_of_ord)+
  moreover have "(x * 64 + y) div 64 = x" "(x * 64 + y) mod 64 = y" using xy by simp_all
  ultimately have "encode_rune (x * 64 + y) = [a, b]"
    using xy by (simp add: encode_rune_def is_surrogate_def)
  then show ?thesis
    using xy by (simp add: rune_at_def decode_rune_def second_lo_def second_hi_def)
qed

lemma base64_last: "z < 64 \<Longrightarrow> (q * 64 + z) div 64 = q" "z < 64 \<Longrightarrow> (q * 64 + z) mod 64 = z"
  for q z :: nat
  by simp_all

lemma base64_div: "n div 4096 = n div 64 div 64" "n div 262144 = n div 64 div 64 div 64"
  for n :: nat
  by (simp_all flip: div_mult2_eq)

lemma encode_rune_3:
  assumes "\<not> is_surrogate r" "0x800 \<le> r" "r < 0x10000" "r = (x * 64 + y) * 64 + z" "y < 64" "z < 64"
  shows "encode_rune r = [char_of (0xE0 + x), char_of (0x80 + y), char_of (0x80 + z)]"
proof -
  have "r div 64 = x * 64 + y" "r mod 64 = z" using base64_last [of z "x * 64 + y"] assms by simp_all
  moreover have "(x * 64 + y) div 64 = x" "(x * 64 + y) mod 64 = y" using assms(5) by simp_all
  ultimately show ?thesis using assms(1,2,3) by (simp add: encode_rune_def base64_div)
qed

lemma encode_rune_4:
  assumes "0x10000 \<le> r" "r \<le> 0x10FFFF" "r = ((x * 64 + y) * 64 + z) * 64 + w" "y < 64" "z < 64" "w < 64"
  shows "encode_rune r = [char_of (0xF0 + x), char_of (0x80 + y), char_of (0x80 + z), char_of (0x80 + w)]"
proof -
  have "r div 64 = (x * 64 + y) * 64 + z" "r mod 64 = w"
    using base64_last [of w "(x * 64 + y) * 64 + z"] assms by simp_all
  moreover have "((x * 64 + y) * 64 + z) div 64 = x * 64 + y" "((x * 64 + y) * 64 + z) mod 64 = z"
    using base64_last [of z "x * 64 + y"] assms(5) by simp_all
  moreover have "(x * 64 + y) div 64 = x" "(x * 64 + y) mod 64 = y" using assms(4) by simp_all
  ultimately show ?thesis using assms(1,2) by (simp add: encode_rune_def is_surrogate_def base64_div)
qed

lemma rune_at_3:
  assumes "0xE0 \<le> ord a" "ord a < 0xF0" "second_lo (ord a) \<le> ord b" "ord b \<le> second_hi (ord a)"
    and "is_cont (ord c)"
  shows "rune_at [a, b, c] (((ord a - 0xE0) * 64 + (ord b - 0x80)) * 64 + (ord c - 0x80))"
proof -
  have b: "0x80 \<le> ord b" "ord b \<le> 0xBF"
    using assms(3,4) by (auto simp: second_lo_def second_hi_def split: if_splits)
  obtain x y z where xyz: "ord a = 0xE0 + x" "ord b = 0x80 + y" "ord c = 0x80 + z"
      "x < 16" "y < 64" "z < 64"
    using assms b by (intro that [of "ord a - 0xE0" "ord b - 0x80" "ord c - 0x80"]) (auto simp: is_cont_def)
  let ?r = "(x * 64 + y) * 64 + z"
  have lo: "x = 0 \<Longrightarrow> 32 \<le> y" and sur: "x = 13 \<Longrightarrow> y < 32"
    using assms(3,4) xyz by (auto simp: second_lo_def second_hi_def split: if_splits)
  have r: "0x800 \<le> ?r" "?r < 0x10000"
    using lo xyz by (cases "x = 0"; simp)+
  have ns: "\<not> is_surrogate ?r"
  proof (cases "x = 13")
    case True
    then show ?thesis using sur xyz by (simp add: is_surrogate_def)
  next
    case False
    then have "x \<le> 12 \<or> 14 \<le> x" by linarith
    then show ?thesis using xyz by (auto simp: is_surrogate_def)
  qed
  have "char_of (0xE0 + x) = a" "char_of (0x80 + y) = b" "char_of (0x80 + z) = c"
    using xyz by (metis char_of_ord)+
  then have "encode_rune ?r = [a, b, c]"
    using encode_rune_3 [OF ns r refl] xyz by simp
  then show ?thesis
    using xyz r assms(3,4,5) by (simp add: rune_at_def decode_rune_def)
qed

lemma rune_at_4:
  assumes "0xF0 \<le> ord a" "ord a \<le> 0xF4" "second_lo (ord a) \<le> ord b" "ord b \<le> second_hi (ord a)"
    and "is_cont (ord c)" "is_cont (ord d)"
  shows "rune_at [a, b, c, d]
    ((((ord a - 0xF0) * 64 + (ord b - 0x80)) * 64 + (ord c - 0x80)) * 64 + (ord d - 0x80))"
proof -
  have b: "0x80 \<le> ord b" "ord b \<le> 0xBF"
    using assms(3,4) by (auto simp: second_lo_def second_hi_def split: if_splits)
  obtain x y z w where xyz: "ord a = 0xF0 + x" "ord b = 0x80 + y" "ord c = 0x80 + z" "ord d = 0x80 + w"
      "x \<le> 4" "y < 64" "z < 64" "w < 64"
    using assms b
    by (intro that [of "ord a - 0xF0" "ord b - 0x80" "ord c - 0x80" "ord d - 0x80"]) (auto simp: is_cont_def)
  let ?r = "((x * 64 + y) * 64 + z) * 64 + w"
  have lo: "x = 0 \<Longrightarrow> 16 \<le> y" and hi: "x = 4 \<Longrightarrow> y < 16"
    using assms(3,4) xyz by (auto simp: second_lo_def second_hi_def split: if_splits)
  have r1: "0x10000 \<le> ?r" using lo xyz by (cases "x = 0") simp_all
  have r2: "?r \<le> 0x10FFFF" using hi xyz by (cases "x = 4") simp_all
  have "char_of (0xF0 + x) = a" "char_of (0x80 + y) = b" "char_of (0x80 + z) = c" "char_of (0x80 + w) = d"
    using xyz by (metis char_of_ord)+
  then have "encode_rune ?r = [a, b, c, d]"
    using encode_rune_4 [OF r1 r2 refl] xyz by simp
  then show ?thesis
    using xyz r1 assms(3-6) by (simp add: rune_at_def decode_rune_def)
qed

lemma rune_atD:
  assumes "rune_at p r"
  shows "decode_rune (p @ rest) = (r, length p)" "encode_rune r = p" "p \<noteq> []" "decode_rune p = (r, length p)"
  using assms append_Nil2 [of p] unfolding rune_at_def by metis+

lemma rune_at_not_error: "rune_at p r \<Longrightarrow> \<not> (r = RuneError \<and> length p = 1)"
  by (auto simp: rune_at_def RuneError_def)

text \<open>A nonempty input starts with the encoding of a rune or with an invalid byte.\<close>

lemma decode_rune_cases:
  assumes "s \<noteq> []"
  obtains (invalid) "decode_rune s = (RuneError, 1)" "0x80 \<le> ord (hd s)"
  | (rune) p r rest where "s = p @ rest" "rune_at p r"
proof -
  obtain c s1 where s: "s = c # s1" using assms by (cases s) auto
  show thesis
  proof (cases "ord c < 0x80")
    case True
    then show thesis using rune [of "[c]" s1 "ord c"] by (simp add: s rune_at_ascii)
  next
    case high: False
    show thesis
    proof (cases "decode_rune s = (RuneError, 1)")
      case True
      then show thesis using high invalid by (simp add: s)
    next
      case False
      then obtain d s2 where d: "s1 = d # s2" "0xC2 \<le> ord c" "ord c \<le> 0xF4"
          "second_lo (ord c) \<le> ord d" "ord d \<le> second_hi (ord c)"
        using high by (auto simp: s decode_rune_def Let_def split: list.splits if_splits)
      show thesis
      proof (cases "ord c < 0xE0")
        case True
        then have "rune_at [c, d] ((ord c - 0xC0) * 64 + (ord d - 0x80))"
          using d by (intro rune_at_2) (auto simp: second_lo_def second_hi_def split: if_splits)
        then show thesis using rune [of "[c, d]" s2] by (simp add: s d)
      next
        case c2: False
        then obtain e s3 where e: "s2 = e # s3" "is_cont (ord e)"
          using False d high by (auto simp: s decode_rune_def Let_def split: list.splits if_splits)
        show thesis
        proof (cases "ord c < 0xF0")
          case True
          then show thesis using rune [of "[c, d, e]" s3] rune_at_3 [of c d e] c2 d e by (simp add: s)
        next
          case c3: False
          then obtain f s4 where "s3 = f # s4" "is_cont (ord f)"
            using False c2 d e high by (auto simp: s decode_rune_def Let_def split: list.splits if_splits)
          then show thesis using rune [of "[c, d, e, f]" s4] rune_at_4 [of c d e f] c3 d e by (simp add: s)
        qed
      qed
    qed
  qed
qed

lemma decode_rune_width: "s \<noteq> [] \<Longrightarrow> 0 < snd (decode_rune s)"
  by (cases s rule: decode_rune_cases) (auto simp: rune_atD)

lemma decode_rune_drop: "s \<noteq> [] \<Longrightarrow> x = decode_rune s \<Longrightarrow> (r, n) = x \<Longrightarrow> length s - n < length s"
  using decode_rune_width [of s] by (cases s) (auto simp: prod_eq_iff)

section \<open>Valid strings\<close>

text \<open>
  \<open>valid_utf8\<close> is \<^verbatim>\<open>utf8.ValidString\<close>. \<open>to_valid\<close> is the loop with which \<^verbatim>\<open>encoding/json\<close> makes a
  string valid: it decodes rune by rune and encodes what it got, so every byte that belongs to no rune
  turns into the replacement character.
\<close>

function valid_utf8 :: "string \<Rightarrow> bool" where
  "valid_utf8 s =
     (if s = [] then True
      else let (r, n) = decode_rune s
           in if r = RuneError \<and> n = 1 then False else valid_utf8 (drop n s))"
  by pat_completeness auto
termination
  by (relation "measure length") (simp_all add: decode_rune_drop)

function to_valid :: "string \<Rightarrow> string" where
  "to_valid s =
     (if s = [] then []
      else let (r, n) = decode_rune s in encode_rune r @ to_valid (drop n s))"
  by pat_completeness auto
termination
  by (relation "measure length") (simp_all add: decode_rune_drop)

declare valid_utf8.simps [simp del] to_valid.simps [simp del]

lemma valid_utf8_Nil [simp]: "valid_utf8 []"
  by (simp add: valid_utf8.simps)

lemma to_valid_Nil [simp]: "to_valid [] = []"
  by (simp add: to_valid.simps)

lemma valid_utf8_rune: "rune_at p r \<Longrightarrow> valid_utf8 (p @ rest) \<longleftrightarrow> valid_utf8 rest"
  using rune_at_not_error [of p r] by (subst valid_utf8.simps) (auto simp: rune_atD)

lemma to_valid_rune: "rune_at p r \<Longrightarrow> to_valid (p @ rest) = p @ to_valid rest"
  by (subst to_valid.simps) (auto simp: rune_atD)

lemma valid_utf8_invalid: "decode_rune s = (RuneError, 1) \<Longrightarrow> \<not> valid_utf8 s"
  by (subst valid_utf8.simps) (auto simp: decode_rune_def)

lemma to_valid_invalid:
  "s \<noteq> [] \<Longrightarrow> decode_rune s = (RuneError, 1) \<Longrightarrow> to_valid s = encode_rune RuneError @ to_valid (tl s)"
  by (subst to_valid.simps) (simp add: drop_Suc)

text \<open>Induction over the runes and the invalid bytes of a string.\<close>

lemma utf8_induct [case_names Nil invalid rune]:
  assumes "P []"
    and "\<And>c s. decode_rune (c # s) = (RuneError, 1) \<Longrightarrow> 0x80 \<le> ord c \<Longrightarrow> P s \<Longrightarrow> P (c # s)"
    and "\<And>p r s. rune_at p r \<Longrightarrow> P s \<Longrightarrow> P (p @ s)"
  shows "P s"
proof (induction s rule: length_induct)
  case (1 s)
  show ?case
  proof (cases "s = []")
    case True
    then show ?thesis using assms(1) by simp
  next
    case False
    then show ?thesis
    proof (cases s rule: decode_rune_cases)
      case invalid
      then obtain c t where "s = c # t" using False by (cases s) auto
      then show ?thesis using invalid assms(2) [of c t] 1 by simp
    next
      case (rune p r rest)
      then show ?thesis using assms(3) [of p r rest] 1 by (simp add: rune_atD)
    qed
  qed
qed

lemma rune_at_RuneError: "rune_at (encode_rune RuneError) RuneError"
proof -
  have "rune_at [CHR 0xEF, CHR 0xBF, CHR 0xBD] RuneError"
    using rune_at_3 [of "CHR 0xEF" "CHR 0xBF" "CHR 0xBD"]
    by (simp add: ord_def second_lo_def second_hi_def is_cont_def RuneError_def)
  then show ?thesis by (metis rune_atD(2))
qed

lemma valid_to_valid: "valid_utf8 (to_valid s)"
  by (induction s rule: utf8_induct)
    (simp_all add: to_valid_invalid to_valid_rune valid_utf8_rune valid_utf8_rune [OF rune_at_RuneError])

lemma to_valid_id: "valid_utf8 s \<Longrightarrow> to_valid s = s"
  by (induction s rule: utf8_induct) (auto simp: valid_utf8_invalid to_valid_rune valid_utf8_rune)

lemma to_valid_iff: "to_valid s = s \<longleftrightarrow> valid_utf8 s"
  by (metis to_valid_id valid_to_valid)

lemma valid_utf8_ascii: "list_all (\<lambda>c. ord c < 0x80) s \<Longrightarrow> valid_utf8 s"
proof (induction s)
  case (Cons c s)
  then show ?case using valid_utf8_rune [OF rune_at_ascii, of c s] by simp
qed simp

end
