(* ===== verification/Json_String.thy ===== *)
theory Json_String
  imports Utf8
begin

text \<open>
  JSON strings as Go's \<^verbatim>\<open>encoding/json\<close> writes and reads them: \<^verbatim>\<open>appendString\<close> (with HTML escaping, as
  \<^verbatim>\<open>json.Marshal\<close> calls it), the scanner's acceptance of a string literal, and \<^verbatim>\<open>unquoteBytes\<close>. What a
  string becomes on the way through both is \<open>to_valid\<close> of it, so exactly the strings that are valid
  UTF-8 survive.
\<close>

abbreviation dquote :: char where "dquote \<equiv> CHR 0x22"
abbreviation backslash :: char where "backslash \<equiv> CHR 0x5C"

section \<open>Hexadecimal digits\<close>

definition hex_digit :: "nat \<Rightarrow> char" where
  "hex_digit n = char_of (if n < 10 then 48 + n else 87 + n)"

definition hex_value :: "char \<Rightarrow> nat option" where
  "hex_value c =
     (let n = ord c
      in if 48 \<le> n \<and> n \<le> 57 then Some (n - 48)
         else if 97 \<le> n \<and> n \<le> 102 then Some (n - 87)
         else if 65 \<le> n \<and> n \<le> 70 then Some (n - 55)
         else None)"

definition is_hex :: "char \<Rightarrow> bool" where
  "is_hex c \<longleftrightarrow> hex_value c \<noteq> None"

lemma hex_value_digit [simp]: "n < 16 \<Longrightarrow> hex_value (hex_digit n) = Some n"
  by (auto simp: hex_value_def hex_digit_def Let_def)

lemma is_hex_digit [simp]: "n < 16 \<Longrightarrow> is_hex (hex_digit n)"
  by (simp add: is_hex_def)

lemma is_hex_lits [simp]: "is_hex CHR ''0''" "is_hex CHR ''2''" "is_hex CHR ''f''" "is_hex CHR ''d''"
  by (simp_all add: is_hex_def hex_value_def ord_def)

text \<open>\<^verbatim>\<open>getu4\<close> reads \<^verbatim>\<open>\uXXXX\<close> at the start of its input; \<open>None\<close> is its result \<^verbatim>\<open>-1\<close>.\<close>

definition getu4 :: "string \<Rightarrow> nat option" where
  "getu4 s =
     (case s of
        b # u # h1 # h2 # h3 # h4 # _ \<Rightarrow>
          if b = backslash \<and> u = CHR ''u'' then
            (case (hex_value h1, hex_value h2, hex_value h3, hex_value h4) of
               (Some a1, Some a2, Some a3, Some a4) \<Rightarrow> Some (((a1 * 16 + a2) * 16 + a3) * 16 + a4)
             | _ \<Rightarrow> None)
          else None
      | _ \<Rightarrow> None)"

section \<open>Writing\<close>

text \<open>\<^verbatim>\<open>htmlSafeSet\<close>, and the escapes of the other bytes below 128.\<close>

definition html_safe :: "char \<Rightarrow> bool" where
  "html_safe c \<longleftrightarrow> 0x20 \<le> ord c \<and> ord c < 0x80 \<and>
     c \<noteq> dquote \<and> c \<noteq> backslash \<and> c \<noteq> CHR ''<'' \<and> c \<noteq> CHR ''>'' \<and> c \<noteq> CHR ''&''"

definition escape_char :: "char \<Rightarrow> string" where
  "escape_char c =
     (if html_safe c then [c]
      else if c = backslash \<or> c = dquote then [backslash, c]
      else if c = CHR 0x08 then [backslash, CHR ''b'']
      else if c = CHR 0x0C then [backslash, CHR ''f'']
      else if c = CHR 0x0A then [backslash, CHR ''n'']
      else if c = CHR 0x0D then [backslash, CHR ''r'']
      else if c = CHR 0x09 then [backslash, CHR ''t'']
      else [backslash, CHR ''u'', CHR ''0'', CHR ''0'', hex_digit (ord c div 16), hex_digit (ord c mod 16)])"

function json_escape :: "string \<Rightarrow> string" where
  "json_escape s =
     (if s = [] then []
      else if ord (hd s) < 0x80 then escape_char (hd s) @ json_escape (tl s)
      else let (r, n) = decode_rune s
           in (if r = RuneError \<and> n = 1 then backslash # ''ufffd''
               else if r = 0x2028 \<or> r = 0x2029 then backslash # ''u202'' @ [hex_digit (r mod 16)]
               else take n s) @ json_escape (drop n s))"
  by pat_completeness auto
termination
  by (relation "measure length") (simp_all add: decode_rune_drop)

declare json_escape.simps [simp del]

section \<open>Scanning\<close>

text \<open>
  The scanner's view of a string literal, behind its opening quote: the bytes up to the closing quote
  and what follows it. Control characters and unknown escapes are errors; bytes from 128 on are not checked.
\<close>

definition simple_escapes :: string where
  "simple_escapes = dquote # backslash # ''/bfnrt''"

function scan_body :: "string \<Rightarrow> (string \<times> string) option" where
  "scan_body s =
     (case s of
        [] \<Rightarrow> None
      | c # s1 \<Rightarrow>
          if c = dquote then Some ([], s1)
          else if c = backslash then
            (case s1 of
               [] \<Rightarrow> None
             | e # s2 \<Rightarrow>
                 if e \<in> set simple_escapes then
                   map_option (\<lambda>(b, rest). (c # e # b, rest)) (scan_body s2)
                 else if e = CHR ''u'' \<and> 4 \<le> length s2 \<and> list_all is_hex (take 4 s2) then
                   map_option (\<lambda>(b, rest). (c # e # take 4 s2 @ b, rest)) (scan_body (drop 4 s2))
                 else None)
          else if ord c < 0x20 then None
          else map_option (\<lambda>(b, rest). (c # b, rest)) (scan_body s1))"
  by pat_completeness auto
termination
  by (relation "measure length") auto

declare scan_body.simps [simp del]

lemma scan_body_Nil [simp]: "scan_body [] = None"
  by (simp add: scan_body.simps)

lemma scan_body_close [simp]: "scan_body (dquote # s) = Some ([], s)"
  by (simp add: scan_body.simps)

lemma scan_body_escape [simp]:
  "e \<in> set simple_escapes \<Longrightarrow>
   scan_body (backslash # e # s) = map_option (\<lambda>(b, rest). (backslash # e # b, rest)) (scan_body s)"
  by (subst scan_body.simps) simp

lemma u_not_simple: "CHR ''u'' \<notin> set simple_escapes"
  by (simp add: simple_escapes_def)

lemma scan_body_unicode [simp]:
  "length h = 4 \<Longrightarrow> list_all is_hex h \<Longrightarrow>
   scan_body (backslash # CHR ''u'' # h @ s) =
     map_option (\<lambda>(b, rest). (backslash # CHR ''u'' # h @ b, rest)) (scan_body s)"
  by (subst scan_body.simps) (simp add: u_not_simple)

lemma scan_body_plain [simp]:
  "c \<noteq> dquote \<Longrightarrow> c \<noteq> backslash \<Longrightarrow> 0x20 \<le> ord c \<Longrightarrow>
   scan_body (c # s) = map_option (\<lambda>(b, rest). (c # b, rest)) (scan_body s)"
  by (subst scan_body.simps) simp

lemma scan_body_backslash [simp]: "scan_body [backslash] = None"
  by (subst scan_body.simps) simp

lemma scan_body_control [simp]:
  "c \<noteq> dquote \<Longrightarrow> c \<noteq> backslash \<Longrightarrow> ord c < 0x20 \<Longrightarrow> scan_body (c # s) = None"
  by (subst scan_body.simps) simp

text \<open>What the scanner accepts between the quotes.\<close>

inductive string_body :: "string \<Rightarrow> bool" where
  body_Nil [intro]: "string_body []"
| body_plain [intro]:
    "c \<noteq> dquote \<Longrightarrow> c \<noteq> backslash \<Longrightarrow> 0x20 \<le> ord c \<Longrightarrow> string_body b \<Longrightarrow> string_body (c # b)"
| body_escape [intro]:
    "e \<in> set simple_escapes \<Longrightarrow> string_body b \<Longrightarrow> string_body (backslash # e # b)"
| body_unicode [intro]:
    "length h = 4 \<Longrightarrow> list_all is_hex h \<Longrightarrow> string_body b \<Longrightarrow> string_body (backslash # CHR ''u'' # h @ b)"

lemma scan_body_accepts: "string_body b \<Longrightarrow> scan_body (b @ dquote # rest) = Some (b, rest)"
  by (induction rule: string_body.induct) simp_all

lemma scan_body_cases [consumes 1, case_names close escape unicode plain]:
  assumes "scan_body s = Some (b, rest)"
  obtains "s = dquote # rest" "b = []"
  | e s' b' where "s = backslash # e # s'" "e \<in> set simple_escapes" "scan_body s' = Some (b', rest)"
      "b = backslash # e # b'"
  | h s' b' where "s = backslash # CHR ''u'' # h @ s'" "length h = 4" "list_all is_hex h"
      "scan_body s' = Some (b', rest)" "b = backslash # CHR ''u'' # h @ b'"
  | c s' b' where "s = c # s'" "c \<noteq> dquote" "c \<noteq> backslash" "0x20 \<le> ord c"
      "scan_body s' = Some (b', rest)" "b = c # b'"
proof (cases s)
  case Nil
  then show thesis using assms by simp
next
  case (Cons c s1)
  show thesis
  proof (cases "c = backslash")
    case False
    then show thesis
      using assms Cons that(1,4) by (cases "c = dquote"; cases "ord c < 0x20") auto
  next
    case True
    then obtain e s2 where s: "s = backslash # e # s2"
      using assms Cons by (cases s1) auto
    show thesis
    proof (cases "e \<in> set simple_escapes")
      case True
      then show thesis using assms s that(2) by auto
    next
      case False
      then have "e = CHR ''u''" "4 \<le> length s2" "list_all is_hex (take 4 s2)"
        using assms s by (auto simp: scan_body.simps [of "backslash # e # s2"] split: if_splits)
      then show thesis
        using assms s that(3) [of "take 4 s2" "drop 4 s2"] scan_body_unicode [of "take 4 s2" "drop 4 s2"]
        by (cases "scan_body (drop 4 s2)") auto
    qed
  qed
qed

lemma scan_body_exact: "scan_body s = Some (b, rest) \<longleftrightarrow> string_body b \<and> s = b @ dquote # rest"
proof
  assume "scan_body s = Some (b, rest)"
  then show "string_body b \<and> s = b @ dquote # rest"
  proof (induction s arbitrary: b rule: length_induct)
    case (1 s)
    from "1.prems" show ?case
    proof (cases rule: scan_body_cases)
      case (escape e s' b')
      moreover from this have "string_body b' \<and> s' = b' @ dquote # rest"
        using "1.IH" [rule_format, of s' b'] by simp
      ultimately show ?thesis using body_escape [of e b'] by simp
    next
      case (unicode h s' b')
      moreover from this have "string_body b' \<and> s' = b' @ dquote # rest"
        using "1.IH" [rule_format, of s' b'] by simp
      ultimately show ?thesis using body_unicode [of h b'] by simp
    qed (use "1.IH" in auto)
  qed
qed (auto simp: scan_body_accepts)

section \<open>Reading\<close>

text \<open>
  \<^verbatim>\<open>unquoteBytes\<close>, on the bytes between the quotes; \<open>None\<close> is its \<^verbatim>\<open>ok == false\<close>. A pair of surrogates
  gives one rune, a lone one the replacement character.
\<close>

definition surrogate_pair :: "nat \<Rightarrow> nat option \<Rightarrow> nat option" where
  "surrogate_pair rr rr1 =
     (case rr1 of
        None \<Rightarrow> None
      | Some r1 \<Rightarrow>
          if 0xD800 \<le> rr \<and> rr < 0xDC00 \<and> 0xDC00 \<le> r1 \<and> r1 < 0xE000
          then Some ((rr - 0xD800) * 1024 + (r1 - 0xDC00) + 0x10000) else None)"

definition short_escape :: "char \<Rightarrow> char option" where
  "short_escape e =
     (if e \<in> {dquote, backslash, CHR ''/'', CHR 0x27} then Some e
      else if e = CHR ''b'' then Some CHR 0x08
      else if e = CHR ''f'' then Some CHR 0x0C
      else if e = CHR ''n'' then Some CHR 0x0A
      else if e = CHR ''r'' then Some CHR 0x0D
      else if e = CHR ''t'' then Some CHR 0x09
      else None)"

function unquote :: "string \<Rightarrow> string option" where
  "unquote s =
     (case s of
        [] \<Rightarrow> Some []
      | c # s1 \<Rightarrow>
          if c = backslash then
            (case s1 of
               [] \<Rightarrow> None
             | e # s2 \<Rightarrow>
                 if e = CHR ''u'' then
                   (case getu4 s of
                      None \<Rightarrow> None
                    | Some rr \<Rightarrow>
                        let t = drop 6 s
                        in if is_surrogate rr then
                             (case surrogate_pair rr (getu4 t) of
                                Some dec \<Rightarrow> map_option ((@) (encode_rune dec)) (unquote (drop 6 t))
                              | None \<Rightarrow> map_option ((@) (encode_rune RuneError)) (unquote t))
                           else map_option ((@) (encode_rune rr)) (unquote t))
                 else (case short_escape e of
                         None \<Rightarrow> None
                       | Some b \<Rightarrow> map_option ((#) b) (unquote s2)))
          else if c = dquote \<or> ord c < 0x20 then None
          else if ord c < 0x80 then map_option ((#) c) (unquote s1)
          else let (r, n) = decode_rune s
               in map_option ((@) (encode_rune r)) (unquote (drop n s)))"
  by pat_completeness auto
termination
proof (relation "measure length", goal_cases)
  case (7 s c s1 x r n)
  then show ?case using decode_rune_drop [of s x r n] by auto
qed auto

declare unquote.simps [simp del]

lemma scan_body_shorter: "scan_body s = Some (b, rest) \<Longrightarrow> length rest < length s"
  by (auto simp: scan_body_exact)

section \<open>What is written is read back\<close>

lemma json_escape_Nil [simp]: "json_escape [] = []"
  by (simp add: json_escape.simps)

lemma json_escape_ascii: "ord c < 0x80 \<Longrightarrow> json_escape (c # s) = escape_char c @ json_escape s"
  by (subst json_escape.simps) simp

lemma json_escape_invalid:
  "decode_rune (c # s) = (RuneError, 1) \<Longrightarrow> 0x80 \<le> ord c \<Longrightarrow>
   json_escape (c # s) = backslash # CHR ''u'' # ''fffd'' @ json_escape s"
  by (subst json_escape.simps) simp

text \<open>The text written for one rune that is not ASCII.\<close>

definition escape_rune :: "string \<Rightarrow> nat \<Rightarrow> string" where
  "escape_rune p r =
     (if r = 0x2028 \<or> r = 0x2029 then backslash # CHR ''u'' # ''202'' @ [hex_digit (r mod 16)] else p)"

lemma json_escape_rune:
  "rune_at p r \<Longrightarrow> 1 < length p \<Longrightarrow> json_escape (p @ s) = escape_rune p r @ json_escape s"
proof -
  assume "rune_at p r" "1 < length p"
  moreover from this have "0x80 \<le> ord (hd (p @ s))" by (cases p) (auto simp: rune_at_def)
  ultimately show ?thesis
    by (subst json_escape.simps) (auto simp: rune_atD escape_rune_def)
qed

lemma rune_at_single: "rune_at p r \<Longrightarrow> length p = 1 \<Longrightarrow> \<exists>c. p = [c] \<and> ord c < 0x80 \<and> r = ord c"
proof -
  assume p: "rune_at p r" "length p = 1"
  then obtain c where c: "p = [c]" by (cases p) auto
  have "r < 0x80" using p by (simp add: rune_at_def)
  then have "encode_rune r = [char_of r]" by (simp add: encode_rune_def is_surrogate_def)
  then have "c = char_of r" using p c by (simp add: rune_at_def)
  then show ?thesis using c \<open>r < 0x80\<close> by simp
qed

text \<open>The three cases of a string: an ASCII byte, an invalid byte, a longer rune.\<close>

lemma json_induct [case_names Nil ascii invalid rune]:
  assumes "P []"
    and "\<And>c s. ord c < 0x80 \<Longrightarrow> P s \<Longrightarrow> P (c # s)"
    and "\<And>c s. decode_rune (c # s) = (RuneError, 1) \<Longrightarrow> 0x80 \<le> ord c \<Longrightarrow> P s \<Longrightarrow> P (c # s)"
    and "\<And>p r s. rune_at p r \<Longrightarrow> 1 < length p \<Longrightarrow> P s \<Longrightarrow> P (p @ s)"
  shows "P s"
proof (induction s rule: utf8_induct)
  case (rune p r s)
  show ?case
  proof (cases "length p = 1")
    case True
    then obtain c where "p = [c]" "ord c < 0x80" using rune_at_single [OF rune(1)] by auto
    then show ?thesis using assms(2) [of c s] rune(2) by simp
  next
    case False
    moreover have "p \<noteq> []" using rune(1) by (simp add: rune_at_def)
    ultimately have "1 < length p" by (cases p) auto
    then show ?thesis using assms(4) rune by simp
  qed
qed (use assms in auto)

lemma hex_pair: "n < 256 \<Longrightarrow> n div 16 < 16 \<and> n mod 16 < (16 :: nat)"
  by auto

lemma ord_special:
  "ord CHR 0x08 = 8" "ord CHR 0x0C = 12" "ord CHR 0x0A = 10" "ord CHR 0x0D = 13" "ord CHR 0x09 = 9"
  by (simp_all add: ord_def)

lemma string_body_escape_char:
  assumes "ord c < 0x80" and "string_body b"
  shows "string_body (escape_char c @ b)"
proof -
  let ?h = "[CHR ''0'', CHR ''0'', hex_digit (ord c div 16), hex_digit (ord c mod 16)]"
  have "list_all is_hex ?h" using hex_pair [of "ord c"] assms(1) by simp
  then have "string_body (backslash # CHR ''u'' # ?h @ b)" using assms(2) by (intro body_unicode) simp_all
  moreover have "string_body (backslash # e # b)" if "e \<in> set simple_escapes" for e
    using that assms(2) by (rule body_escape)
  ultimately show ?thesis
    using assms(2) by (auto simp: escape_char_def html_safe_def simple_escapes_def)
qed

lemma string_body_high: "\<forall>c \<in> set p. 0x80 \<le> ord c \<Longrightarrow> string_body b \<Longrightarrow> string_body (p @ b)"
proof (induction p)
  case (Cons c p)
  then have "c \<noteq> dquote" "c \<noteq> backslash" by (auto simp: ord_def)
  then show ?case using Cons by auto
qed simp

lemma string_body_json_escape: "string_body (json_escape s)"
proof (induction s rule: json_induct)
  case (ascii c s)
  then show ?case by (simp add: json_escape_ascii string_body_escape_char)
next
  case (invalid c s)
  then show ?case using body_unicode [of "''fffd''"] by (simp add: json_escape_invalid)
next
  case (rune p r s)
  have "r mod 16 < 16" by simp
  then have "string_body (backslash # CHR ''u'' # (''202'' @ [hex_digit (r mod 16)]) @ json_escape s)"
    using rune(3) by (intro body_unicode) simp_all
  moreover have "string_body (p @ json_escape s)"
    using rune by (intro string_body_high) (auto simp: rune_at_def)
  ultimately show ?case using rune by (simp add: json_escape_rune escape_rune_def)
qed (auto simp: json_escape_Nil)

lemma unquote_Nil [simp]: "unquote [] = Some []"
  by (simp add: unquote.simps)

lemma unquote_ascii:
  "c \<noteq> backslash \<Longrightarrow> c \<noteq> dquote \<Longrightarrow> 0x20 \<le> ord c \<Longrightarrow> ord c < 0x80 \<Longrightarrow>
   unquote (c # s) = map_option ((#) c) (unquote s)"
  by (subst unquote.simps) simp

lemma unquote_high:
  "0x80 \<le> ord c \<Longrightarrow> unquote (c # s) =
     (case decode_rune (c # s) of (r, n) \<Rightarrow> map_option ((@) (encode_rune r)) (unquote (drop n (c # s))))"
proof -
  assume "0x80 \<le> ord c"
  moreover from this have "c \<noteq> backslash" "c \<noteq> dquote" by (auto simp: ord_def)
  ultimately show ?thesis by (subst unquote.simps) simp
qed

lemma unquote_rune:
  assumes "rune_at p r" and "1 < length p"
  shows "unquote (p @ s) = map_option ((@) p) (unquote s)"
proof -
  obtain c q where p: "p = c # q" using assms(2) by (cases p) auto
  then have "0x80 \<le> ord c" using assms by (simp add: rune_at_def)
  then show ?thesis
    using unquote_high [of c "q @ s"] rune_atD(1) [OF assms(1), of s] rune_atD(2) [OF assms(1)]
    by (simp add: p)
qed

lemma unquote_escape:
  "short_escape e = Some b \<Longrightarrow> e \<noteq> CHR ''u'' \<Longrightarrow>
   unquote (backslash # e # s) = map_option ((#) b) (unquote s)"
  by (subst unquote.simps) simp

lemma unquote_unicode:
  "getu4 (backslash # CHR ''u'' # h @ s) = Some r \<Longrightarrow> length h = 4 \<Longrightarrow> \<not> is_surrogate r \<Longrightarrow>
   unquote (backslash # CHR ''u'' # h @ s) = map_option ((@) (encode_rune r)) (unquote s)"
  by (subst unquote.simps) simp

lemma getu4_hex:
  "hex_value h1 = Some a1 \<Longrightarrow> hex_value h2 = Some a2 \<Longrightarrow> hex_value h3 = Some a3 \<Longrightarrow> hex_value h4 = Some a4 \<Longrightarrow>
   getu4 (backslash # CHR ''u'' # [h1, h2, h3, h4] @ s) = Some (((a1 * 16 + a2) * 16 + a3) * 16 + a4)"
  by (simp add: getu4_def)

lemma hex_lits:
  "hex_value CHR ''0'' = Some 0" "hex_value CHR ''2'' = Some 2" "hex_value CHR ''f'' = Some 15"
  "hex_value CHR ''d'' = Some 13"
  by (simp_all add: hex_value_def ord_def)

lemma unquote_control:
  assumes "ord c < 0x80"
  shows "unquote (backslash # CHR ''u'' # [CHR ''0'', CHR ''0'', hex_digit (ord c div 16), hex_digit (ord c mod 16)] @ s) =
    map_option ((#) c) (unquote s)"
proof -
  let ?h = "[CHR ''0'', CHR ''0'', hex_digit (ord c div 16), hex_digit (ord c mod 16)]"
  have "getu4 (backslash # CHR ''u'' # ?h @ s) = Some (((0 * 16 + 0) * 16 + ord c div 16) * 16 + ord c mod 16)"
    using assms by (intro getu4_hex hex_lits hex_value_digit) simp_all
  then have "getu4 (backslash # CHR ''u'' # ?h @ s) = Some (ord c)" by simp
  then have "unquote (backslash # CHR ''u'' # ?h @ s) = map_option ((@) (encode_rune (ord c))) (unquote s)"
    using assms by (intro unquote_unicode) (simp_all add: is_surrogate_def)
  moreover have "encode_rune (ord c) = [c]" using rune_atD(2) [OF rune_at_ascii] assms by simp
  ultimately show ?thesis by (cases "unquote s") simp_all
qed

lemma short_escape_simps:
  "short_escape backslash = Some backslash" "short_escape dquote = Some dquote"
  "short_escape CHR ''b'' = Some CHR 0x08" "short_escape CHR ''f'' = Some CHR 0x0C"
  "short_escape CHR ''n'' = Some CHR 0x0A" "short_escape CHR ''r'' = Some CHR 0x0D"
  "short_escape CHR ''t'' = Some CHR 0x09"
  by (simp_all add: short_escape_def)

lemma unquote_escape_char:
  assumes "ord c < 0x80"
  shows "unquote (escape_char c @ s) = map_option ((#) c) (unquote s)"
proof (cases "html_safe c")
  case True
  then show ?thesis by (simp add: escape_char_def html_safe_def unquote_ascii)
next
  case False
  then show ?thesis
    using unquote_control [OF assms, of s]
    by (auto simp: escape_char_def unquote_escape short_escape_simps)
qed

text \<open>Reading what was written gives the string with every invalid byte replaced.\<close>

lemma unquote_json_escape: "unquote (json_escape s) = Some (to_valid s)"
proof (induction s rule: json_induct)
  case (ascii c s)
  then show ?case using to_valid_rune [OF rune_at_ascii, of c s]
    by (simp add: json_escape_ascii unquote_escape_char)
next
  case (invalid c s)
  have "getu4 (backslash # CHR ''u'' # ''fffd'' @ json_escape s) = Some (((15 * 16 + 15) * 16 + 15) * 16 + 13)"
    by (intro getu4_hex hex_lits)
  then have "getu4 (backslash # CHR ''u'' # ''fffd'' @ json_escape s) = Some RuneError"
    by (simp add: RuneError_def)
  then have "unquote (backslash # CHR ''u'' # ''fffd'' @ json_escape s) =
      map_option ((@) (encode_rune RuneError)) (unquote (json_escape s))"
    by (intro unquote_unicode) (simp_all add: is_surrogate_def RuneError_def)
  then show ?case using invalid by (simp add: json_escape_invalid to_valid_invalid)
next
  case (rune p r s)
  have "unquote (escape_rune p r @ json_escape s) = map_option ((@) p) (unquote (json_escape s))"
  proof (cases "r = 0x2028 \<or> r = 0x2029")
    case True
    then have m: "r mod 16 < 16" "(((2 * 16 + 0) * 16 + 2) * 16) + r mod 16 = r" by auto
    let ?h = "[CHR ''2'', CHR ''0'', CHR ''2'', hex_digit (r mod 16)]"
    have "getu4 (backslash # CHR ''u'' # ?h @ json_escape s) = Some (((2 * 16 + 0) * 16 + 2) * 16 + r mod 16)"
      using m(1) by (intro getu4_hex hex_lits hex_value_digit)
    then have "unquote (backslash # CHR ''u'' # ?h @ json_escape s) =
        map_option ((@) (encode_rune r)) (unquote (json_escape s))"
      unfolding m(2) using True by (intro unquote_unicode) (auto simp: is_surrogate_def)
    then show ?thesis using True rune by (simp add: escape_rune_def rune_atD)
  next
    case False
    then show ?thesis using rune by (simp add: escape_rune_def unquote_rune)
  qed
  then show ?case using rune by (simp add: json_escape_rune to_valid_rune)
qed simp

section \<open>What is scanned can be read\<close>

text \<open>
  \<^verbatim>\<open>unquoteBytes\<close> never fails on what the scanner accepted, so the panic that \<^verbatim>\<open>encoding/json\<close> keeps for
  that case does not happen.
\<close>

inductive_cases string_body_ConsE: "string_body (c # b)"

lemma string_body_high_tail: "string_body (p @ b) \<Longrightarrow> \<forall>c \<in> set p. 0x80 \<le> ord c \<Longrightarrow> string_body b"
proof (induction p)
  case (Cons c p)
  have "c \<noteq> backslash" using Cons.prems by (auto simp: ord_def)
  moreover have "string_body (c # p @ b)" using Cons.prems by simp
  ultimately have "string_body (p @ b)" by (auto elim: string_body_ConsE)
  then show ?case using Cons by simp
qed simp

lemma getu4_of_hex:
  assumes "length h = 4" "list_all is_hex h"
  shows "\<exists>r. getu4 (backslash # CHR ''u'' # h @ s) = Some r"
proof -
  obtain h1 h2 h3 h4 where h: "h = [h1, h2, h3, h4]"
    using assms(1) by (auto simp: numeral_eq_Suc length_Suc_conv)
  then show ?thesis using assms(2) by (auto simp: getu4_def is_hex_def)
qed

lemma getu4_Some_body:
  assumes "getu4 b = Some r" "string_body b"
  shows "string_body (drop 6 b)"
proof -
  obtain c where "b = backslash # CHR ''u'' # c"
    using assms(1) by (auto simp: getu4_def split: list.splits if_splits)
  then show ?thesis
    using assms(2) by (auto elim!: string_body_ConsE simp: u_not_simple)
qed

lemma simple_escape_short: "e \<in> set simple_escapes \<Longrightarrow> \<exists>b. short_escape e = Some b \<and> e \<noteq> CHR ''u''"
  by (auto simp: simple_escapes_def short_escape_def)

lemma unquote_body: "string_body b \<Longrightarrow> \<exists>t. unquote b = Some t"
proof (induction b rule: length_induct)
  case (1 b)
  have IH: "\<exists>t. unquote b' = Some t" if "length b' < length b" "string_body b'" for b'
    using 1 that by blast
  from "1.prems" show ?case
  proof (cases rule: string_body.cases)
    case (body_plain c b')
    show ?thesis
    proof (cases "ord c < 0x80")
      case True
      then show ?thesis using body_plain IH [of b'] by (auto simp: unquote_ascii)
    next
      case False
      have "b \<noteq> []" by (simp add: body_plain)
      then show ?thesis
      proof (cases b rule: decode_rune_cases)
        case invalid
        then show ?thesis using body_plain False IH [of b'] by (auto simp: unquote_high)
      next
        case (rune p r rest)
        have "length p \<noteq> 1" using rune_at_single [OF rune(2)] rune(1) body_plain False by auto
        moreover have ne: "p \<noteq> []" using rune(2) by (simp add: rune_at_def)
        ultimately have p: "1 < length p" by (cases p) auto
        then have "string_body rest"
          using string_body_high_tail [of p rest] "1.prems" rune by (auto simp: rune_at_def)
        then show ?thesis
          using IH [of rest] unquote_rune [OF rune(2) p, of rest] rune(1) ne by auto
      qed
    qed
  next
    case (body_escape e b')
    then show ?thesis using IH [of b'] simple_escape_short [of e] by (auto simp: unquote_escape)
  next
    case (body_unicode h b')
    then obtain r where r: "getu4 b = Some r" using getu4_of_hex [of h b'] by auto
    have d: "drop 6 b = b'" using body_unicode by simp
    have "\<exists>t. unquote b' = Some t" "\<exists>t. unquote (drop 6 b') = Some t" if "getu4 b' \<noteq> None"
      using IH [of b'] IH [of "drop 6 b'"] getu4_Some_body [of b'] body_unicode that by auto
    moreover have "\<exists>t. unquote b' = Some t" using IH [of b'] body_unicode by auto
    moreover have "surrogate_pair r None = None" by (simp add: surrogate_pair_def)
    ultimately show ?thesis
      using body_unicode r d
      by (subst unquote.simps) (cases "getu4 b'"; auto simp: Let_def split: option.splits)
  qed simp
qed

end
