(* ===== verification/Json.thy ===== *)
theory Json
  imports Json_String Decimal
begin

text \<open>
  JSON documents as Go's \<^verbatim>\<open>encoding/json\<close> scans them: \<open>json_parse\<close> accepts what \<^verbatim>\<open>checkValid\<close>
  accepts, with its limit of 10000 on the nesting, and gives the document as a tree that keeps the text of
  numbers and the undecoded bodies of strings, which is what the decoder looks at. \<open>json_text\<close> is
  the compact text \<^verbatim>\<open>json.Marshal\<close> writes. What is written parses back.
\<close>

datatype json =
    JNull
  | JBool bool
  | JNumber string
  | JString string
  | JArray "json list"
  | JObject "(string \<times> json) list"

section \<open>Parsing\<close>

definition is_ws :: "char \<Rightarrow> bool" where
  "is_ws c \<longleftrightarrow> c = CHR '' '' \<or> c = CHR 0x09 \<or> c = CHR 0x0A \<or> c = CHR 0x0D"

abbreviation skip_ws :: "string \<Rightarrow> string" where
  "skip_ws \<equiv> dropWhile is_ws"

definition is_digit :: "char \<Rightarrow> bool" where
  "is_digit c \<longleftrightarrow> 48 \<le> ord c \<and> ord c \<le> 57"

text \<open>Numbers: an optional sign, an integer part without leading zeros, a fraction, an exponent.\<close>

definition scan_int :: "string \<Rightarrow> (string \<times> string) option" where
  "scan_int s =
     (case s of
        [] \<Rightarrow> None
      | c # t \<Rightarrow>
          if c = CHR ''0'' then Some ([c], t)
          else if is_digit c then Some (takeWhile is_digit s, dropWhile is_digit s)
          else None)"

definition scan_digits1 :: "string \<Rightarrow> (string \<times> string) option" where
  "scan_digits1 s = (if takeWhile is_digit s = [] then None else Some (takeWhile is_digit s, dropWhile is_digit s))"

definition scan_frac :: "string \<Rightarrow> (string \<times> string) option" where
  "scan_frac s =
     (case s of
        [] \<Rightarrow> Some ([], [])
      | c # t \<Rightarrow> if c = CHR ''.'' then map_option (apfst ((#) c)) (scan_digits1 t) else Some ([], s))"

definition scan_exp :: "string \<Rightarrow> (string \<times> string) option" where
  "scan_exp s =
     (case s of
        [] \<Rightarrow> Some ([], [])
      | c # t \<Rightarrow>
          if c = CHR ''e'' \<or> c = CHR ''E'' then
            (case t of
               [] \<Rightarrow> None
             | sg # u \<Rightarrow>
                 if sg = CHR ''+'' \<or> sg = CHR ''-'' then map_option (apfst (\<lambda>b. c # sg # b)) (scan_digits1 u)
                 else map_option (apfst ((#) c)) (scan_digits1 t))
          else Some ([], s))"

definition scan_number :: "string \<Rightarrow> (string \<times> string) option" where
  "scan_number s =
     (let (sg, s1) = (if s \<noteq> [] \<and> hd s = CHR ''-'' then ([hd s], tl s) else ([], s))
      in Option.bind (scan_int s1) (\<lambda>(i, s2).
           Option.bind (scan_frac s2) (\<lambda>(f, s3).
             map_option (\<lambda>(e, s4). (sg @ i @ f @ e, s4)) (scan_exp s3))))"

lemma skip_ws_le: "length (skip_ws s) \<le> length s"
  by (rule length_dropWhile_le)

lemma skip_ws_Cons_less: "skip_ws s = c # t \<Longrightarrow> length t < length s"
  using skip_ws_le [of s] by simp

text \<open>
  \<open>json_value d\<close> reads a value of which at most \<open>d\<close> objects and arrays are nested, and returns it
  with the rest of the input; \<open>json_members\<close> and \<open>json_elems\<close> read the entries of a nonempty object
  or array up to its closing bracket. The comparisons of lengths hold always (\<open>json_shorter\<close>); they make the
  termination of the recursion evident.
\<close>

function json_value :: "nat \<Rightarrow> string \<Rightarrow> (json \<times> string) option"
  and json_members :: "nat \<Rightarrow> string \<Rightarrow> ((string \<times> json) list \<times> string) option"
  and json_elems :: "nat \<Rightarrow> string \<Rightarrow> (json list \<times> string) option" where
  "json_value d s =
     (case skip_ws s of
        [] \<Rightarrow> None
      | c # t \<Rightarrow>
          if c = dquote then map_option (apfst JString) (scan_body t)
          else if c = CHR ''{'' then
            if d = 0 then None
            else if skip_ws t \<noteq> [] \<and> hd (skip_ws t) = CHR ''}'' then Some (JObject [], tl (skip_ws t))
            else map_option (apfst JObject) (json_members (d - 1) t)
          else if c = CHR ''['' then
            if d = 0 then None
            else if skip_ws t \<noteq> [] \<and> hd (skip_ws t) = CHR '']'' then Some (JArray [], tl (skip_ws t))
            else map_option (apfst JArray) (json_elems (d - 1) t)
          else if take 4 (c # t) = ''true'' then Some (JBool True, drop 4 (c # t))
          else if take 5 (c # t) = ''false'' then Some (JBool False, drop 5 (c # t))
          else if take 4 (c # t) = ''null'' then Some (JNull, drop 4 (c # t))
          else map_option (apfst JNumber) (scan_number (c # t)))"
| "json_members d s =
     (case skip_ws s of
        [] \<Rightarrow> None
      | c # t \<Rightarrow>
          if c \<noteq> dquote then None
          else case scan_body t of
            None \<Rightarrow> None
          | Some (k, t1) \<Rightarrow>
              (case skip_ws t1 of
                 [] \<Rightarrow> None
               | c1 # t2 \<Rightarrow>
                   if c1 \<noteq> CHR '':'' then None
                   else case json_value d t2 of
                     None \<Rightarrow> None
                   | Some (v, t3) \<Rightarrow>
                       if length t3 < length t2 then
                         (case skip_ws t3 of
                            [] \<Rightarrow> None
                          | c3 # t4 \<Rightarrow>
                              if c3 = CHR ''}'' then Some ([(k, v)], t4)
                              else if c3 = CHR '','' then map_option (apfst ((#) (k, v))) (json_members d t4)
                              else None)
                       else None))"
| "json_elems d s =
     (case json_value d s of
        None \<Rightarrow> None
      | Some (v, t) \<Rightarrow>
          if length t < length s then
            (case skip_ws t of
               [] \<Rightarrow> None
             | c # u \<Rightarrow>
                 if c = CHR '']'' then Some ([v], u)
                 else if c = CHR '','' then map_option (apfst ((#) v)) (json_elems d u)
                 else None)
          else None)"
  by pat_completeness auto
termination
  by (relation "measure (\<lambda>x. case x of Inl (d, s) \<Rightarrow> 2 * length s
        | Inr (Inl (d, s)) \<Rightarrow> 2 * length s + 1 | Inr (Inr (d, s)) \<Rightarrow> 2 * length s + 1)")
    (auto dest!: skip_ws_Cons_less scan_body_shorter)

declare json_value.simps [simp del] json_members.simps [simp del] json_elems.simps [simp del]

definition json_parse :: "string \<Rightarrow> json option" where
  "json_parse s =
     (case json_value 10000 s of
        None \<Rightarrow> None
      | Some (v, rest) \<Rightarrow> if skip_ws rest = [] then Some v else None)"

section \<open>Every read makes progress\<close>

lemma scan_digits1_shorter: "scan_digits1 s = Some (b, r) \<Longrightarrow> length r < length s"
  by (cases s) (auto simp: scan_digits1_def le_imp_less_Suc length_dropWhile_le split: if_splits)

lemma scan_int_shorter: "scan_int s = Some (b, r) \<Longrightarrow> length r < length s"
  by (auto simp: scan_int_def le_imp_less_Suc length_dropWhile_le split: list.splits if_splits)

lemma scan_frac_le: "scan_frac s = Some (b, r) \<Longrightarrow> length r \<le> length s"
  by (auto simp: scan_frac_def split: list.splits if_splits dest!: scan_digits1_shorter)

lemma scan_exp_le: "scan_exp s = Some (b, r) \<Longrightarrow> length r \<le> length s"
  by (auto simp: scan_exp_def split: list.splits if_splits dest!: scan_digits1_shorter)

lemma scan_number_shorter:
  assumes "scan_number s = Some (b, r)"
  shows "length r < length s"
proof -
  let ?s1 = "if s \<noteq> [] \<and> hd s = CHR ''-'' then tl s else s"
  obtain i s2 f s3 e where n: "scan_int ?s1 = Some (i, s2)" "scan_frac s2 = Some (f, s3)" "scan_exp s3 = Some (e, r)"
    using assms by (auto simp: scan_number_def bind_eq_Some_conv split: if_splits)
  have "length ?s1 \<le> length s" by simp
  then show ?thesis
    using scan_int_shorter [OF n(1)] scan_frac_le [OF n(2)] scan_exp_le [OF n(3)] by linarith
qed

abbreviation starts :: "char \<Rightarrow> string \<Rightarrow> bool" where
  "starts c s \<equiv> s \<noteq> [] \<and> hd s = c"

lemma json_value_shorter:
  assumes "json_value d s = Some (v, r)"
    and members: "\<And>t ms r. skip_ws s = CHR ''{'' # t \<Longrightarrow> d \<noteq> 0 \<Longrightarrow> \<not> starts CHR ''}'' (skip_ws t) \<Longrightarrow>
      json_members (d - 1) t = Some (ms, r) \<Longrightarrow> length r < length t"
    and elems: "\<And>t xs r. skip_ws s = CHR ''['' # t \<Longrightarrow> d \<noteq> 0 \<Longrightarrow> \<not> starts CHR '']'' (skip_ws t) \<Longrightarrow>
      json_elems (d - 1) t = Some (xs, r) \<Longrightarrow> length r < length t"
  shows "length r < length s"
proof -
  obtain c t where ct: "skip_ws s = c # t" using assms(1) by (auto simp: json_value.simps split: list.splits)
  have lt: "length t < length s" using skip_ws_Cons_less [OF ct] .
  have tl: "length (tl (skip_ws t)) \<le> length t" using skip_ws_le [of t] by simp
  have dr: "length (drop n (c # t)) < length s" if "0 < n" for n using lt that by (cases n) auto
  consider "length r < length t" | "r = tl (skip_ws t)" | n where "0 < n" "r = drop n (c # t)"
    | "length r < length (c # t)"
  proof -
    assume *: "length r < length t \<Longrightarrow> thesis" "r = tl (skip_ws t) \<Longrightarrow> thesis"
      "\<And>n. 0 < n \<Longrightarrow> r = drop n (c # t) \<Longrightarrow> thesis" "length r < length (c # t) \<Longrightarrow> thesis"
    show thesis
      using assms(1) unfolding json_value.simps [of d s] ct list.case
      using *(3) [of 4] *(3) [of 5] *(1,2,4) members [of t] elems [of t] ct
      by (auto split: if_splits dest: scan_body_shorter scan_number_shorter)
  qed
  then show ?thesis by cases (use lt tl dr skip_ws_le [of s] ct in auto)
qed

lemma json_shorter:
  "json_value d s = Some (v, r) \<Longrightarrow> length r < length s"
  "json_members d s = Some (ms, r) \<Longrightarrow> length r < length s"
  "json_elems d s = Some (xs, r) \<Longrightarrow> length r < length s"
proof (induction d s and d s and d s arbitrary: v r and ms r and xs r
    rule: json_value_json_members_json_elems.induct)
  case (1 d s)
  show ?case
  proof (rule json_value_shorter [OF "1.prems"])
    fix t ms r
    assume "skip_ws s = CHR ''{'' # t" "d \<noteq> 0" "\<not> starts CHR ''}'' (skip_ws t)"
      and "json_members (d - 1) t = Some (ms, r)"
    then show "length r < length t" by (intro "1.IH"(1)) simp_all
  next
    fix t xs r
    assume "skip_ws s = CHR ''['' # t" "d \<noteq> 0" "\<not> starts CHR '']'' (skip_ws t)"
      and "json_elems (d - 1) t = Some (xs, r)"
    then show "length r < length t" by (intro "1.IH"(2)) simp_all
  qed
next
  case (2 d s)
  obtain t k t1 t2 w t3 c t4 where m: "skip_ws s = dquote # t" "scan_body t = Some (k, t1)"
      "skip_ws t1 = CHR '':'' # t2" "json_value d t2 = Some (w, t3)" "length t3 < length t2"
      "skip_ws t3 = c # t4" "c = CHR ''}'' \<and> r = t4 \<or> c = CHR '','' \<and> (\<exists>ms'. json_members d t4 = Some (ms', r))"
    using "2.prems" unfolding json_members.simps [of d s]
    by (auto split: list.splits if_splits option.splits)
  have "length r \<le> length t4"
    using m(7) "2.IH"(2) [OF m(1) _ m(2) refl m(3) _ m(4) refl m(5) m(6)] by fastforce
  then show ?case
    using skip_ws_Cons_less [OF m(1)] scan_body_shorter [OF m(2)] skip_ws_Cons_less [OF m(3)] m(5)
      skip_ws_Cons_less [OF m(6)] by linarith
next
  case (3 d s)
  obtain w t c u where m: "json_value d s = Some (w, t)" "length t < length s" "skip_ws t = c # u"
      "c = CHR '']'' \<and> r = u \<or> c = CHR '','' \<and> (\<exists>xs'. json_elems d u = Some (xs', r))"
    using "3.prems" unfolding json_elems.simps [of d s]
    by (auto split: list.splits if_splits option.splits)
  have "length r \<le> length u"
    using m(4) "3.IH"(2) [OF m(1) refl m(2) m(3)] by fastforce
  then show ?case using m(2) skip_ws_Cons_less [OF m(3)] by linarith
qed

section \<open>Writing\<close>

fun commas :: "string list \<Rightarrow> string" where
  "commas [] = []"
| "commas [x] = x"
| "commas (x # y # ys) = x @ CHR '','' # commas (y # ys)"

fun json_text :: "json \<Rightarrow> string" where
  "json_text JNull = ''null''"
| "json_text (JBool b) = (if b then ''true'' else ''false'')"
| "json_text (JNumber t) = t"
| "json_text (JString b) = dquote # b @ [dquote]"
| "json_text (JArray xs) = CHR ''['' # commas (List.map json_text xs) @ [CHR '']'']"
| "json_text (JObject ms) =
     CHR ''{'' # commas (List.map (\<lambda>(k, v). dquote # k @ dquote # CHR '':'' # json_text v) ms) @ [CHR ''}'']"

text \<open>
  The trees that come from Go values with integers, strings and maps: string bodies are accepted by the scanner,
  numbers are integers, and at most \<open>d\<close> objects and arrays are nested.
\<close>

definition int_text :: "string \<Rightarrow> bool" where
  "int_text t =
     (let s = (if starts CHR ''-'' t then tl t else t)
      in s \<noteq> [] \<and> list_all is_digit s \<and> (hd s = CHR ''0'' \<longrightarrow> length s = 1))"

fun json_wf :: "nat \<Rightarrow> json \<Rightarrow> bool" where
  "json_wf d JNull = True"
| "json_wf d (JBool b) = True"
| "json_wf d (JNumber t) = int_text t"
| "json_wf d (JString b) = string_body b"
| "json_wf d (JArray xs) = (d \<noteq> 0 \<and> list_all (json_wf (d - 1)) xs)"
| "json_wf d (JObject ms) = (d \<noteq> 0 \<and> list_all (\<lambda>(k, v). string_body k \<and> json_wf (d - 1) v) ms)"

section \<open>What is written parses back\<close>

text \<open>A number ends where the next character cannot continue it.\<close>

definition number_end :: "string \<Rightarrow> bool" where
  "number_end rest \<longleftrightarrow> rest = [] \<or>
     \<not> is_digit (hd rest) \<and> hd rest \<noteq> CHR ''.'' \<and> hd rest \<noteq> CHR ''e'' \<and> hd rest \<noteq> CHR ''E''"

lemma digit_not_minus: "is_digit c \<Longrightarrow> c \<noteq> CHR ''-''"
  by (auto simp: is_digit_def ord_def)

lemma takeWhile_digits:
  "list_all is_digit s \<Longrightarrow> number_end rest \<Longrightarrow> takeWhile is_digit (s @ rest) = s"
  "list_all is_digit s \<Longrightarrow> number_end rest \<Longrightarrow> dropWhile is_digit (s @ rest) = rest"
  by (induction s) (cases rest; simp add: number_end_def)+

lemma scan_int_digits:
  assumes "list_all is_digit s" "s \<noteq> []" "hd s = CHR ''0'' \<longrightarrow> length s = 1" "number_end rest"
  shows "scan_int (s @ rest) = Some (s, rest)"
proof -
  obtain c t where s: "s = c # t" using assms(2) by (cases s) auto
  then show ?thesis
    using assms takeWhile_digits [OF assms(1,4)] by (cases t) (auto simp: scan_int_def)
qed

lemma scan_number_int:
  assumes "int_text t" and "number_end rest"
  shows "scan_number (t @ rest) = Some (t, rest)"
proof -
  have e: "scan_frac rest = Some ([], rest)" "scan_exp rest = Some ([], rest)"
    using assms(2) by (cases rest; simp add: number_end_def scan_frac_def scan_exp_def)+
  show ?thesis
  proof (cases "starts CHR ''-'' t")
    case True
    then obtain s where t: "t = CHR ''-'' # s" by (cases t) auto
    then have "scan_int (s @ rest) = Some (s, rest)"
      using assms by (intro scan_int_digits) (auto simp: int_text_def)
    then show ?thesis using e by (simp add: scan_number_def t)
  next
    case False
    then have "t \<noteq> []" "hd t \<noteq> CHR ''-''" and "scan_int (t @ rest) = Some (t, rest)"
      using assms by (auto simp: int_text_def intro!: scan_int_digits)
    then show ?thesis using e by (simp add: scan_number_def)
  qed
qed

text \<open>No value starts with white space or with a closing bracket.\<close>

definition value_start :: "char \<Rightarrow> bool" where
  "value_start c \<longleftrightarrow> \<not> is_ws c \<and> c \<noteq> CHR '']'' \<and> c \<noteq> CHR ''}''"

lemma digit_start: "is_digit c \<Longrightarrow> value_start c"
  by (auto simp: is_digit_def value_start_def is_ws_def ord_def)

lemma int_text_start:
  assumes "int_text t"
  obtains c s where "t = c # s" "is_digit c \<or> c = CHR ''-''"
  using assms by (cases t) (auto simp: int_text_def Let_def list_all_iff split: if_splits)

lemma json_text_start:
  assumes "json_wf d v"
  obtains c s where "json_text v = c # s" "value_start c"
proof (cases v)
  case (JNumber t)
  then obtain c s where "t = c # s" "is_digit c \<or> c = CHR ''-''"
    using assms int_text_start by auto
  then show thesis using that JNumber digit_start [of c] by (auto simp: value_start_def is_ws_def)
next
  case (JBool b)
  then show thesis using that by (cases b) (auto simp: value_start_def is_ws_def)
qed (use that in \<open>auto simp: value_start_def is_ws_def\<close>)

lemma json_text_Cons: "json_wf d v \<Longrightarrow> \<exists>c s. json_text v = c # s"
  by (erule json_text_start) blast

lemma skip_ws_text: "json_wf d v \<Longrightarrow> skip_ws (json_text v @ rest) = json_text v @ rest"
  by (erule json_text_start) (simp add: value_start_def)

lemma json_value_number:
  assumes "int_text t" and "number_end rest"
  shows "json_value d (t @ rest) = Some (JNumber t, rest)"
proof -
  obtain c s where t: "t = c # s" "is_digit c \<or> c = CHR ''-''" using assms(1) by (rule int_text_start)
  then have "\<not> is_ws c" using digit_start [of c] by (auto simp: value_start_def is_ws_def)
  moreover have "c \<noteq> dquote" "c \<noteq> CHR ''{''" "c \<noteq> CHR ''[''" "c \<noteq> CHR ''t''" "c \<noteq> CHR ''f''" "c \<noteq> CHR ''n''"
    using t(2) by (auto simp: is_digit_def ord_def)
  ultimately show ?thesis
    using scan_number_int [OF assms] by (subst json_value.simps) (simp add: t)
qed

lemma json_elems_text:
  assumes "xs \<noteq> []"
    and "\<And>x rest. x \<in> set xs \<Longrightarrow> number_end rest \<Longrightarrow> json_value d (json_text x @ rest) = Some (x, rest)"
    and "\<And>x. x \<in> set xs \<Longrightarrow> json_wf d x"
  shows "json_elems d (commas (List.map json_text xs) @ CHR '']'' # rest) = Some (xs, rest)"
  using assms
proof (induction xs rule: induct_list012)
  case (2 x)
  obtain c s where "json_text x = c # s" using json_text_Cons [of d x] 2 by auto
  moreover have "number_end (CHR '']'' # rest)" by (simp add: number_end_def is_digit_def ord_def)
  ultimately show ?case using 2 by (subst json_elems.simps) (simp add: is_ws_def)
next
  case (3 x y zs)
  let ?r = "CHR '','' # commas (List.map json_text (y # zs)) @ CHR '']'' # rest"
  have "number_end ?r" by (simp add: number_end_def is_digit_def ord_def)
  then have "json_value d (json_text x @ ?r) = Some (x, ?r)" using "3.prems" by simp
  moreover obtain c s where "json_text x = c # s" using json_text_Cons [of d x] 3 by auto
  moreover have "json_elems d (commas (List.map json_text (y # zs)) @ CHR '']'' # rest) = Some (y # zs, rest)"
    using "3.IH"(2) "3.prems" by simp
  ultimately show ?case by (subst json_elems.simps) (simp add: is_ws_def)
qed simp

abbreviation member_text :: "string \<times> json \<Rightarrow> string" where
  "member_text \<equiv> \<lambda>(k, v). dquote # k @ dquote # CHR '':'' # json_text v"

lemma json_members_step:
  assumes "string_body k" "json_value d (json_text v @ c # r) = Some (v, c # r)" "json_wf d v"
    and "c = CHR ''}'' \<or> c = CHR '',''"
  shows "json_members d (member_text (k, v) @ c # r) =
    (if c = CHR ''}'' then Some ([(k, v)], r) else map_option (apfst ((#) (k, v))) (json_members d r))"
proof -
  obtain c' s where "json_text v = c' # s" using json_text_Cons [OF assms(3)] by auto
  moreover have "scan_body (k @ dquote # CHR '':'' # json_text v @ c # r) = Some (k, CHR '':'' # json_text v @ c # r)"
    using scan_body_accepts [OF assms(1)] .
  ultimately show ?thesis
    using assms(2,4) by (subst json_members.simps) (auto simp: is_ws_def)
qed

lemma json_members_text:
  assumes "ms \<noteq> []"
    and "\<forall>m \<in> set ms. string_body (fst m) \<and> json_wf d (snd m)"
    and "\<forall>m \<in> set ms. \<forall>rest. number_end rest \<longrightarrow> json_value d (json_text (snd m) @ rest) = Some (snd m, rest)"
  shows "json_members d (commas (List.map member_text ms) @ CHR ''}'' # rest) = Some (ms, rest)"
  using assms
proof (induction ms rule: induct_list012)
  case (2 m)
  obtain k v where m: "m = (k, v)" by force
  have "number_end (CHR ''}'' # rest)" by (simp add: number_end_def is_digit_def ord_def)
  then show ?case using 2 json_members_step [of k d v "CHR ''}''" rest] by (simp add: m)
next
  case (3 m n ms)
  obtain k v where m: "m = (k, v)" by force
  let ?r = "commas (List.map member_text (n # ms)) @ CHR ''}'' # rest"
  have "number_end (CHR '','' # ?r)" by (simp add: number_end_def is_digit_def ord_def)
  moreover have "json_members d ?r = Some (n # ms, rest)"
    using "3.prems" by (intro "3.IH"(2)) auto
  ultimately show ?case using "3.prems" json_members_step [of k d v "CHR '',''" ?r] by (simp add: m)
qed simp

lemma json_elems_start:
  assumes "xs \<noteq> []" and wf: "\<And>x. x \<in> set xs \<Longrightarrow> json_wf d x"
  shows "\<not> starts CHR '']'' (skip_ws (commas (List.map json_text xs) @ rest))"
proof -
  obtain x ys where x: "xs = x # ys" using assms(1) by (cases xs) auto
  moreover obtain c s where "json_text x = c # s" "value_start c"
    using json_text_start [OF wf, of x] x by auto
  moreover have "commas (List.map json_text xs) = json_text x @ drop (length (json_text x)) (commas (List.map json_text xs))"
    by (cases ys) (auto simp: x)
  ultimately show ?thesis
    by (metis append_Cons dropWhile.simps(2) list.sel(1) value_start_def)
qed

lemma json_value_text:
  "json_wf d v \<Longrightarrow> number_end rest \<Longrightarrow> json_value d (json_text v @ rest) = Some (v, rest)"
proof (induction v arbitrary: d rest)
  case (JNumber t)
  then show ?case by (simp add: json_value_number)
next
  case (JString b)
  then show ?case using scan_body_accepts [of b rest] by (subst json_value.simps) (simp add: is_ws_def)
next
  case (JArray xs)
  show ?case
  proof (cases "xs = []")
    case True
    then show ?thesis using JArray by (subst json_value.simps) (simp add: is_ws_def)
  next
    case False
    have wf: "json_wf (d - 1) x" if "x \<in> set xs" for x using JArray.prems that by (auto simp: list_all_iff)
    have e: "json_elems (d - 1) (commas (List.map json_text xs) @ CHR '']'' # rest) = Some (xs, rest)"
      using False JArray.IH wf by (intro json_elems_text) auto
    have "\<not> starts CHR '']'' (skip_ws (commas (List.map json_text xs) @ CHR '']'' # rest))"
      by (rule json_elems_start [OF False wf])
    then show ?thesis using JArray.prems e by (subst json_value.simps) (simp add: is_ws_def)
  qed
next
  case (JObject ms)
  show ?case
  proof (cases "ms = []")
    case True
    then show ?thesis using JObject by (subst json_value.simps) (simp add: is_ws_def)
  next
    case False
    have m: "json_members (d - 1) (commas (List.map member_text ms) @ CHR ''}'' # rest) = Some (ms, rest)"
      using False JObject.prems JObject.IH
      by (intro json_members_text) (fastforce simp: list_all_iff)+
    obtain k v ns where "ms = (k, v) # ns" using False by (cases ms) auto
    then have "\<exists>s. commas (List.map member_text ms) = dquote # s" by (cases ns) auto
    then have "\<not> starts CHR ''}'' (skip_ws (commas (List.map member_text ms) @ CHR ''}'' # rest))"
      by (auto simp: is_ws_def)
    then show ?thesis using JObject.prems m by (subst json_value.simps) (simp add: is_ws_def)
  qed
qed (subst json_value.simps; simp add: is_ws_def)+

lemma json_parse_text: "json_wf 10000 v \<Longrightarrow> json_parse (json_text v) = Some v"
  using json_value_text [of 10000 v "[]"] by (simp add: json_parse_def number_end_def)

lemma is_digit_digit: "n < 10 \<Longrightarrow> is_digit (digit n)"
  by (simp add: is_digit_def ord_def)

lemma decimal_is_digits: "list_all is_digit (decimal n)"
  using decimal_digits [of n] by (auto simp: list_all_iff digit_chars_def is_digit_digit)

lemma decimal_not_Nil: "decimal n \<noteq> []"
  by (subst decimal.simps) simp

lemma decimal_no_leading_zero: "hd (decimal n) = CHR ''0'' \<Longrightarrow> n = 0"
proof (induction n rule: decimal.induct)
  case (1 n)
  show ?case
  proof (cases "n < 10")
    case True
    then have "digit n = CHR ''0''" using "1.prems" by (simp add: decimal.simps)
    then have "of_char (digit n) = (48 :: nat)" by simp
    then show ?thesis using True by simp
  next
    case False
    then have "hd (decimal (n div 10)) = CHR ''0''"
      using "1.prems" by (subst (asm) decimal.simps) (simp add: decimal_not_Nil)
    then show ?thesis using "1.IH" False by simp
  qed
qed

lemma int_text_fmt: "int_text (fmt_int i)"
proof -
  have z: "hd (decimal n) = CHR ''0'' \<Longrightarrow> length (decimal n) = 1" for n
    using decimal_no_leading_zero [of n] by (simp add: decimal.simps)
  have "\<not> starts CHR ''-'' (decimal n)" for n
    using decimal_is_digits [of n] digit_not_minus by (cases "decimal n") auto
  then show ?thesis
    using decimal_is_digits decimal_not_Nil z by (auto simp: int_text_def fmt_int_def Let_def)
qed

end
