(* ===== verification/Json_Decode.thy ===== *)
theory Json_Decode
  imports Json
begin

text \<open>
  The decoder of \<^verbatim>\<open>json.Unmarshal\<close> for the types the library decodes: structs, maps from strings, strings,
  and integers. The document is checked in full first. Then the values are stored one by one, in their order in the text; a
  value of the wrong type is skipped, and the first such mismatch is returned as the error at the end.
  \<open>None\<close> is the panic that \<^verbatim>\<open>encoding/json\<close> raises if a scanned string cannot be unquoted.
\<close>

datatype json_error = SyntaxError | UnmarshalTypeError string

text \<open>A decoded value together with the error saved so far.\<close>

type_synonym 's store = "'s \<times> json_error option"

definition save_error :: "json_error \<Rightarrow> 's store \<Rightarrow> 's store" where
  "save_error x s = (fst s, case snd s of None \<Rightarrow> Some x | Some e \<Rightarrow> Some e)"

text \<open>The branch of a value that does not fit its target; the literal of a string is unquoted even so.\<close>

definition type_mismatch :: "json \<Rightarrow> 's store \<Rightarrow> 's store option" where
  "type_mismatch v s =
     (case v of
        JNull \<Rightarrow> Some s
      | JBool _ \<Rightarrow> Some (save_error (UnmarshalTypeError ''bool'') s)
      | JNumber _ \<Rightarrow> Some (save_error (UnmarshalTypeError ''number'') s)
      | JString b \<Rightarrow> map_option (\<lambda>_. save_error (UnmarshalTypeError ''string'') s) (unquote b)
      | JArray _ \<Rightarrow> Some (save_error (UnmarshalTypeError ''array'') s)
      | JObject _ \<Rightarrow> Some (save_error (UnmarshalTypeError ''object'') s))"

section \<open>Strings and integers\<close>

definition store_string :: "json \<Rightarrow> string store \<Rightarrow> string store option" where
  "store_string v s =
     (case v of
        JString b \<Rightarrow> map_option (\<lambda>t. (t, snd s)) (unquote b)
      | _ \<Rightarrow> type_mismatch v s)"

text \<open>\<^verbatim>\<open>strconv.ParseUint(s, 10, 64)\<close> and \<^verbatim>\<open>strconv.ParseInt(s, 10, 64)\<close>; \<open>None\<close> is their error.\<close>

definition parse_digits :: "string \<Rightarrow> nat option" where
  "parse_digits s = (if s \<noteq> [] \<and> list_all is_digit s then Some (digits_value s) else None)"

definition ParseUint :: "string \<Rightarrow> nat option" where
  "ParseUint s =
     (case parse_digits s of
        None \<Rightarrow> None
      | Some n \<Rightarrow> if n < 2 ^ 64 then Some n else None)"

definition ParseInt :: "string \<Rightarrow> int option" where
  "ParseInt s =
     (let neg = starts CHR ''-'' s
      in case ParseUint (if neg \<or> starts CHR ''+'' s then tl s else s) of
           None \<Rightarrow> None
         | Some n \<Rightarrow>
             if \<not> neg \<and> 2 ^ 63 \<le> n then None
             else if neg \<and> 2 ^ 63 < n then None
             else Some (if neg then - int n else int n))"

definition number_mismatch :: "string \<Rightarrow> 's store \<Rightarrow> 's store" where
  "number_mismatch t s = save_error (UnmarshalTypeError (''number '' @ t)) s"

definition store_uint :: "json \<Rightarrow> 'a::len word store \<Rightarrow> 'a word store option" where
  "store_uint v s =
     (case v of
        JNumber t \<Rightarrow>
          Some (case ParseUint t of
                  None \<Rightarrow> number_mismatch t s
                | Some n \<Rightarrow>
                    if n < 2 ^ LENGTH('a) then (word_of_nat n, snd s) else number_mismatch t s)
      | _ \<Rightarrow> type_mismatch v s)"

definition store_int64 :: "json \<Rightarrow> i64 store \<Rightarrow> i64 store option" where
  "store_int64 v s =
     (case v of
        JNumber t \<Rightarrow>
          Some (case ParseInt t of
                  None \<Rightarrow> number_mismatch t s
                | Some n \<Rightarrow> (word_of_int n, snd s))
      | _ \<Rightarrow> type_mismatch v s)"

section \<open>Objects\<close>

text \<open>
  The entries of an object, each with its key unquoted. A struct has a field for a key that is the field's
  name, or else for one that is it up to case. (Go folds all of Unicode. Of the letters beyond ASCII only those for
  \<open>k\<close> and \<open>s\<close> fold to ASCII, and no field of the library has these letters.)
\<close>

fun store_members ::
  "(string \<Rightarrow> json \<Rightarrow> 's store \<Rightarrow> 's store option) \<Rightarrow> (string \<times> json) list \<Rightarrow> 's store \<Rightarrow> 's store option" where
  "store_members put [] s = Some s"
| "store_members put ((k, v) # ms) s =
     Option.bind (unquote k) (\<lambda>k. Option.bind (put k v s) (store_members put ms))"

lemma store_members_Nil [simp]: "store_members put [] = Some"
  by (rule ext) simp

definition fold_char :: "char \<Rightarrow> char" where
  "fold_char c = (if 97 \<le> ord c \<and> ord c \<le> 122 then char_of (ord c - 32) else c)"

definition find_field :: "string list \<Rightarrow> string \<Rightarrow> string option" where
  "find_field fields k =
     (if k \<in> set fields then Some k
      else find (\<lambda>f. List.map fold_char f = List.map fold_char k) fields)"

definition store_struct ::
  "string list \<Rightarrow> (string \<Rightarrow> json \<Rightarrow> 's store \<Rightarrow> 's store option) \<Rightarrow> json \<Rightarrow> 's store \<Rightarrow> 's store option" where
  "store_struct fields put v s =
     (case v of
        JObject ms \<Rightarrow>
          store_members
            (\<lambda>k v s. case find_field fields k of None \<Rightarrow> Some s | Some f \<Rightarrow> put f v s) ms s
      | _ \<Rightarrow> type_mismatch v s)"

text \<open>
  A map from strings to unsigned integers. \<^verbatim>\<open>null\<close> makes it nil. The entries of an object are added to the
  map that is there; each starts from zero, so \<^verbatim>\<open>null\<close> for an entry gives zero.
\<close>

definition put_entry :: "string \<Rightarrow> json \<Rightarrow> counters store \<Rightarrow> counters store option" where
  "put_entry k v s = map_option (\<lambda>(x, e). (mput k x (fst s), e)) (store_uint v (0, snd s))"

definition store_map :: "json \<Rightarrow> counters option store \<Rightarrow> counters option store option" where
  "store_map v s =
     (case v of
        JNull \<Rightarrow> Some (None, snd s)
      | JObject ms \<Rightarrow>
          map_option (apfst Some)
            (store_members put_entry ms (case fst s of None \<Rightarrow> [] | Some m \<Rightarrow> m, snd s))
      | _ \<Rightarrow> type_mismatch v s)"

section \<open>Unmarshal\<close>

definition json_Unmarshal ::
  "(json \<Rightarrow> 's store \<Rightarrow> 's store option) \<Rightarrow> byte list \<Rightarrow> 's \<Rightarrow> (json_error + 's) option" where
  "json_Unmarshal store data z =
     (case json_parse (string_of data) of
        None \<Rightarrow> Some (Inl SyntaxError)
      | Some v \<Rightarrow>
          map_option (\<lambda>(x, e). case e of None \<Rightarrow> Inr x | Some err \<Rightarrow> Inl err) (store v (z, None)))"

section \<open>No panic\<close>

fun json_bodies :: "json \<Rightarrow> bool" where
  "json_bodies (JString b) = string_body b"
| "json_bodies (JArray xs) = list_all json_bodies xs"
| "json_bodies (JObject ms) = list_all (\<lambda>(k, v). string_body k \<and> json_bodies v) ms"
| "json_bodies _ = True"

lemma json_bodies_parsed:
  "json_value d s = Some (v, r) \<Longrightarrow> json_bodies v"
  "json_members d s = Some (ms, r) \<Longrightarrow> json_bodies (JObject ms)"
  "json_elems d s = Some (xs, r) \<Longrightarrow> json_bodies (JArray xs)"
proof (induction d s and d s and d s arbitrary: v r and ms r and xs r
    rule: json_value_json_members_json_elems.induct)
  case (1 d s)
  obtain c t where ct: "skip_ws s = c # t" using "1.prems" by (auto simp: json_value.simps split: list.splits)
  have m: "json_bodies (JObject ms)"
    if "c = CHR ''{''" "d \<noteq> 0" "\<not> starts CHR ''}'' (skip_ws t)" "json_members (d - 1) t = Some (ms, r)" for ms
    using that ct by (intro "1.IH"(1)) simp_all
  have e: "json_bodies (JArray xs)"
    if "c = CHR ''[''" "d \<noteq> 0" "\<not> starts CHR '']'' (skip_ws t)" "json_elems (d - 1) t = Some (xs, r)" for xs
    using that ct by (intro "1.IH"(2)) simp_all
  show ?case
    using "1.prems" unfolding json_value.simps [of d s] ct list.case
    using m e by (auto simp: scan_body_exact split: if_splits)
next
  case (2 d s)
  obtain t k t1 t2 w t3 c t4 where m: "skip_ws s = dquote # t" "scan_body t = Some (k, t1)"
      "skip_ws t1 = CHR '':'' # t2" "json_value d t2 = Some (w, t3)" "length t3 < length t2"
      "skip_ws t3 = c # t4"
      "ms = [(k, w)] \<or> c = CHR '','' \<and> (\<exists>ms'. json_members d t4 = Some (ms', r) \<and> ms = (k, w) # ms')"
    using "2.prems" unfolding json_members.simps [of d s]
    by (auto split: list.splits if_splits option.splits)
  have "string_body k" using m(2) by (simp add: scan_body_exact)
  moreover have "json_bodies w" using "2.IH"(1) [OF m(1) _ m(2) refl m(3) _ m(4)] by simp
  moreover have "json_bodies (JObject ms')" if "c = CHR '',''" "json_members d t4 = Some (ms', r)" for ms'
    using that "2.IH"(2) [OF m(1) _ m(2) refl m(3) _ m(4) refl m(5) m(6)] by fastforce
  ultimately show ?case using m(7) by auto
next
  case (3 d s)
  obtain w t c u where m: "json_value d s = Some (w, t)" "length t < length s" "skip_ws t = c # u"
      "xs = [w] \<or> c = CHR '','' \<and> (\<exists>xs'. json_elems d u = Some (xs', r) \<and> xs = w # xs')"
    using "3.prems" unfolding json_elems.simps [of d s]
    by (auto split: list.splits if_splits option.splits)
  have "json_bodies w" using "3.IH"(1) m(1) by blast
  moreover have "json_bodies (JArray xs')" if "c = CHR '',''" "json_elems d u = Some (xs', r)" for xs'
    using that "3.IH"(2) [OF m(1) refl m(2) m(3)] by fastforce
  ultimately show ?case using m(4) by auto
qed

text \<open>A storing function that never panics on the values of a scanned document.\<close>

definition total_store :: "(json \<Rightarrow> 's store \<Rightarrow> 's store option) \<Rightarrow> bool" where
  "total_store store \<longleftrightarrow> (\<forall>v s. json_bodies v \<longrightarrow> store v s \<noteq> None)"

lemma total_storeD: "total_store store \<Longrightarrow> json_bodies v \<Longrightarrow> store v s \<noteq> None"
  unfolding total_store_def by blast

lemma unquote_body_not_None: "string_body b \<Longrightarrow> unquote b \<noteq> None"
  using unquote_body by simp

lemma total_type_mismatch: "json_bodies v \<Longrightarrow> type_mismatch v s \<noteq> None"
  by (cases v) (simp_all add: type_mismatch_def unquote_body_not_None del: not_None_eq)

lemmas total_simps = total_type_mismatch unquote_body_not_None total_storeD

lemma total_store_string: "total_store store_string"
proof -
  have "store_string v s \<noteq> None" if "json_bodies v" for v s
    using that by (cases v) (simp_all add: store_string_def total_simps del: not_None_eq)
  then show ?thesis by (simp add: total_store_def del: not_None_eq)
qed

lemma total_store_uint: "total_store store_uint"
proof -
  have "store_uint v s \<noteq> None" if "json_bodies v" for v and s :: "'a word store"
    using that by (cases v) (simp_all add: store_uint_def total_simps del: not_None_eq)
  then show ?thesis by (simp add: total_store_def del: not_None_eq)
qed

lemma total_store_int64: "total_store store_int64"
proof -
  have "store_int64 v s \<noteq> None" if "json_bodies v" for v s
    using that by (cases v) (simp_all add: store_int64_def total_simps del: not_None_eq)
  then show ?thesis by (simp add: total_store_def del: not_None_eq)
qed

lemma total_store_members:
  assumes "\<And>k. total_store (put k)" and "list_all (\<lambda>(k, v). string_body k \<and> json_bodies v) ms"
  shows "store_members put ms s \<noteq> None"
  using assms(2)
proof (induction ms arbitrary: s)
  case (Cons m ms)
  obtain k v where m: "m = (k, v)" by force
  then obtain k' where "unquote k = Some k'" using Cons.prems unquote_body by auto
  moreover have "put k' v s \<noteq> None"
    using Cons.prems m by (intro total_storeD [OF assms(1)]) simp
  moreover from this have "Option.bind (put k' v s) (store_members put ms) \<noteq> None"
    using Cons.IH Cons.prems by (cases "put k' v s") (auto simp del: not_None_eq)
  ultimately show ?case using m by (simp del: not_None_eq)
qed simp

lemma total_put_entry: "total_store (put_entry k)"
  unfolding total_store_def put_entry_def
  by (simp add: total_storeD [OF total_store_uint] del: not_None_eq)

lemma total_store_map: "total_store store_map"
proof -
  have "store_map v s \<noteq> None" if "json_bodies v" for v s
    using that total_store_members [of put_entry, OF total_put_entry]
    by (cases v) (simp_all add: store_map_def total_simps del: not_None_eq)
  then show ?thesis by (simp add: total_store_def del: not_None_eq)
qed

section \<open>Numbers that were written\<close>

lemma parse_digits_decimal [simp]: "parse_digits (decimal n) = Some n"
  using decimal_is_digits [of n] by (simp add: parse_digits_def decimal_not_Nil)

lemma decimal_hd: "hd (decimal n) \<noteq> CHR ''-''" "hd (decimal n) \<noteq> CHR ''+''"
proof -
  have "is_digit (hd (decimal n))"
    using decimal_is_digits [of n] decimal_not_Nil [of n] by (cases "decimal n") auto
  then show "hd (decimal n) \<noteq> CHR ''-''" "hd (decimal n) \<noteq> CHR ''+''"
    by (auto simp: is_digit_def ord_def)
qed

lemma ParseUint_fmt: "ParseUint (fmt_int i) = (if 0 \<le> i \<and> i < 2 ^ 64 then Some (nat i) else None)"
proof (cases "i < 0")
  case True
  have "parse_digits (CHR ''-'' # s) = None" for s by (simp add: parse_digits_def is_digit_def ord_def)
  then show ?thesis using True by (simp add: ParseUint_def fmt_int_def)
next
  case False
  then have "nat i < 2 ^ 64 \<longleftrightarrow> i < 2 ^ 64" by (simp add: nat_less_iff)
  then show ?thesis using False by (simp add: ParseUint_def fmt_int_def)
qed

lemma ParseInt_fmt: "ParseInt (fmt_int i) = (if - (2 ^ 63) \<le> i \<and> i < 2 ^ 63 then Some i else None)"
proof (cases "i < 0")
  case True
  then have "nat (- i) < 2 ^ 64 \<longleftrightarrow> - i < 2 ^ 64" "2 ^ 63 < nat (- i) \<longleftrightarrow> 2 ^ 63 < - i"
    by (simp_all add: nat_less_iff zless_nat_eq_int_zless)
  then show ?thesis using True by (auto simp: ParseInt_def ParseUint_def fmt_int_def)
next
  case False
  then have "nat i < 2 ^ 64 \<longleftrightarrow> i < 2 ^ 64" "2 ^ 63 \<le> nat i \<longleftrightarrow> 2 ^ 63 \<le> i"
    by (simp_all add: nat_less_iff le_nat_iff)
  then show ?thesis
    using False by (auto simp: ParseInt_def ParseUint_def fmt_int_def decimal_hd)
qed

lemma store_uint_fmt:
  "store_uint (JNumber (fmt_int i)) (x :: 'a::len word, e) =
    (if 0 \<le> i \<and> i < 2 ^ 64 \<and> i < 2 ^ LENGTH('a) then Some (word_of_int i, e)
     else Some (number_mismatch (fmt_int i) (x, e)))"
proof -
  have "nat i < 2 ^ LENGTH('a) \<longleftrightarrow> i < 2 ^ LENGTH('a)" if "0 \<le> i"
    using that by (simp add: nat_less_iff)
  then show ?thesis by (auto simp: store_uint_def ParseUint_fmt)
qed

lemma store_int64_fmt:
  "store_int64 (JNumber (fmt_int i)) (x, e) =
    (if - (2 ^ 63) \<le> i \<and> i < 2 ^ 63 then Some (word_of_int i, e)
     else Some (number_mismatch (fmt_int i) (x, e)))"
  by (simp add: store_int64_def ParseInt_fmt)

section \<open>Invariants of storing\<close>

lemma store_members_invariant:
  assumes "\<And>k v s s'. P s \<Longrightarrow> put k v s = Some s' \<Longrightarrow> P s'"
  shows "P s \<Longrightarrow> store_members put ms s = Some s' \<Longrightarrow> P s'"
proof (induction ms arbitrary: s)
  case (Cons m ms)
  obtain k v where "m = (k, v)" by force
  then obtain k' s1 where "put k' v s = Some s1" "store_members put ms s1 = Some s'"
    using Cons.prems(2) by (auto simp: bind_eq_Some_conv)
  then show ?case using Cons.IH assms Cons.prems(1) by blast
qed simp

lemma type_mismatch_fst: "type_mismatch v s = Some s' \<Longrightarrow> fst s' = fst s"
  by (auto simp: type_mismatch_def save_error_def split: json.splits)

text \<open>Only the scanner reports a syntax error.\<close>

abbreviation scanned :: "'s store \<Rightarrow> bool" where
  "scanned s \<equiv> snd s \<noteq> Some SyntaxError"

lemma type_mismatch_scanned: "scanned s \<Longrightarrow> type_mismatch v s = Some s' \<Longrightarrow> scanned s'"
  by (auto simp: type_mismatch_def save_error_def split: json.splits option.splits)

lemma number_mismatch_scanned: "scanned s \<Longrightarrow> scanned (number_mismatch t s)"
  by (auto simp: number_mismatch_def save_error_def split: option.splits)

lemma store_string_scanned: "scanned s \<Longrightarrow> store_string v s = Some s' \<Longrightarrow> scanned s'"
  using type_mismatch_scanned [of s v s'] by (auto simp: store_string_def split: json.splits)

lemma store_uint_scanned: "scanned s \<Longrightarrow> store_uint v s = Some s' \<Longrightarrow> scanned s'"
  using type_mismatch_scanned [of s v s'] number_mismatch_scanned [of s]
  by (cases v) (auto simp: store_uint_def split: option.splits if_splits)

lemma store_int64_scanned: "scanned s \<Longrightarrow> store_int64 v s = Some s' \<Longrightarrow> scanned s'"
  using type_mismatch_scanned [of s v s'] number_mismatch_scanned [of s]
  by (cases v) (auto simp: store_int64_def split: option.splits)

lemma store_map_scanned:
  assumes "scanned s" "store_map v s = Some s'"
  shows "scanned s'"
proof (cases v)
  case (JObject ms)
  let ?m = "case fst s of None \<Rightarrow> [] | Some m \<Rightarrow> m"
  obtain s1 where s1: "store_members put_entry ms (?m, snd s) = Some s1" "s' = apfst Some s1"
    using assms(2) JObject by (auto simp: store_map_def)
  have "scanned s1"
  proof (rule store_members_invariant [where P = scanned, OF _ _ s1(1)])
    show "scanned s2" if s: "scanned s" and p: "put_entry k v s = Some s2" for k v s s2
    proof -
      obtain x e where "store_uint v (0, snd s) = Some (x, e)" "s2 = (mput k x (fst s), e)"
        using p by (auto simp: put_entry_def)
      then show ?thesis using s store_uint_scanned [of "(0, snd s)" v "(x, e)"] by simp
    qed
  qed (use assms(1) in simp)
  then show ?thesis using s1(2) by simp
qed (use assms type_mismatch_scanned [of s v s'] in \<open>auto simp: store_map_def\<close>)

section \<open>The contract of a storing function\<close>

text \<open>
  What \<^verbatim>\<open>json.Unmarshal\<close> relies on when it stores into a value of some type: storing a scanned value never
  panics, and leaves syntax errors to the scanner. A struct whose fields meet the contract meets it.
\<close>

locale json_target =
  fixes store :: "json \<Rightarrow> 's store \<Rightarrow> 's store option"
  assumes total: "total_store store"
    and keeps: "scanned s \<Longrightarrow> store v s = Some s' \<Longrightarrow> scanned s'"
begin

lemma Unmarshal_returns: "json_Unmarshal store data z \<noteq> None"
proof (cases "json_parse (string_of data)")
  case (Some v)
  then have "json_bodies v"
    using json_bodies_parsed(1) by (auto simp: json_parse_def split: option.splits if_splits)
  then have "store v (z, None) \<noteq> None" by (rule total_storeD [OF total])
  then show ?thesis using Some by (simp add: json_Unmarshal_def del: not_None_eq)
qed (simp add: json_Unmarshal_def)

lemma Unmarshal_syntax:
  "json_Unmarshal store data z = Some (Inl SyntaxError) \<longleftrightarrow> json_parse (string_of data) = None"
  using keeps [of "(z, None)"] by (fastforce simp: json_Unmarshal_def split: option.splits)

end

locale json_struct =
  fixes fields :: "string list"
    and put :: "string \<Rightarrow> json \<Rightarrow> 's store \<Rightarrow> 's store option"
  assumes field: "json_target (put f)"
begin

lemma field_or_skip:
  "json_target (\<lambda>v s. case find_field fields k of None \<Rightarrow> Some s | Some f \<Rightarrow> put f v s)"
proof (cases "find_field fields k")
  case None
  then show ?thesis by (simp add: json_target_def total_store_def)
next
  case (Some f)
  then show ?thesis using field [of f] by simp
qed

lemma struct_total: "total_store (store_struct fields put)"
proof -
  let ?p = "\<lambda>k v s. case find_field fields k of None \<Rightarrow> Some s | Some f \<Rightarrow> put f v s"
  have "store_struct fields put v s \<noteq> None" if "json_bodies v" for v s
    using that total_store_members [of ?p, OF json_target.total [OF field_or_skip]]
    by (cases v) (simp_all add: store_struct_def total_simps del: not_None_eq)
  then show ?thesis by (simp add: total_store_def del: not_None_eq)
qed

lemma struct_keeps:
  assumes "scanned s" "store_struct fields put v s = Some s'"
  shows "scanned s'"
proof (cases v)
  case (JObject ms)
  show ?thesis
    using assms(2) unfolding JObject store_struct_def json.case
    by (rule store_members_invariant [rotated, where P = scanned, OF assms(1)])
      (rule json_target.keeps [OF field_or_skip])
qed (use assms type_mismatch_scanned [of s v s'] in \<open>auto simp: store_struct_def\<close>)

end

sublocale json_struct \<subseteq> struct: json_target "store_struct fields put"
  by unfold_locales (rule struct_total, rule struct_keeps)

interpretation string_target: json_target store_string
  by unfold_locales (rule total_store_string, rule store_string_scanned)

interpretation uint_target: json_target store_uint
  by unfold_locales (rule total_store_uint, rule store_uint_scanned)

interpretation int64_target: json_target store_int64
  by unfold_locales (rule total_store_int64, rule store_int64_scanned)

interpretation map_target: json_target store_map
  by unfold_locales (rule total_store_map, rule store_map_scanned)

end
