(* ===== verification/Hlc_Json.thy ===== *)
theory Hlc_Json
  imports Hlc_Encode Json_Decode
begin

text \<open>
  The JSON methods of HLC timestamps, \<^verbatim>\<open>hlc/encode.go\<close>, over the model of \<^verbatim>\<open>encoding/json\<close>. The outer
  \<open>None\<close> of a decoder is a panic, which is shown not to happen.
\<close>

record jsonTimestamp =
  json_WallTime :: i64
  json_Logical :: u32

text \<open>What \<^verbatim>\<open>json.Marshal\<close> makes of the struct with its tags, and how \<^verbatim>\<open>json.Unmarshal\<close> stores into it.\<close>

definition timestamp_json :: "int \<Rightarrow> int \<Rightarrow> json" where
  "timestamp_json w l = JObject [(''wall_time'', JNumber (fmt_int w)), (''logical'', JNumber (fmt_int l))]"

definition hlc_put_field :: "string \<Rightarrow> json \<Rightarrow> jsonTimestamp store \<Rightarrow> jsonTimestamp store option" where
  "hlc_put_field f v s =
     (if f = ''wall_time'' then
        map_option (\<lambda>(x, e). ((fst s)\<lparr>json_WallTime := x\<rparr>, e)) (store_int64 v (json_WallTime (fst s), snd s))
      else
        map_option (\<lambda>(x, e). ((fst s)\<lparr>json_Logical := x\<rparr>, e)) (store_uint v (json_Logical (fst s), snd s)))"

definition hlc_store :: "json \<Rightarrow> jsonTimestamp store \<Rightarrow> jsonTimestamp store option" where
  "hlc_store = store_struct [''wall_time'', ''logical''] hlc_put_field"

definition hlc_MarshalJSON :: "timestamp \<Rightarrow> json_error + byte list" where
  "hlc_MarshalJSON a =
     (let j = \<lparr>json_WallTime = WallTime a, json_Logical = Logical a\<rparr>
      in Inr (bytes_of (json_text (timestamp_json (sint (json_WallTime j)) (uint (json_Logical j))))))"

definition hlc_UnmarshalJSON ::
  "byte list \<Rightarrow> timestamp \<Rightarrow> (timestamp \<times> json_error option) option" where
  "hlc_UnmarshalJSON data a =
     (case json_Unmarshal hlc_store data \<lparr>json_WallTime = 0, json_Logical = 0\<rparr> of
        None \<Rightarrow> None
      | Some (Inl err) \<Rightarrow> Some (a, Some err)
      | Some (Inr j) \<Rightarrow> Some (Timestamp (json_WallTime j) (json_Logical j), None))"

section \<open>Decoding\<close>

lemma timestamp_field_bodies [simp]: "string_body ''wall_time''" "string_body ''logical''"
  by (auto intro!: string_body.intros simp: ord_def)

lemma unquote_timestamp_fields [simp]:
  "unquote ''wall_time'' = Some ''wall_time''" "unquote ''logical'' = Some ''logical''"
  by (simp_all add: unquote_ascii ord_def)

lemma timestamp_parse: "json_parse (json_text (timestamp_json w l)) = Some (timestamp_json w l)"
  by (rule json_parse_text) (simp add: timestamp_json_def int_text_fmt)

lemma hlc_store_timestamp:
  "hlc_store (timestamp_json w l) s =
     Option.bind (hlc_put_field ''wall_time'' (JNumber (fmt_int w)) s)
       (hlc_put_field ''logical'' (JNumber (fmt_int l)))"
  by (cases "hlc_put_field ''wall_time'' (JNumber (fmt_int w)) s")
    (simp_all add: hlc_store_def store_struct_def timestamp_json_def find_field_def)

lemma hlc_store_result:
  "json_Unmarshal hlc_store (bytes_of (json_text (timestamp_json w l)))
     \<lparr>json_WallTime = 0, json_Logical = 0\<rparr> =
   Some (if - (2 ^ 63) \<le> w \<and> w < 2 ^ 63 then
           if 0 \<le> l \<and> l < 2 ^ 32 then Inr \<lparr>json_WallTime = word_of_int w, json_Logical = word_of_int l\<rparr>
           else Inl (UnmarshalTypeError (''number '' @ fmt_int l))
         else Inl (UnmarshalTypeError (''number '' @ fmt_int w)))"
  by (simp add: json_Unmarshal_def timestamp_parse hlc_store_timestamp hlc_put_field_def store_int64_fmt store_uint_fmt
      number_mismatch_def save_error_def)

lemma hlc_UnmarshalJSON_number:
  "hlc_UnmarshalJSON (bytes_of (json_text (timestamp_json w l))) b =
     Some (if - (2 ^ 63) \<le> w \<and> w < 2 ^ 63 then
             if 0 \<le> l \<and> l < 2 ^ 32 then (Timestamp (word_of_int w) (word_of_int l), None)
             else (b, Some (UnmarshalTypeError (''number '' @ fmt_int l)))
           else (b, Some (UnmarshalTypeError (''number '' @ fmt_int w))))"
  by (simp add: hlc_UnmarshalJSON_def hlc_store_result)

lemma hlc_field: "json_target (hlc_put_field f)"
proof (cases "f = ''wall_time''")
  case True
  then show ?thesis
    using int64_target.total int64_target.keeps
    by unfold_locales (fastforce simp: hlc_put_field_def total_store_def)+
next
  case False
  then show ?thesis
    using uint_target.total uint_target.keeps
    by unfold_locales (fastforce simp: hlc_put_field_def total_store_def)+
qed

interpretation hlc_target: json_struct "[''wall_time'', ''logical'']" hlc_put_field
  by (rule json_struct.intro) (rule hlc_field)

section \<open>Properties\<close>

text \<open>
  C36. Every timestamp survives JSON: \<^verbatim>\<open>MarshalJSON\<close> succeeds, and \<^verbatim>\<open>UnmarshalJSON\<close> restores the
  timestamp from its text whatever the receiver held. The decoder takes the text of any two integers for the
  fields exactly if the wall time fits 64 signed and the counter 32 unsigned bits; otherwise it
  reports the first number that does not fit and leaves the receiver as it was. On no input at all does it panic, no
  error changes the receiver, and exactly what is not a JSON document is a syntax error.
\<close>

theorem hlc_json_exact:
  "(\<exists>data. hlc_MarshalJSON a = Inr data \<and> hlc_UnmarshalJSON data b = Some (a, None)) \<and>
   (hlc_UnmarshalJSON (bytes_of (json_text (timestamp_json w l))) b =
      Some (if - (2 ^ 63) \<le> w \<and> w < 2 ^ 63 then
              if 0 \<le> l \<and> l < 2 ^ 32 then (Timestamp (word_of_int w) (word_of_int l), None)
              else (b, Some (UnmarshalTypeError (''number '' @ fmt_int l)))
            else (b, Some (UnmarshalTypeError (''number '' @ fmt_int w))))) \<and>
   (\<exists>c e. hlc_UnmarshalJSON bs b = Some (c, e) \<and> (e = None \<or> c = b) \<and>
      (e = Some SyntaxError \<longleftrightarrow> json_parse (string_of bs) = None))"
proof (intro conjI)
  have "uint (Logical a) < 2 ^ 32" using unsigned_less [of "Logical a"] by simp
  then have "hlc_UnmarshalJSON (bytes_of (json_text (timestamp_json (sint (WallTime a)) (uint (Logical a))))) b =
      Some (a, None)"
    using sint_bounds [of "WallTime a"] by (subst hlc_UnmarshalJSON_number) simp
  then show "\<exists>data. hlc_MarshalJSON a = Inr data \<and> hlc_UnmarshalJSON data b = Some (a, None)"
    by (simp add: hlc_MarshalJSON_def)
next
  show "\<exists>c e. hlc_UnmarshalJSON bs b = Some (c, e) \<and> (e = None \<or> c = b) \<and>
      (e = Some SyntaxError \<longleftrightarrow> json_parse (string_of bs) = None)"
    using hlc_target.struct.Unmarshal_syntax [of bs "\<lparr>json_WallTime = 0, json_Logical = 0\<rparr>"]
      hlc_target.struct.Unmarshal_returns [of bs "\<lparr>json_WallTime = 0, json_Logical = 0\<rparr>"]
    by (auto simp: hlc_UnmarshalJSON_def hlc_store_def split: option.splits sum.splits)
qed (rule hlc_UnmarshalJSON_number)

text \<open>
  A document without the fields is accepted, and \<^verbatim>\<open>null\<close> is not the no-op that \<^verbatim>\<open>encoding/json\<close> asks of an
  unmarshaler: both set the timestamp to zero.
\<close>

lemma hlc_json_zeroed:
  "hlc_UnmarshalJSON (bytes_of (json_text JNull)) b = Some (Timestamp 0 0, None)"
  "hlc_UnmarshalJSON (bytes_of (json_text (JObject []))) b = Some (Timestamp 0 0, None)"
proof -
  have "json_parse (json_text v) = Some v" if "v = JNull \<or> v = JObject []" for v
    by (rule json_parse_text) (use that in auto)
  then show "hlc_UnmarshalJSON (bytes_of (json_text JNull)) b = Some (Timestamp 0 0, None)"
    "hlc_UnmarshalJSON (bytes_of (json_text (JObject []))) b = Some (Timestamp 0 0, None)"
    by (simp_all add: hlc_UnmarshalJSON_def json_Unmarshal_def hlc_store_def store_struct_def
      type_mismatch_def del: json_text.simps)
qed

end
