(* ===== verification/Vector_Json.thy ===== *)
theory Vector_Json
  imports Vector_Encode Json_Decode
begin

text \<open>
  The JSON methods of vector snapshots, \<^verbatim>\<open>vector/encode.go\<close>, over the model of \<^verbatim>\<open>encoding/json\<close>. A map that
  is \<open>None\<close> is Go's nil map, which the decoder leaves for \<^verbatim>\<open>null\<close> or a missing field. The outer \<open>None\<close> of
  a decoder is a panic, which is shown not to happen.
\<close>

record jsonSnapshot =
  json_NodeID :: string
  json_Vec :: "counters option"

text \<open>What \<^verbatim>\<open>json.Marshal\<close> makes of the struct with its tags (it writes the keys of a map in order).\<close>

definition counters_json :: "counters \<Rightarrow> json" where
  "counters_json m =
     JObject (List.map (\<lambda>k. (json_escape k, JNumber (fmt_int (uint (cget m k))))) (sort (keys m)))"

definition snapshot_json :: "jsonSnapshot \<Rightarrow> json" where
  "snapshot_json j =
     JObject
       [(''node_id'', JString (json_escape (json_NodeID j))),
        (''vec'', case json_Vec j of None \<Rightarrow> JNull | Some m \<Rightarrow> counters_json m)]"

text \<open>How \<^verbatim>\<open>json.Unmarshal\<close> stores into it.\<close>

definition vector_put_field :: "string \<Rightarrow> json \<Rightarrow> jsonSnapshot store \<Rightarrow> jsonSnapshot store option" where
  "vector_put_field f v s =
     (if f = ''node_id'' then
        map_option (\<lambda>(x, e). ((fst s)\<lparr>json_NodeID := x\<rparr>, e)) (store_string v (json_NodeID (fst s), snd s))
      else
        map_option (\<lambda>(x, e). ((fst s)\<lparr>json_Vec := x\<rparr>, e)) (store_map v (json_Vec (fst s), snd s)))"

definition vector_store :: "json \<Rightarrow> jsonSnapshot store \<Rightarrow> jsonSnapshot store option" where
  "vector_store = store_struct [''node_id'', ''vec''] vector_put_field"

text \<open>
  A snapshot of the model has a map, perhaps empty. In Go the zero value \<^verbatim>\<open>Snapshot{}\<close> has a nil map, which
  \<^verbatim>\<open>json.Marshal\<close> writes as \<^verbatim>\<open>null\<close> and not as an empty object; both are decoded to the same snapshot
  (\<open>vector_json_nil_map\<close>).
\<close>

definition vector_MarshalJSON :: "snapshot \<Rightarrow> json_error + byte list" where
  "vector_MarshalJSON s =
     (let j = \<lparr>json_NodeID = sn_nodeID s, json_Vec = Some (sn_vec s)\<rparr>
      in Inr (bytes_of (json_text (snapshot_json j))))"

definition vector_UnmarshalJSON ::
  "byte list \<Rightarrow> snapshot \<Rightarrow> (snapshot \<times> json_error option) option" where
  "vector_UnmarshalJSON data s =
     (case json_Unmarshal vector_store data \<lparr>json_NodeID = [], json_Vec = None\<rparr> of
        None \<Rightarrow> None
      | Some (Inl err) \<Rightarrow> Some (s, Some err)
      | Some (Inr j) \<Rightarrow>
          let s = s\<lparr>sn_nodeID := json_NodeID j\<rparr>
          in Some (case json_Vec j of
                     None \<Rightarrow> (s\<lparr>sn_vec := []\<rparr>, None)
                   | Some vec \<Rightarrow> (s\<lparr>sn_vec := vec\<rparr>, None)))"

section \<open>Decoding what was encoded\<close>

lemma snapshot_field_bodies [simp]: "string_body ''node_id''" "string_body ''vec''"
  by (auto intro!: string_body.intros simp: ord_def)

lemma unquote_snapshot_fields [simp]:
  "unquote ''node_id'' = Some ''node_id''" "unquote ''vec'' = Some ''vec''"
  by (simp_all add: unquote_ascii ord_def)

lemma snapshot_parse: "json_parse (json_text (snapshot_json j)) = Some (snapshot_json j)"
  by (rule json_parse_text)
    (simp add: snapshot_json_def counters_json_def int_text_fmt string_body_json_escape list_all_iff
      split: option.splits)

lemma vector_store_snapshot:
  "vector_store (snapshot_json j) s =
     Option.bind (vector_put_field ''node_id'' (JString (json_escape (json_NodeID j))) s)
       (vector_put_field ''vec'' (case json_Vec j of None \<Rightarrow> JNull | Some m \<Rightarrow> counters_json m))"
  by (cases "vector_put_field ''node_id'' (JString (json_escape (json_NodeID j))) s")
    (simp_all add: vector_store_def store_struct_def snapshot_json_def find_field_def)

text \<open>The map that is read back: every name made valid, the entries added in the order of the names.\<close>

definition revalidated :: "counters \<Rightarrow> counters" where
  "revalidated m = foldl (\<lambda>acc k. mput (to_valid k) (cget m k) acc) [] (sort (keys m))"

lemma put_entry_counter: "put_entry k (JNumber (fmt_int (uint (x :: u64)))) (m, e) = Some (mput k x m, e)"
  using unsigned_less [of x, where ?'a = int] by (simp add: put_entry_def store_uint_fmt)

lemma store_entries:
  "store_members put_entry (List.map (\<lambda>k. (json_escape k, JNumber (fmt_int (uint (cget m k))))) ks) (acc, e) =
     Some (foldl (\<lambda>acc k. mput (to_valid k) (cget m k) acc) acc ks, e)"
  by (induction ks arbitrary: acc) (simp_all add: unquote_json_escape put_entry_counter)

lemma vector_json_decoded:
  "json_Unmarshal vector_store (bytes_of (json_text (snapshot_json \<lparr>json_NodeID = n, json_Vec = Some m\<rparr>)))
     \<lparr>json_NodeID = [], json_Vec = None\<rparr> =
   Some (Inr \<lparr>json_NodeID = to_valid n, json_Vec = Some (revalidated m)\<rparr>)"
  by (simp add: json_Unmarshal_def snapshot_parse vector_store_snapshot vector_put_field_def
      store_string_def unquote_json_escape store_map_def counters_json_def store_entries revalidated_def)

lemma vector_json_nil_map:
  "vector_UnmarshalJSON (bytes_of (json_text (snapshot_json \<lparr>json_NodeID = n, json_Vec = None\<rparr>))) t =
   vector_UnmarshalJSON (bytes_of (json_text (snapshot_json \<lparr>json_NodeID = n, json_Vec = Some []\<rparr>))) t"
proof -
  have "json_Unmarshal vector_store (bytes_of (json_text (snapshot_json \<lparr>json_NodeID = n, json_Vec = None\<rparr>)))
      \<lparr>json_NodeID = [], json_Vec = None\<rparr> = Some (Inr \<lparr>json_NodeID = to_valid n, json_Vec = None\<rparr>)"
    by (simp add: json_Unmarshal_def snapshot_parse vector_store_snapshot vector_put_field_def
        store_string_def unquote_json_escape store_map_def)
  then show ?thesis
    by (simp add: vector_UnmarshalJSON_def vector_json_decoded) (simp add: revalidated_def keys_def)
qed

text \<open>\<open>revalidated\<close> is the map itself exactly if all its names are valid.\<close>

lemma foldl_mput_valid:
  assumes "\<forall>k \<in> set ks. valid_utf8 k"
  shows "foldl (\<lambda>acc k. mput (to_valid k) (cget m k) acc) acc ks = foldl (\<lambda>acc k. mput k (cget m k) acc) acc ks"
  using assms by (induction ks arbitrary: acc) (simp_all add: to_valid_id)

lemma map_of_foldl_mput:
  "map_of (foldl (\<lambda>acc k. mput k (cget m k) acc) acc ks) j =
     (if j \<in> set ks then Some (cget m j) else map_of acc j)"
  by (induction ks arbitrary: acc) (auto simp: mput_def update_conv')

lemma keys_foldl_valid:
  "\<forall>k \<in> set (keys acc). valid_utf8 k \<Longrightarrow>
   \<forall>k \<in> set (keys (foldl (\<lambda>acc k. mput (to_valid k) (cget m k) acc) acc ks)). valid_utf8 k"
proof (induction ks arbitrary: acc)
  case (Cons k ks)
  have "\<forall>j \<in> set (keys (mput (to_valid k) (cget m k) acc)). valid_utf8 j"
    using Cons.prems by (simp add: keys_mput valid_to_valid)
  then show ?case using Cons.IH by simp
qed simp

lemma wf_foldl_mput: "wf_map acc \<Longrightarrow> wf_map (foldl (\<lambda>acc k. mput (f k) (g k) acc) acc ks)"
  by (induction ks arbitrary: acc) simp_all

lemma revalidated_same_iff:
  "same_map (revalidated m) m \<longleftrightarrow> (\<forall>k \<in> set (keys m). valid_utf8 k)"
proof
  assume "same_map (revalidated m) m"
  then have "set (keys (revalidated m)) = set (keys m)"
    using same_map_mhas [of "revalidated m" m] by (auto simp: mhas_iff)
  then show "\<forall>k \<in> set (keys m). valid_utf8 k"
    using keys_foldl_valid [of "[]" m "sort (keys m)"] by (simp add: revalidated_def keys_def)
next
  assume "\<forall>k \<in> set (keys m). valid_utf8 k"
  then have "map_of (revalidated m) j = (if mhas m j then Some (cget m j) else None)" for j
    by (simp add: revalidated_def foldl_mput_valid map_of_foldl_mput mhas_iff)
  moreover have "map_of m j = (if mhas m j then Some (cget m j) else None)" for j
    by (auto simp: mhas_def mget_def)
  ultimately show "same_map (revalidated m) m" by (auto simp: same_map_def)
qed

section \<open>All inputs\<close>

lemma vector_field: "json_target (vector_put_field f)"
proof (cases "f = ''node_id''")
  case True
  then show ?thesis
    using string_target.total string_target.keeps
    by unfold_locales (fastforce simp: vector_put_field_def total_store_def)+
next
  case False
  then show ?thesis
    using map_target.total map_target.keeps
    by unfold_locales (fastforce simp: vector_put_field_def total_store_def)+
qed

interpretation vector_target: json_struct "[''node_id'', ''vec'']" vector_put_field
  by (rule json_struct.intro) (rule vector_field)

definition wf_json :: "jsonSnapshot store \<Rightarrow> bool" where
  "wf_json s \<longleftrightarrow> (case json_Vec (fst s) of None \<Rightarrow> True | Some m \<Rightarrow> wf_map m)"

lemma wf_put_entry: "wf_map (fst s) \<Longrightarrow> put_entry k v s = Some s' \<Longrightarrow> wf_map (fst s')"
  by (auto simp: put_entry_def)

lemma wf_store_map:
  assumes "store_map v s = Some s'" "case fst s of None \<Rightarrow> True | Some m \<Rightarrow> wf_map m"
  shows "case fst s' of None \<Rightarrow> True | Some m \<Rightarrow> wf_map m"
proof (cases v)
  case (JObject ms)
  let ?m = "case fst s of None \<Rightarrow> [] | Some m \<Rightarrow> m"
  obtain s1 where s1: "store_members put_entry ms (?m, snd s) = Some s1" "s' = apfst Some s1"
    using assms(1) JObject by (auto simp: store_map_def)
  have "wf_map (fst s1)"
    using assms(2) wf_put_entry
    by (intro store_members_invariant [where P = "\<lambda>s. wf_map (fst s)", OF _ _ s1(1)]) (auto split: option.splits)
  then show ?thesis using s1(2) by simp
qed (use assms in \<open>auto simp: store_map_def dest: type_mismatch_fst\<close>)

lemma wf_put_field: "wf_json s \<Longrightarrow> vector_put_field f v s = Some s' \<Longrightarrow> wf_json s'"
  by (auto simp: vector_put_field_def wf_json_def split: if_splits dest: wf_store_map)

lemma wf_vector_store: "wf_json s \<Longrightarrow> vector_store v s = Some s' \<Longrightarrow> wf_json s'"
proof (cases v)
  case (JObject ms)
  assume s: "wf_json s" "vector_store v s = Some s'"
  have "wf_json s' "
    using s(2) unfolding JObject vector_store_def store_struct_def json.case
    by (rule store_members_invariant [rotated, where P = wf_json, OF s(1)])
      (auto split: option.splits intro: wf_put_field)
  then show ?thesis .
qed (auto simp: vector_store_def store_struct_def wf_json_def dest: type_mismatch_fst)

lemma vector_json_counter:
  "vector_UnmarshalJSON
     (bytes_of (json_text (JObject [(''vec'', JObject [(json_escape k, JNumber (fmt_int i))])]))) s =
   Some (if 0 \<le> i \<and> i < 2 ^ 64 then (\<lparr>sn_nodeID = [], sn_vec = [(to_valid k, word_of_int i)]\<rparr>, None)
         else (s, Some (UnmarshalTypeError (''number '' @ fmt_int i))))"
proof -
  have "json_parse (json_text (JObject [(''vec'', JObject [(json_escape k, JNumber (fmt_int i))])])) =
      Some (JObject [(''vec'', JObject [(json_escape k, JNumber (fmt_int i))])])"
    by (rule json_parse_text) (simp add: int_text_fmt string_body_json_escape)
  then show ?thesis
    by (cases s) (simp add: vector_UnmarshalJSON_def json_Unmarshal_def vector_store_def store_struct_def
      find_field_def vector_put_field_def store_map_def put_entry_def store_uint_fmt unquote_json_escape
      number_mismatch_def save_error_def mput_def)
qed

section \<open>Properties\<close>

text \<open>
  C33. \<^verbatim>\<open>MarshalJSON\<close> always succeeds and \<^verbatim>\<open>UnmarshalJSON\<close> always accepts its output, but JSON texts are
  Unicode: what comes back has every name made valid UTF-8. So the snapshot itself comes back exactly if the node
  and all names in the map are valid UTF-8.
\<close>

theorem vector_json_exact:
  "\<exists>data s'. vector_MarshalJSON s = Inr data \<and> vector_UnmarshalJSON data t = Some (s', None) \<and>
     sn_nodeID s' = to_valid (sn_nodeID s) \<and> wf_map (sn_vec s') \<and>
     (sn_nodeID s' = sn_nodeID s \<and> same_map (sn_vec s') (sn_vec s) \<longleftrightarrow>
      list_all valid_utf8 (sn_nodeID s # keys (sn_vec s)))"
proof -
  have "wf_map (revalidated (sn_vec s))" by (simp add: revalidated_def wf_foldl_mput)
  then show ?thesis
    using vector_json_decoded [of "sn_nodeID s" "sn_vec s"] revalidated_same_iff [of "sn_vec s"]
    by (auto simp: vector_MarshalJSON_def vector_UnmarshalJSON_def to_valid_iff list_all_iff)
qed

text \<open>
  C34. On no input does \<^verbatim>\<open>UnmarshalJSON\<close> panic. It reports a syntax error exactly for what is not a JSON
  document, no error changes the receiver, and on success the receiver holds a proper map. A
  counter in JSON is the decimal text of a number: any integer that fits 64 unsigned bits is stored as it is, any other
  is reported, so no counter wraps around.
\<close>

theorem vector_json_safe:
  "(\<exists>s' e. vector_UnmarshalJSON data s = Some (s', e) \<and>
     (case e of None \<Rightarrow> wf_map (sn_vec s') | Some _ \<Rightarrow> s' = s) \<and>
     (e = Some SyntaxError \<longleftrightarrow> json_parse (string_of data) = None)) \<and>
     vector_UnmarshalJSON
       (bytes_of (json_text (JObject [(''vec'', JObject [(json_escape k, JNumber (fmt_int i))])]))) s =
     Some (if 0 \<le> i \<and> i < 2 ^ 64 then (\<lparr>sn_nodeID = [], sn_vec = [(to_valid k, word_of_int i)]\<rparr>, None)
           else (s, Some (UnmarshalTypeError (''number '' @ fmt_int i))))"
proof -
  let ?z = "\<lparr>json_NodeID = [], json_Vec = None\<rparr> :: jsonSnapshot"
  have syn: "json_Unmarshal vector_store data ?z = Some (Inl SyntaxError) \<longleftrightarrow> json_parse (string_of data) = None"
    unfolding vector_store_def by (rule vector_target.struct.Unmarshal_syntax)
  have "wf_json (?z, None)" by (simp add: wf_json_def)
  then have wf: "json_Vec j = Some m \<Longrightarrow> wf_map m" if "json_Unmarshal vector_store data ?z = Some (Inr j)" for j m
    using that wf_vector_store [of "(?z, None)"]
    by (fastforce simp: json_Unmarshal_def wf_json_def split: option.splits)
  have "\<exists>s' e. vector_UnmarshalJSON data s = Some (s', e) \<and>
     (case e of None \<Rightarrow> wf_map (sn_vec s') | Some _ \<Rightarrow> s' = s) \<and>
     (e = Some SyntaxError \<longleftrightarrow> json_parse (string_of data) = None)"
  proof (cases "json_Unmarshal vector_store data ?z")
    case None
    then show ?thesis using vector_target.struct.Unmarshal_returns [of data ?z] by (simp add: vector_store_def)
  next
    case (Some r)
    then show ?thesis
      using syn wf
      by (cases r; cases "json_Vec (projr r)") (auto simp: vector_UnmarshalJSON_def Let_def)
  qed
  then show ?thesis using vector_json_counter [of k i s] by blast
qed

section \<open>Documents that surprise\<close>

text \<open>
  \<^verbatim>\<open>null\<close> for a counter stores a zero entry, on which \<^verbatim>\<open>Equal\<close> goes wrong; \<^verbatim>\<open>null\<close> for the
  document is not the no-op that \<^verbatim>\<open>encoding/json\<close> asks of an unmarshaler but empties the receiver.
\<close>

lemma vector_json_null_entry:
  "vector_UnmarshalJSON (bytes_of (json_text (JObject [(''vec'', JObject [(''a'', JNull)])]))) s =
     Some (\<lparr>sn_nodeID = [], sn_vec = [(''a'', 0)]\<rparr>, None)"
proof -
  have a: "string_body ''a''" "unquote ''a'' = Some ''a''"
    by (auto simp: ord_def unquote_ascii intro!: string_body.intros)
  have "json_parse (json_text (JObject [(''vec'', JObject [(''a'', JNull)])])) =
      Some (JObject [(''vec'', JObject [(''a'', JNull)])])"
    by (rule json_parse_text) (simp add: a)
  then show ?thesis
    by (cases s) (simp add: vector_UnmarshalJSON_def json_Unmarshal_def vector_store_def store_struct_def
      find_field_def vector_put_field_def store_map_def put_entry_def store_uint_def type_mismatch_def a mput_def)
qed

lemma vector_json_null:
  "vector_UnmarshalJSON (bytes_of (json_text JNull)) s = Some (\<lparr>sn_nodeID = [], sn_vec = []\<rparr>, None)"
proof -
  have "json_parse (json_text JNull) = Some JNull" by (rule json_parse_text) simp
  then show ?thesis
    by (cases s) (simp add: vector_UnmarshalJSON_def json_Unmarshal_def vector_store_def store_struct_def
      type_mismatch_def del: json_text.simps)
qed

text \<open>Two names that are different invalid strings become one entry, and a counter is lost.\<close>

lemma vector_json_collision:
  "revalidated [([CHR 0xFE], 1), ([CHR 0xFF], 2)] = [(encode_rune RuneError, 2)]"
proof -
  have "to_valid [CHR 0xFE] = encode_rune RuneError" "to_valid [CHR 0xFF] = encode_rune RuneError"
    by (simp_all add: to_valid_invalid decode_rune_def ord_def)
  then show ?thesis
    by (simp add: revalidated_def keys_def mget_def mput_def)
qed

end
