(* ===== verification/Vector_KV.thy ===== *)
theory Vector_KV
  imports Vector Decimal
begin

text \<open>
  The key-value store of \<^verbatim>\<open>examples/vector_kv/main.go\<close>, which keeps concurrent writes as siblings. Its map
  from keys to slices of rows is a Go map; a missing key reads as the nil slice. \<open>kv_run\<close> performs a
  sequence of writes; the property says which of them a read returns.
\<close>

section \<open>The store\<close>

record versionedValue =
  row_value :: string
  row_version :: snapshot

record kv_store =
  rows :: "(string, versionedValue list) gomap"

definition newStore :: kv_store where
  "newStore = \<lparr>rows = []\<rparr>"

text \<open>The first loop returns early when the incoming write is stale.\<close>

fun kv_stale :: "snapshot \<Rightarrow> versionedValue list \<Rightarrow> bool" where
  "kv_stale version [] = False"
| "kv_stale version (row # existing) =
     (let rel = vector_Compare version (row_version row)
      in if rel = Before \<or> rel = Equal then True else kv_stale version existing)"

fun kv_keepers :: "snapshot \<Rightarrow> versionedValue list \<Rightarrow> versionedValue list \<Rightarrow> versionedValue list" where
  "kv_keepers version [] keepers = keepers"
| "kv_keepers version (row # existing) keepers =
     (if vector_Compare (row_version row) version = Before
      then kv_keepers version existing keepers
      else kv_keepers version existing (keepers @ [row]))"

definition kv_write :: "string \<Rightarrow> string \<Rightarrow> snapshot \<Rightarrow> kv_store \<Rightarrow> kv_store" where
  "kv_write key val version s =
     (let existing = mget [] (rows s) key
      in if kv_stale version existing then s
         else
           let keepers = kv_keepers version existing [];
               keepers = keepers @ [\<lparr>row_value = val, row_version = version\<rparr>]
           in s\<lparr>rows := mput key keepers (rows s)\<rparr>)"

definition kv_read :: "string \<Rightarrow> kv_store \<Rightarrow> versionedValue list" where
  "kv_read key s = mget [] (rows s) key"

text \<open>\<^verbatim>\<open>versionStr\<close> prints a snapshot with its nodes sorted.\<close>

fun join_strings :: "string list \<Rightarrow> string \<Rightarrow> string" where
  "join_strings [] sep = ''''"
| "join_strings [x] sep = x"
| "join_strings (x # y # xs) sep = x @ sep @ join_strings (y # xs) sep"

definition versionStr :: "snapshot \<Rightarrow> string" where
  "versionStr snap =
     (let nodes = sort (snapshot_Nodes snap);
          parts = List.map (\<lambda>n. n @ '':'' @ fmt_int (int (unat (snapshot_Get snap n)))) nodes
      in ''{'' @ join_strings parts '', '' @ ''}'')"

text \<open>A client's writes, one after the other.\<close>

type_synonym kv_op = "string \<times> string \<times> snapshot"

fun kv_run :: "kv_op list \<Rightarrow> kv_store \<Rightarrow> kv_store" where
  "kv_run [] s = s"
| "kv_run ((key, val, version) # ws) s = kv_run ws (kv_write key val version s)"

section \<open>What a write does\<close>

lemma kv_stale_covers: "kv_stale v rs \<longleftrightarrow> (\<exists>r \<in> set rs. vector_covers (row_version r) v)"
  by (induction v rs rule: kv_stale.induct) (auto simp: vector_covers_def Let_def)

lemma kv_keepers_filter:
  "kv_keepers v rs ks = ks @ filter (\<lambda>r. vector_Compare (row_version r) v \<noteq> Before) rs"
  by (induction v rs ks rule: kv_keepers.induct) auto

text \<open>The rows of a key: well-formed versions, no two of which are causally related.\<close>

definition siblings_ok :: "versionedValue list \<Rightarrow> bool" where
  "siblings_ok rs \<longleftrightarrow> (\<forall>r \<in> set rs. wf_snapshot (row_version r)) \<and>
     sorted_wrt (\<lambda>r s. vector_Compare (row_version r) (row_version s) = Concurrent) rs"

definition rows_after :: "string \<Rightarrow> snapshot \<Rightarrow> versionedValue list \<Rightarrow> versionedValue list" where
  "rows_after val v rs =
     (if kv_stale v rs then rs else kv_keepers v rs [] @ [\<lparr>row_value = val, row_version = v\<rparr>])"

lemma kv_read_write:
  "kv_read k (kv_write key val v s) =
     (if k = key then rows_after val v (kv_read key s) else kv_read k s)"
  by (simp add: kv_read_def kv_write_def rows_after_def Let_def)

lemma versions_concurrent:
  assumes "\<forall>v \<in> set vs. wf_snapshot v"
  shows "sorted_wrt (\<lambda>a b. vector_Compare a b = Concurrent) vs \<longleftrightarrow>
    sorted_wrt (\<lambda>a b. \<not> vector_covers a b \<and> \<not> vector_covers b a) vs"
  using assms by (induction vs) (auto simp: vector_Compare_covers(1))

lemma rows_after_versions:
  assumes "siblings_ok rs" and "wf_snapshot v" and "\<not> kv_stale v rs"
  shows "List.map row_version (rows_after val v rs) =
    filter (\<lambda>r. \<not> vector_covers v r) (List.map row_version rs) @ [v]"
proof -
  have "filter (\<lambda>r. vector_Compare (row_version r) v \<noteq> Before) rs =
      filter (\<lambda>r. \<not> vector_covers v (row_version r)) rs"
    using assms by (intro filter_cong) (auto simp: siblings_ok_def kv_stale_covers vector_Compare_covers(2))
  then show ?thesis
    using assms(3) by (simp add: rows_after_def kv_keepers_filter filter_map comp_def)
qed

lemma rows_after_ok:
  assumes "siblings_ok rs" and "wf_snapshot v"
  shows "siblings_ok (rows_after val v rs)"
proof (cases "kv_stale v rs")
  case True
  then show ?thesis using assms by (simp add: rows_after_def)
next
  case False
  let ?vs = "List.map row_version rs" and ?vs' = "List.map row_version (rows_after val v rs)"
  have wf: "\<forall>u \<in> set ?vs. wf_snapshot u" using assms(1) by (simp add: siblings_ok_def)
  have new: "\<forall>u \<in> set ?vs. \<not> vector_covers u v" using False by (simp add: kv_stale_covers)
  have anti: "sorted_wrt (\<lambda>a b. \<not> vector_covers a b \<and> \<not> vector_covers b a) ?vs"
    using assms(1) versions_concurrent [OF wf] by (simp add: siblings_ok_def sorted_wrt_map)
  have wf': "\<forall>u \<in> set ?vs'. wf_snapshot u"
    unfolding rows_after_versions [OF assms False] using wf assms(2) by auto
  have "sorted_wrt (\<lambda>a b. vector_Compare a b = Concurrent) ?vs'"
    unfolding versions_concurrent [OF wf'] unfolding rows_after_versions [OF assms False]
    by (rule vector_order.keepers_antichain [OF assms(2) wf new anti])
  then show ?thesis using wf' by (simp add: siblings_ok_def sorted_wrt_map)
qed

lemma rows_after_covers:
  assumes "siblings_ok rs" and "wf_snapshot v" and "wf_snapshot w"
    and "w = v \<or> (\<exists>r \<in> set rs. vector_covers (row_version r) w)"
  shows "\<exists>r \<in> set (rows_after val v rs). vector_covers (row_version r) w"
proof (cases "kv_stale v rs")
  case True
  then show ?thesis using assms(4) by (auto simp: rows_after_def kv_stale_covers)
next
  case False
  let ?vs = "List.map row_version rs"
  have wf: "\<forall>u \<in> set ?vs. wf_snapshot u" using assms(1) by (simp add: siblings_ok_def)
  have "\<exists>u \<in> set (filter (\<lambda>r. \<not> vector_covers v r) ?vs @ [v]). vector_covers u w"
    using assms(4)
  proof
    assume "w = v"
    then show ?thesis using vector_order.covers_refl [OF assms(2)] by simp
  next
    assume "\<exists>r \<in> set rs. vector_covers (row_version r) w"
    then obtain u where "u \<in> set ?vs" and "vector_covers u w" by auto
    then show ?thesis by (rule vector_order.keepers_cover [OF assms(2) wf assms(3)])
  qed
  then show ?thesis
    unfolding rows_after_versions [OF assms(1,2) False, symmetric, of val] by auto
qed

text \<open>Every key stays an antichain that covers all writes to the key and holds nothing else.\<close>

definition kv_inv :: "kv_op list \<Rightarrow> string \<Rightarrow> versionedValue list \<Rightarrow> bool" where
  "kv_inv ws key rs \<longleftrightarrow> siblings_ok rs \<and>
     (\<forall>r \<in> set rs. (key, row_value r, row_version r) \<in> set ws) \<and>
     (\<forall>(k, val, v) \<in> set ws. k = key \<longrightarrow> (\<exists>r \<in> set rs. vector_covers (row_version r) v))"

lemma rows_after_source:
  "r \<in> set (rows_after val v rs) \<Longrightarrow> r \<in> set rs \<or> r = \<lparr>row_value = val, row_version = v\<rparr>"
  by (auto simp: rows_after_def kv_keepers_filter split: if_splits)

lemma kv_inv_write:
  assumes "kv_inv ws key (kv_read key s)" and "wf_snapshot v"
    and "\<forall>(k, val, v) \<in> set ws. wf_snapshot v"
  shows "kv_inv (ws @ [(k, val, v)]) key (kv_read key (kv_write k val v s))"
proof (cases "key = k")
  case False
  then show ?thesis using assms(1) by (auto simp: kv_inv_def kv_read_write)
next
  case True
  let ?rs = "kv_read key s" and ?rs' = "rows_after val v (kv_read key s)"
  have ok: "siblings_ok ?rs" using assms(1) by (simp add: kv_inv_def)
  have "(key, row_value r, row_version r) \<in> set (ws @ [(k, val, v)])" if "r \<in> set ?rs'" for r
    using rows_after_source [OF that] assms(1) True by (auto simp: kv_inv_def)
  moreover have "\<exists>r \<in> set ?rs'. vector_covers (row_version r) w"
    if "(key, x, w) \<in> set (ws @ [(k, val, v)])" for x w
  proof (rule rows_after_covers [OF ok assms(2)])
    show "wf_snapshot w" using that assms(2,3) by auto
    show "w = v \<or> (\<exists>r \<in> set ?rs. vector_covers (row_version r) w)"
      using that assms(1) by (auto simp: kv_inv_def)
  qed
  ultimately show ?thesis
    using rows_after_ok [OF ok assms(2)] True by (auto simp: kv_inv_def kv_read_write)
qed

lemma kv_inv_run:
  assumes "kv_inv ws0 key (kv_read key s)" and "\<forall>(k, val, v) \<in> set (ws0 @ ws). wf_snapshot v"
  shows "kv_inv (ws0 @ ws) key (kv_read key (kv_run ws s))"
  using assms
proof (induction ws arbitrary: ws0 s)
  case Nil
  then show ?case by simp
next
  case (Cons a ws)
  obtain k val v where a: "a = (k, val, v)" by (cases a)
  have "kv_inv (ws0 @ [a]) key (kv_read key (kv_write k val v s))"
    unfolding a using Cons.prems by (intro kv_inv_write) (auto simp: a)
  then have "kv_inv ((ws0 @ [a]) @ ws) key (kv_read key (kv_run ws (kv_write k val v s)))"
    by (rule Cons.IH) (use Cons.prems in simp)
  then show ?case by (simp add: a)
qed

section \<open>Properties\<close>

text \<open>
  C13. No update is lost and no stale value is kept. After any sequence of writes to a new store, a read
  returns rows that were written to the key, no two of them causally related, and for every
  write to the key one row whose version is equal to the write's or after it.
\<close>

theorem kv_no_lost_update:
  assumes "\<forall>(k, val, v) \<in> set ws. wf_snapshot v"
  shows "(\<forall>r \<in> set (kv_read key (kv_run ws newStore)).
      (key, row_value r, row_version r) \<in> set ws) \<and>
    sorted_wrt (\<lambda>r s. vector_Compare (row_version r) (row_version s) = Concurrent)
      (kv_read key (kv_run ws newStore)) \<and>
    (\<forall>(k, val, v) \<in> set ws. k = key \<longrightarrow> (\<exists>r \<in> set (kv_read key (kv_run ws newStore)).
      vector_Compare v (row_version r) = Before \<or> vector_Compare v (row_version r) = Equal))"
proof -
  have "kv_inv [] key (kv_read key newStore)"
    by (simp add: kv_inv_def siblings_ok_def kv_read_def newStore_def)
  from kv_inv_run [OF this, of ws] assms show ?thesis
    by (simp add: kv_inv_def siblings_ok_def vector_covers_def)
qed

theorem kv_no_lost_update_witness:
  "let w1 = (''k'', ''one'', \<lparr>sn_nodeID = ''a'', sn_vec = [(''a'', 1)]\<rparr>);
       w2 = (''k'', ''two'', \<lparr>sn_nodeID = ''b'', sn_vec = [(''b'', 1)]\<rparr>);
       rs = kv_read ''k'' (kv_run [w1, w2] newStore)
   in List.map row_value rs = [''one'', ''two''] \<and>
      sorted_wrt (\<lambda>r s. vector_Compare (row_version r) (row_version s) = Concurrent) rs"
proof -
  let ?w1 = "(''k'', ''one'', \<lparr>sn_nodeID = ''a'', sn_vec = [(''a'', 1)]\<rparr>)"
  let ?w2 = "(''k'', ''two'', \<lparr>sn_nodeID = ''b'', sn_vec = [(''b'', 1)]\<rparr>)"
  have "\<forall>(k, val, v) \<in> set [?w1, ?w2]. wf_snapshot v"
    by (simp add: wf_snapshot_def wf_map_def keys_def)
  note kv_no_lost_update [OF this, of "''k''"]
  moreover have "List.map row_value (kv_read ''k'' (kv_run [?w1, ?w2] newStore)) = [''one'', ''two'']"
    by (simp add: kv_read_def kv_write_def newStore_def vector_Compare_def mget_def mhas_def mput_def Let_def)
  ultimately show ?thesis unfolding Let_def by blast
qed

text \<open>The writes of \<^verbatim>\<open>main\<close>, and the rows it prints.\<close>

definition kv_main :: "versionedValue list" where
  "kv_main =
     (let db = newStore; clientA = vector_New ''clientA''; clientB = vector_New ''clientB'';
          (clientA, initial) = vector_Send clientA;
          db = kv_write ''user:42'' ''Alice'' initial db;
          (clientB, s) = vector_Receive initial clientB;
          (clientA, aWrite) = vector_Send clientA;
          (clientB, bWrite) = vector_Send clientB;
          db = kv_write ''user:42'' ''Alice (edited by A)'' aWrite db;
          db = kv_write ''user:42'' ''Alice (edited by B)'' bWrite db
      in kv_read ''user:42'' db)"

text \<open>
  The example does what it announces: the initial value is superseded, and both concurrent edits
  are read back as siblings, with the versions printed in sorted order.
\<close>

lemma kv_main_conflict:
  "List.map (\<lambda>r. (row_value r, versionStr (row_version r))) kv_main =
     [(''Alice (edited by A)'', ''{clientA:2}''), (''Alice (edited by B)'', ''{clientA:1, clientB:2}'')]"
  by (simp add: kv_main_def newStore_def vector_New_def vector_Send_def vector_Receive_def
      snapshotLocked_def copy_loop_def kv_write_def kv_read_def vector_Compare_def mget_def mhas_def
      mput_def versionStr_def snapshot_Nodes_def snapshot_Get_def fmt_int_def decimal.simps digit_def
      char_of_def bit_0 Let_def)

end
