(* ===== verification/Dotted.thy ===== *)
theory Dotted
  imports History
begin

text \<open>
  The versions of \<^verbatim>\<open>dotted/version.go\<close> and the sibling resolution of \<^verbatim>\<open>dotted/resolve.go\<close>. Versions are
  immutable: an operation builds a new map and returns it. A version stands for the set of write
  events \<open>dots_of (dots v)\<close> and the lemmas relate every operation to that set. A nil pointer, on
  which every method would panic, is not a version of the model.
\<close>

section \<open>Versions\<close>

record version =
  dots :: counters

definition dotted_NewVersion :: version where
  "dotted_NewVersion = \<lparr>dots = []\<rparr>"

definition dotted_Increment :: "string \<Rightarrow> version \<Rightarrow> version" where
  "dotted_Increment actor v =
     (let out = copy_loop (dots v) [];
          out = mput actor (cget out actor + 1) out
      in \<lparr>dots = out\<rparr>)"

definition dotted_Merge :: "version \<Rightarrow> version \<Rightarrow> version" where
  "dotted_Merge v other =
     (let out = copy_loop (dots v) [];
          out = range_loop (\<lambda>k c out. if c > cget out k then mput k c out else out) (dots other) out
      in \<lparr>dots = out\<rparr>)"

definition dotted_Descends :: "version \<Rightarrow> version \<Rightarrow> bool" where
  "dotted_Descends v other = range_all (\<lambda>k c. \<not> cget (dots v) k < c) (dots other)"

text \<open>The first loop of \<^verbatim>\<open>Dominates\<close>: \<open>None\<close> is its \<^verbatim>\<open>return false\<close>, otherwise the final \<^verbatim>\<open>strictly\<close>.\<close>

fun dominates_loop :: "counters \<Rightarrow> counters \<Rightarrow> bool \<Rightarrow> bool option" where
  "dominates_loop v [] strictly = Some strictly"
| "dominates_loop v ((k, c) # other) strictly =
     (let vc = cget v k
      in if vc < c then None
         else dominates_loop v other (if vc > c then True else strictly))"

definition dotted_Dominates :: "version \<Rightarrow> version \<Rightarrow> bool" where
  "dotted_Dominates v other =
     (case dominates_loop (dots v) (dots other) False of
        None \<Rightarrow> False
      | Some strictly \<Rightarrow>
          if \<not> strictly \<and> \<not> range_all (\<lambda>k c. mhas (dots other) k) (dots v) then True
          else strictly)"

definition dotted_Equals :: "version \<Rightarrow> version \<Rightarrow> bool" where
  "dotted_Equals v other =
     (if length (dots v) \<noteq> length (dots other) then False
      else range_all (\<lambda>k c. cget (dots other) k = c) (dots v))"

definition dotted_Concurrent :: "version \<Rightarrow> version \<Rightarrow> bool" where
  "dotted_Concurrent v other \<longleftrightarrow> \<not> dotted_Descends v other \<and> \<not> dotted_Descends other v"

definition dotted_Dots :: "version \<Rightarrow> counters" where
  "dotted_Dots v = copy_loop (dots v) []"

section \<open>Resolution of siblings\<close>

record 'a sibling =
  sib_version :: version
  sib_value :: 'a

text \<open>Both functions panic on an empty slice.\<close>

datatype resolve_panic = EmptySiblings

definition ResolveByCustom ::
  "('a sibling list \<Rightarrow> 'a sibling) \<Rightarrow> 'a sibling list \<Rightarrow> resolve_panic + 'a sibling" where
  "ResolveByCustom picker siblings =
     (if length siblings = 0 then Inl EmptySiblings else Inr (picker siblings))"

definition dotSum :: "version \<Rightarrow> u64" where
  "dotSum v = range_loop (\<lambda>k c sum. sum + c) (dots v) 0"

function lww_loop :: "'a sibling list \<Rightarrow> nat \<Rightarrow> nat \<Rightarrow> u64 \<Rightarrow> nat" where
  "lww_loop siblings i bestIdx bestSum =
     (if i < length siblings then
        let s = dotSum (sib_version (siblings ! i))
        in if s > bestSum then lww_loop siblings (i + 1) i s
           else lww_loop siblings (i + 1) bestIdx bestSum
      else bestIdx)"
  by pat_completeness auto

termination
  by (relation "measure (\<lambda>(siblings, i, bestIdx, bestSum). length siblings - i)") auto

declare lww_loop.simps [simp del]

definition ResolveLatestWriteWins :: "'a sibling list \<Rightarrow> resolve_panic + 'a sibling" where
  "ResolveLatestWriteWins siblings =
     (if length siblings = 0 then Inl EmptySiblings
      else Inr (siblings ! lww_loop siblings 0 0 (dotSum (sib_version (siblings ! 0)))))"

section \<open>What the operations do to the history\<close>

definition wf_version :: "version \<Rightarrow> bool" where
  "wf_version v \<longleftrightarrow> wf_map (dots v)"

lemma dotted_New_dots [simp]: "dots dotted_NewVersion = []"
  by (simp add: dotted_NewVersion_def)

lemma dotted_Increment_dots:
  "wf_version v \<Longrightarrow> dots (dotted_Increment a v) = mput a (cget (dots v) a + 1) (dots v)"
  by (simp add: dotted_Increment_def wf_version_def Let_def)

lemma dotted_Merge_dots: "wf_version v \<Longrightarrow> dots (dotted_Merge v w) = max_loop (dots w) (dots v)"
  by (simp add: dotted_Merge_def wf_version_def max_loop_def)

lemma wf_version_ops [simp, intro]:
  "wf_version dotted_NewVersion"
  "wf_version v \<Longrightarrow> wf_version (dotted_Increment a v)"
  "wf_version v \<Longrightarrow> wf_version (dotted_Merge v w)"
  by (simp_all add: wf_version_def dotted_Increment_dots [unfolded wf_version_def]
      dotted_Merge_dots [unfolded wf_version_def])

lemma dotted_Descends_le:
  assumes "wf_version w"
  shows "dotted_Descends v w \<longleftrightarrow> (\<forall>k. cget (dots w) k \<le> cget (dots v) k)"
proof -
  have "cget (dots w) k \<le> x" if "\<not> mhas (dots w) k" for k and x :: u64
    using that by (simp add: mget_absent)
  then show ?thesis
    using assms unfolding dotted_Descends_def wf_version_def
    by (auto simp: range_all_mget [where z = 0] not_less)
qed

lemma dotted_Descends_dots:
  "wf_version w \<Longrightarrow> dotted_Descends v w \<longleftrightarrow> dots_of (dots w) \<subseteq> dots_of (dots v)"
  by (simp add: dotted_Descends_le dots_of_subset)

interpretation dotted_join: causal_join wf_version "\<lambda>v. dots_of (dots v)" dotted_Descends dotted_Merge
  by unfold_locales
     (auto simp: dotted_Descends_dots dotted_Merge_dots dots_of_max_loop wf_version_def [of w for w])

text \<open>The first loop decides \<open>Descends\<close> and looks for a strictly larger counter.\<close>

lemma dominates_loop_eq:
  "dominates_loop v m s =
     (if range_all (\<lambda>k c. \<not> cget v k < c) m
      then Some (s \<or> \<not> range_all (\<lambda>k c. \<not> c < cget v k) m) else None)"
  by (induction v m s rule: dominates_loop.induct) (auto simp: Let_def)

lemma dotted_Dominates_unfold:
  "dotted_Dominates v w \<longleftrightarrow> dotted_Descends v w \<and>
     (\<not> range_all (\<lambda>k c. \<not> c < cget (dots v) k) (dots w) \<or>
      \<not> range_all (\<lambda>k c. mhas (dots w) k) (dots v))"
  by (auto simp: dotted_Dominates_def dominates_loop_eq dotted_Descends_def)

lemma dotted_Dominates_strict:
  assumes "wf_version v" and "no_zero (dots v)" and "wf_version w"
  shows "dotted_Dominates v w \<longleftrightarrow> dotted_Descends v w \<and> \<not> dotted_Descends w v"
proof -
  have v: "wf_map (dots v)" and w: "wf_map (dots w)" using assms by (simp_all add: wf_version_def)
  note nz = no_zero_mhas [OF v assms(2)]
  have "(\<exists>k. mhas (dots w) k \<and> cget (dots w) k < cget (dots v) k) \<or>
      (\<exists>k. mhas (dots v) k \<and> \<not> mhas (dots w) k) \<longleftrightarrow>
      (\<exists>k. cget (dots w) k < cget (dots v) k)"
    by (metis nz mget_absent word_gt_0)
  then show ?thesis
    unfolding dotted_Dominates_unfold dotted_Descends_le [OF assms(1)]
    by (simp add: range_all_mget [OF v, where z = 0] range_all_mget [OF w, where z = 0] not_le)
qed

lemma dotted_Equals_iff:
  assumes "wf_version v" and "no_zero (dots v)" and "wf_version w" and "no_zero (dots w)"
  shows "dotted_Equals v w \<longleftrightarrow> dots_of (dots v) = dots_of (dots w)"
proof -
  have "dotted_Equals v w \<longleftrightarrow>
      length (dots v) = length (dots w) \<and> range_all (\<lambda>k c. cget (dots w) k = c) (dots v)"
    by (simp add: dotted_Equals_def)
  then show ?thesis
    using assms length_all_entries [of "dots v" "dots w"] by (simp add: wf_version_def dots_of_eq)
qed

subsection \<open>Versions that a store can build\<close>

text \<open>
  \<open>built n v\<close>: \<open>v\<close> comes from \<^verbatim>\<open>NewVersion\<close> by \<^verbatim>\<open>Increment\<close> and \<^verbatim>\<open>Merge\<close> with at most \<open>n\<close> increments on
  any path.
\<close>

inductive built :: "nat \<Rightarrow> version \<Rightarrow> bool" where
  built_New: "built n dotted_NewVersion"
| built_Increment: "built n v \<Longrightarrow> built (Suc n) (dotted_Increment a v)"
| built_Merge: "built n v \<Longrightarrow> built n w \<Longrightarrow> built n (dotted_Merge v w)"

lemma built_invariant:
  assumes "built n v" and "n < 2 ^ 64"
  shows "wf_version v \<and> no_zero (dots v) \<and> (\<forall>a. unat (cget (dots v) a) \<le> n)"
  using assms
proof (induction rule: built.induct)
  case (built_New n)
  then show ?case by simp
next
  case (built_Increment n v a)
  then have v: "wf_version v" "no_zero (dots v)" and le: "\<And>a. unat (cget (dots v) a) \<le> n" by auto
  have s: "unat (cget (dots v) a + 1) = unat (cget (dots v) a) + 1"
    using le [of a] built_Increment.prems by (simp add: unat_plus_one)
  then have "cget (dots v) a + 1 \<noteq> 0" by (metis add_is_0 unat_0 zero_neq_one)
  then show ?case
    using v s le by (auto simp: dotted_Increment_dots wf_version_def [of v] no_zero_mput intro: le_SucI)
next
  case (built_Merge n v w)
  then show ?case
    by (auto simp: dotted_Merge_dots wf_version_def no_zero_max_loop cget_max_loop unat_max)
qed

subsection \<open>The last-write-wins loop\<close>

lemma unat_dotSum:
  assumes "card (dots_of (dots v)) < 2 ^ 64" and "wf_version v"
  shows "unat (dotSum v) = card (dots_of (dots v))"
proof -
  let ?sum = "\<lambda>m :: counters. sum_list (List.map (\<lambda>e. unat (snd e)) m)"
  have "unat s + ?sum m < 2 ^ 64 \<Longrightarrow>
      unat (range_loop (\<lambda>k c sum. sum + c) m s) = unat s + ?sum m" for m :: counters and s :: u64
  proof (induction m arbitrary: s)
    case Nil
    then show ?case by simp
  next
    case (Cons e m)
    obtain k c where e: "e = (k, c)" by fastforce
    have "unat (s + c) = unat s + unat c"
      using Cons.prems by (simp add: e unat_word_ariths)
    then show ?case using Cons by (simp add: e)
  qed
  from this [of 0 "dots v"] show ?thesis
    using assms card_dots_of [of "dots v"] by (simp add: dotSum_def wf_version_def)
qed

text \<open>The loop keeps the index of the first largest sum among the siblings seen so far.\<close>

lemma lww_loop_first_max:
  fixes siblings :: "'a sibling list"
  defines "S \<equiv> \<lambda>j. dotSum (sib_version (siblings ! j))"
  assumes "i \<le> length siblings" and "b < length siblings"
    and "\<forall>j < i. S j \<le> S b" and "\<forall>j < b. S j < S b" and "b \<le> i"
  shows "lww_loop siblings i b (S b) < length siblings \<and>
    (\<forall>j < length siblings. S j \<le> S (lww_loop siblings i b (S b))) \<and>
    (\<forall>j < lww_loop siblings i b (S b). S j < S (lww_loop siblings i b (S b)))"
  using assms(2-6)
proof (induction "length siblings - i" arbitrary: i b)
  case 0
  then show ?case by (subst (1 2 3 4) lww_loop.simps) auto
next
  case (Suc n)
  then have i: "i < length siblings" by simp
  show ?case
  proof (cases "S i > S b")
    case True
    have "lww_loop siblings i b (S b) = lww_loop siblings (i + 1) i (S i)"
      using i True by (subst lww_loop.simps) (simp add: S_def Let_def)
    moreover have "\<forall>j < i + 1. S j \<le> S i" and "\<forall>j < i. S j < S i"
      using Suc.prems(3) True by (auto simp: less_Suc_eq intro: le_less_trans)
    ultimately show ?thesis using Suc.hyps(1) [of "i + 1" i] Suc.hyps(2) i by simp
  next
    case False
    have "lww_loop siblings i b (S b) = lww_loop siblings (i + 1) b (S b)"
      using i False by (subst lww_loop.simps) (simp add: S_def Let_def)
    moreover have "\<forall>j < i + 1. S j \<le> S b"
      using Suc.prems(3) False by (auto simp: less_Suc_eq not_less)
    ultimately show ?thesis using Suc.hyps(1) [of "i + 1" b] Suc.hyps(2) Suc.prems i by simp
  qed
qed

section \<open>Properties\<close>

text \<open>
  C10. Versions implement sets of dots. \<^verbatim>\<open>NewVersion\<close> is the empty set, \<^verbatim>\<open>Merge\<close> the union, \<^verbatim>\<open>Descends\<close>
  inclusion and \<^verbatim>\<open>Concurrent\<close> incomparability; \<^verbatim>\<open>Increment\<close> adds exactly one dot, the actor's next,
  which was not there before (as long as the actor's counter is not the largest \<^verbatim>\<open>uint64\<close>).
\<close>

theorem dotted_refines_dot_sets:
  assumes "wf_version v" and "wf_version w" and "cget (dots v) a \<noteq> - 1"
  shows "dots_of (dots dotted_NewVersion) = {} \<and>
    dots_of (dots (dotted_Merge v w)) = dots_of (dots v) \<union> dots_of (dots w) \<and>
    (dotted_Descends v w \<longleftrightarrow> dots_of (dots w) \<subseteq> dots_of (dots v)) \<and>
    (dotted_Concurrent v w \<longleftrightarrow>
      \<not> dots_of (dots w) \<subseteq> dots_of (dots v) \<and> \<not> dots_of (dots v) \<subseteq> dots_of (dots w)) \<and>
    dots_of (dots (dotted_Increment a v)) =
      insert (a, unat (cget (dots v) a) + 1) (dots_of (dots v)) \<and>
    (a, unat (cget (dots v) a) + 1) \<notin> dots_of (dots v)"
proof -
  have "unat (cget (dots v) a + 1) = unat (cget (dots v) a) + 1"
    using assms(3) by (rule unat_plus_one_not_max)
  then have "dots_of (dots (dotted_Increment a v)) =
      insert (a, unat (cget (dots v) a) + 1) (dots_of (dots v))"
    using assms(1) by (auto simp: dotted_Increment_dots le_Suc_eq split: if_splits)
  then show ?thesis
    using assms(1,2) dotted_join.history_merge
    by (simp add: dotted_Descends_dots dotted_Concurrent_def)
qed

definition dotted_base :: version where
  "dotted_base = dotted_Increment ''n1'' dotted_NewVersion"

theorem dotted_refines_dot_sets_witness:
  "dots_of (dots (dotted_Increment ''n1'' dotted_base)) = {(''n1'', 1), (''n1'', 2)} \<and>
   dotted_Concurrent (dotted_Increment ''n1'' dotted_base) (dotted_Increment ''n2'' dotted_base)"
proof -
  have wf: "wf_version dotted_NewVersion" "wf_version dotted_base" by (auto simp: dotted_base_def)
  have g: "dots dotted_base = [(''n1'', 1)]"
    by (simp add: dotted_base_def dotted_Increment_dots mput_def)
  have "dots_of (dots dotted_base) = {(''n1'', 1)}"
    using dotted_refines_dot_sets [OF wf(1) wf(1), of "''n1''"]
    by (simp add: dotted_base_def)
  moreover have "cget (dots dotted_base) ''n1'' = 1" by (simp add: g mget_def)
  ultimately have 1: "dots_of (dots (dotted_Increment ''n1'' dotted_base)) = {(''n1'', 1), (''n1'', 2)}"
    using dotted_refines_dot_sets [OF wf(2) wf(2), of "''n1''"] by (auto simp: numeral_2_eq_2)
  have "dotted_Concurrent (dotted_Increment ''n1'' dotted_base) (dotted_Increment ''n2'' dotted_base)"
    using wf(2) by (simp add: dotted_Concurrent_def dotted_Descends_def dotted_Increment_dots g mput_def mget_def)
  then show ?thesis using 1 by simp
qed

text \<open>
  \<^verbatim>\<open>Merge\<close> is the least upper bound: the result descends from both versions, and any version that
  descends from both descends from it. Up to equal histories it is commutative, associative and
  idempotent, and merging in a version already covered changes nothing.
\<close>

lemma dotted_Merge_lub:
  assumes "wf_version u" and "wf_version v" and "wf_version w"
  shows "dotted_Descends (dotted_Merge v w) v \<and> dotted_Descends (dotted_Merge v w) w \<and>
    (dotted_Descends u (dotted_Merge v w) \<longleftrightarrow> dotted_Descends u v \<and> dotted_Descends u w) \<and>
    dots_of (dots (dotted_Merge v w)) = dots_of (dots (dotted_Merge w v)) \<and>
    dots_of (dots (dotted_Merge (dotted_Merge u v) w)) =
      dots_of (dots (dotted_Merge u (dotted_Merge v w))) \<and>
    (dotted_Descends v w \<longleftrightarrow> dots_of (dots (dotted_Merge v w)) = dots_of (dots v))"
  using assms dotted_join.merge_upper dotted_join.merge_least dotted_join.merge_laws(1,2)
  by (auto simp: dotted_join.history_merge dotted_Descends_dots)

text \<open>
  For versions that a store can build with fewer than \<open>2 ^ 64\<close> increments, exactly one of the
  four answers holds of any two: \<^verbatim>\<open>Equals\<close>, the first \<^verbatim>\<open>Dominates\<close>, the second \<^verbatim>\<open>Dominates\<close>, or
  \<^verbatim>\<open>Concurrent\<close>; and \<^verbatim>\<open>Dominates\<close> is strict descent.
\<close>

lemma dotted_exactly_one:
  assumes "built n v" and "built n w" and "n < 2 ^ 64"
  shows "of_bool (dotted_Equals v w) + of_bool (dotted_Dominates v w) +
      of_bool (dotted_Dominates w v) + of_bool (dotted_Concurrent v w) = (1::nat) \<and>
    (dotted_Dominates v w \<longleftrightarrow> dotted_Descends v w \<and> \<not> dotted_Descends w v)"
proof -
  note i = built_invariant [OF assms(1,3)] built_invariant [OF assms(2,3)]
  then show ?thesis
    using dotted_join.four_cases [of v w]
    by (simp add: dotted_Dominates_strict dotted_Equals_iff dotted_Concurrent_def)
qed

text \<open>
  Counters never vanish. A version built with fewer than \<open>2 ^ 64\<close> increments on any path is a proper
  map without zero entries whose counters are at most the number of increments, so no counter wraps,
  \<^verbatim>\<open>Equals\<close> is equality of histories, and \<^verbatim>\<open>Dots\<close> returns the map itself.
\<close>

lemma dotted_built_counters:
  assumes "built n v" and "built n w" and "n < 2 ^ 64"
  shows "wf_map (dots v) \<and> no_zero (dots v) \<and> (\<forall>a. unat (cget (dots v) a) \<le> n) \<and>
    dotted_Dots v = dots v \<and>
    (dotted_Equals v w \<longleftrightarrow> dots_of (dots v) = dots_of (dots w))"
  using built_invariant [OF assms(1,3)] built_invariant [OF assms(2,3)]
  by (simp add: dotted_Equals_iff dotted_Dots_def wf_version_def)

text \<open>
  What a wrap does. Incrementing an actor at the largest counter stores 0: the new version no longer
  descends from the old one. Against the empty version it then answers \<^verbatim>\<open>Dominates\<close> although the empty
  version descends from it, and \<^verbatim>\<open>Equals\<close> says no although the histories are equal.
\<close>

lemma dotted_Increment_wraps:
  "let full = \<lparr>dots = [(''n1'', - 1)]\<rparr>; v = dotted_Increment ''n1'' full; new = dotted_NewVersion
   in dots v = [(''n1'', 0)] \<and> \<not> dotted_Descends v full \<and>
      dotted_Dominates v new \<and> dotted_Descends new v \<and> \<not> dotted_Equals v new \<and>
      dots_of (dots v) = dots_of (dots new)"
proof -
  have "dots (dotted_Increment ''n1'' \<lparr>dots = [(''n1'', - 1)]\<rparr>) = [(''n1'', 0)]"
    by (simp add: dotted_Increment_def copy_loop_def mput_def mget_def Let_def)
  then show ?thesis
    by (simp add: dotted_Descends_def dotted_Dominates_def dotted_Equals_def mget_def mhas_def dots_of_eq
        word_gt_0 Let_def)
qed

text \<open>
  The order in which Go visits the maps does not matter: for versions laid out differently, the
  results of \<^verbatim>\<open>Increment\<close> and \<^verbatim>\<open>Merge\<close> stand for the same map and all comparisons answer the same.
\<close>

lemma dotted_order_independent:
  assumes "wf_version v" and "wf_version v'" and "wf_version w" and "wf_version w'"
    and "same_map (dots v) (dots v')" and "same_map (dots w) (dots w')"
  shows "same_map (dots (dotted_Increment a v)) (dots (dotted_Increment a v')) \<and>
    same_map (dots (dotted_Merge v w)) (dots (dotted_Merge v' w')) \<and>
    dotted_Descends v w = dotted_Descends v' w' \<and>
    dotted_Dominates v w = dotted_Dominates v' w' \<and>
    dotted_Equals v w = dotted_Equals v' w' \<and> dotSum v = dotSum v'"
proof -
  have wf: "wf_map (dots v)" "wf_map (dots v')" "wf_map (dots w)" "wf_map (dots w')"
    using assms(1-4) by (simp_all add: wf_version_def)
  note mv = same_map_mget [OF assms(5)] same_map_mhas [OF assms(5)]
    and mw = same_map_mget [OF assms(6)] same_map_mhas [OF assms(6)]
  have len: "length (dots v) = length (dots v')" "length (dots w) = length (dots w')"
    using same_map_length wf assms(5,6) by blast+
  have all_v: "range_all P (dots v) = range_all P (dots v')" for P
    by (simp add: range_all_mget [OF wf(1), where z = 0] range_all_mget [OF wf(2), where z = 0] mv)
  have all_w: "range_all P (dots w) = range_all P (dots w')" for P
    by (simp add: range_all_mget [OF wf(3), where z = 0] range_all_mget [OF wf(4), where z = 0] mw)
  have sum: "dotSum x = (\<Sum>e \<in> set (dots x). snd e)" if "wf_map (dots x)" for x
  proof -
    have d: "distinct (dots x)" using that by (simp add: wf_map_def keys_def distinct_map)
    have "range_loop (\<lambda>k c sum. sum + c) m s = s + sum_list (List.map snd m)"
      for m :: counters and s :: u64
      by (induction m arbitrary: s) auto
    then show ?thesis using d
      by (simp add: dotSum_def sum_list_distinct_conv_sum_set)
  qed
  have set_v: "set (dots v) = set (dots v')" using same_map_set wf(1,2) assms(5) by blast
  have "same_map (dots (dotted_Increment a v)) (dots (dotted_Increment a v'))"
    using assms(1,2,5) by (simp add: dotted_Increment_dots mv same_map_mput)
  moreover have "same_map (dots (dotted_Merge v w)) (dots (dotted_Merge v' w'))"
    using assms by (simp add: dotted_Merge_dots wf same_map_max_loop)
  ultimately show ?thesis
    using sum [OF wf(1)] sum [OF wf(2)] set_v
    by (simp add: dotted_Descends_def dotted_Dominates_unfold dotted_Equals_def all_v all_w mv mw len)
qed

text \<open>
  C31. Last write wins. On a non-empty slice whose histories are smaller than \<open>2 ^ 64\<close>, the winner is one
  of the siblings, has the largest history, and is the first in the slice to have it; so no sibling
  dominates the winner. On an empty slice both resolvers panic.
\<close>

theorem ResolveLatestWriteWins_correct:
  assumes "siblings \<noteq> []"
    and "\<forall>s \<in> set siblings. wf_version (sib_version s) \<and> no_zero (dots (sib_version s)) \<and>
      card (dots_of (dots (sib_version s))) < 2 ^ 64"
  shows "\<exists>b < length siblings. ResolveLatestWriteWins siblings = Inr (siblings ! b) \<and>
    (\<forall>j < length siblings. card (dots_of (dots (sib_version (siblings ! j)))) \<le>
      card (dots_of (dots (sib_version (siblings ! b))))) \<and>
    (\<forall>j < b. card (dots_of (dots (sib_version (siblings ! j)))) <
      card (dots_of (dots (sib_version (siblings ! b))))) \<and>
    {s \<in> set siblings. dotted_Dominates (sib_version s) (sib_version (siblings ! b))} = {}"
proof -
  let ?S = "\<lambda>j. dotSum (sib_version (siblings ! j))"
  let ?h = "\<lambda>s. dots_of (dots (sib_version s))"
  define b where "b = lww_loop siblings 0 0 (?S 0)"
  have b: "b < length siblings" "\<forall>j < length siblings. ?S j \<le> ?S b" "\<forall>j < b. ?S j < ?S b"
    using lww_loop_first_max [of 0 siblings 0] assms(1) by (auto simp: b_def)
  have S: "unat (?S j) = card (?h (siblings ! j))" if "j < length siblings" for j
    using assms(2) that by (intro unat_dotSum) auto
  have le: "card (?h (siblings ! j)) \<le> card (?h (siblings ! b))" if "j < length siblings" for j
  proof -
    have "unat (?S j) \<le> unat (?S b)" using b(2) that by (simp add: word_le_nat_alt)
    then show ?thesis by (simp only: S [OF that] S [OF b(1)])
  qed
  have lt: "card (?h (siblings ! j)) < card (?h (siblings ! b))" if "j < b" for j
  proof -
    have "unat (?S j) < unat (?S b)" using b(3) that by (simp add: word_less_nat_alt)
    moreover have "j < length siblings" using that b(1) by simp
    ultimately show ?thesis by (simp only: S b(1))
  qed
  have "\<not> dotted_Dominates (sib_version s) (sib_version (siblings ! b))" if s: "s \<in> set siblings" for s
  proof
    assume d: "dotted_Dominates (sib_version s) (sib_version (siblings ! b))"
    have ok: "wf_version (sib_version s)" "no_zero (dots (sib_version s))"
        "wf_version (sib_version (siblings ! b))"
      using assms(2) s b(1) by auto
    have "?h (siblings ! b) \<subset> ?h s"
      using d dotted_Dominates_strict [OF ok] by (simp add: dotted_Descends_dots ok psubset_eq) blast
    moreover have "finite (?h s)" using card_dots_of ok(1) by (simp add: wf_version_def)
    ultimately have "card (?h (siblings ! b)) < card (?h s)" by (rule psubset_card_mono [rotated])
    moreover obtain j where "j < length siblings" and "s = siblings ! j"
      using s by (auto simp: in_set_conv_nth)
    ultimately show False using le [of j] by simp
  qed
  moreover have "ResolveLatestWriteWins siblings = Inr (siblings ! b)"
    using assms(1) by (simp add: ResolveLatestWriteWins_def b_def)
  ultimately show ?thesis using b(1) le lt by blast
qed

theorem ResolveLatestWriteWins_correct_witness:
  "ResolveLatestWriteWins
     [\<lparr>sib_version = \<lparr>dots = [(''n1'', 2)]\<rparr>, sib_value = ''x''\<rparr>,
      \<lparr>sib_version = \<lparr>dots = [(''n1'', 1), (''n2'', 1)]\<rparr>, sib_value = ''y''\<rparr>] =
     Inr \<lparr>sib_version = \<lparr>dots = [(''n1'', 2)]\<rparr>, sib_value = ''x''\<rparr>"
proof -
  let ?x = "\<lparr>sib_version = \<lparr>dots = [(''n1'', 2)]\<rparr>, sib_value = ''x''\<rparr>"
  let ?y = "\<lparr>sib_version = \<lparr>dots = [(''n1'', 1), (''n2'', 1)]\<rparr>, sib_value = ''y''\<rparr>"
  have wf: "wf_map [(''n1'', 2 :: u64)]" "wf_map [(''n1'', 1 :: u64), (''n2'', 1)]"
    by (simp_all add: wf_map_def keys_def)
  have c: "card (dots_of [(''n1'', 2)]) = 2" "card (dots_of [(''n1'', 1), (''n2'', 1)]) = 2"
    using card_dots_of [OF wf(1)] card_dots_of [OF wf(2)] by simp_all
  have ne: "[?x, ?y] \<noteq> []" by simp
  have ok: "\<forall>s \<in> set [?x, ?y]. wf_version (sib_version s) \<and> no_zero (dots (sib_version s)) \<and>
      card (dots_of (dots (sib_version s))) < 2 ^ 64"
    using wf c by (simp add: wf_version_def no_zero_def)
  obtain b where b: "b < length [?x, ?y]" "ResolveLatestWriteWins [?x, ?y] = Inr ([?x, ?y] ! b)"
      "\<forall>j < b. card (dots_of (dots (sib_version ([?x, ?y] ! j)))) <
        card (dots_of (dots (sib_version ([?x, ?y] ! b))))"
    using ResolveLatestWriteWins_correct [OF ne ok] by blast
  have "b = 0" using b(1,3) c by (cases b) auto
  then show ?thesis using b(2) by simp
qed

text \<open>
  What last write wins loses. Two concurrent siblings: whichever wins, the other's write is in no
  history that remains, and a sum that wraps makes the resolver prefer a version another one dominates.
\<close>

lemma ResolveLatestWriteWins_loses:
  "let a = \<lparr>sib_version = \<lparr>dots = [(''n1'', 2)]\<rparr>, sib_value = ''Alice''\<rparr>;
       b = \<lparr>sib_version = \<lparr>dots = [(''n1'', 1), (''n2'', 2)]\<rparr>, sib_value = ''Bob''\<rparr>;
       old = \<lparr>sib_version = \<lparr>dots = [(''n1'', - 1)]\<rparr>, sib_value = ''old''\<rparr>;
       new = \<lparr>sib_version = \<lparr>dots = [(''n1'', - 1), (''n2'', 1)]\<rparr>, sib_value = ''new''\<rparr>
   in dotted_Concurrent (sib_version a) (sib_version b) \<and>
      ResolveLatestWriteWins [a, b] = Inr b \<and>
      (''n1'', 2) \<in> dots_of (dots (sib_version a)) \<and> (''n1'', 2) \<notin> dots_of (dots (sib_version b)) \<and>
      dotted_Dominates (sib_version new) (sib_version old) \<and>
      ResolveLatestWriteWins [new, old] = Inr old"
  by (simp add: dotted_Concurrent_def dotted_Descends_def dotted_Dominates_def mget_def mhas_def
      ResolveLatestWriteWins_def dotSum_def lww_loop.simps Let_def word_gt_0)

end
