(* ===== verification/Go_Time.thy ===== *)
theory Go_Time
  imports Prelude "HOL-Library.Signed_Division"
begin

text \<open>
  What the library uses of Go's package \<^verbatim>\<open>time\<close>, and the clocks of \<^verbatim>\<open>internal/wallclock\<close> on top of it. A
  \<^verbatim>\<open>time.Time\<close> is a wall-clock instant, here an unbounded number of nanoseconds since the Unix epoch
  (Go counts seconds in an \<^verbatim>\<open>int64\<close>), and possibly a monotonic reading. As documented, two times that
  both have a monotonic reading are compared and subtracted by it, all others by the wall clock. A
  \<^verbatim>\<open>time.Duration\<close> is an \<^verbatim>\<open>int64\<close>: differences saturate, sums wrap.
\<close>

section \<open>Durations\<close>

type_synonym duration = i64

definition min_duration :: duration where
  "min_duration = - (2 ^ 63)"

definition max_duration :: duration where
  "max_duration = 2 ^ 63 - 1"

definition saturate :: "int \<Rightarrow> duration" where
  "saturate d =
     (if d < - (2 ^ 63) then min_duration else if 2 ^ 63 \<le> d then max_duration else word_of_int d)"

lemma sint_saturate:
  "sint (saturate d) = (if d < - (2 ^ 63) then - (2 ^ 63) else if 2 ^ 63 \<le> d then 2 ^ 63 - 1 else d)"
proof -
  have "sint min_duration = - (2 ^ 63)" "sint max_duration = 2 ^ 63 - 1"
    by (simp_all add: min_duration_def max_duration_def)
  then show ?thesis by (simp add: saturate_def sint_of_int)
qed

lemma sint_saturate_id: "- (2 ^ 63) \<le> d \<Longrightarrow> d < 2 ^ 63 \<Longrightarrow> sint (saturate d) = d"
  by (simp add: sint_saturate)

section \<open>Instants\<close>

record gotime =
  wall_ns :: int
  mono_ns :: "int option"

text \<open>A time with a monotonic reading keeps it only in the years its wall clock is packed for.\<close>

definition packed_wall :: "int \<Rightarrow> bool" where
  "packed_wall w \<longleftrightarrow> - 2682288000 * 10 ^ 9 \<le> w \<and> w < (2 ^ 33 - 2682288000) * 10 ^ 9"

definition time_Add :: "gotime \<Rightarrow> duration \<Rightarrow> gotime" where
  "time_Add t d =
     (let w = wall_ns t + sint d
      in \<lparr>wall_ns = w,
          mono_ns =
            (case mono_ns t of
               None \<Rightarrow> None
             | Some m \<Rightarrow>
                 if packed_wall w \<and> - (2 ^ 63) \<le> m + sint d \<and> m + sint d < 2 ^ 63
                 then Some (m + sint d) else None)\<rparr>)"

definition time_Sub :: "gotime \<Rightarrow> gotime \<Rightarrow> duration" where
  "time_Sub t u =
     (case (mono_ns t, mono_ns u) of
        (Some m, Some n) \<Rightarrow> saturate (m - n)
      | _ \<Rightarrow> saturate (wall_ns t - wall_ns u))"

definition time_Before :: "gotime \<Rightarrow> gotime \<Rightarrow> bool" where
  "time_Before t u \<longleftrightarrow>
     (case (mono_ns t, mono_ns u) of
        (Some m, Some n) \<Rightarrow> m < n
      | _ \<Rightarrow> wall_ns t < wall_ns u)"

definition time_After :: "gotime \<Rightarrow> gotime \<Rightarrow> bool" where
  "time_After t u \<longleftrightarrow>
     (case (mono_ns t, mono_ns u) of
        (Some m, Some n) \<Rightarrow> m > n
      | _ \<Rightarrow> wall_ns t > wall_ns u)"

definition time_UnixNano :: "gotime \<Rightarrow> i64" where
  "time_UnixNano t = word_of_int (wall_ns t)"

text \<open>\<^verbatim>\<open>time.Unix(sec, nsec)\<close> for an \<^verbatim>\<open>nsec\<close> in the range of a second.\<close>

definition time_Unix :: "i64 \<Rightarrow> i64 \<Rightarrow> gotime" where
  "time_Unix s ns = \<lparr>wall_ns = sint s * 10 ^ 9 + sint ns, mono_ns = None\<rparr>"

lemma time_After_Before: "time_After t u \<longleftrightarrow> time_Before u t"
  by (auto simp: time_After_def time_Before_def split: option.splits)

text \<open>
  \<open>on_scale key ts\<close>: the times \<open>ts\<close> are compared on one scale, \<open>key\<close>: either none of them has a
  monotonic reading, or all of them have one.
\<close>

definition on_scale :: "(gotime \<Rightarrow> int) \<Rightarrow> gotime set \<Rightarrow> bool" where
  "on_scale key ts \<longleftrightarrow>
     (\<forall>t \<in> ts. mono_ns t = None \<and> key t = wall_ns t) \<or> (\<forall>t \<in> ts. mono_ns t = Some (key t))"

lemma on_scale_compare:
  assumes "on_scale key ts" and "t \<in> ts" and "u \<in> ts"
  shows "time_Before t u \<longleftrightarrow> key t < key u" and "time_After t u \<longleftrightarrow> key u < key t"
    and "time_Sub t u = saturate (key t - key u)"
  using assms by (auto simp: on_scale_def time_Before_def time_After_def time_Sub_def)

text \<open>Mixed times make the comparison cyclic: it is an order on one scale only.\<close>

lemma mixed_times_cycle:
  "let a = \<lparr>wall_ns = 5, mono_ns = Some 1\<rparr>; b = \<lparr>wall_ns = 2, mono_ns = Some 2\<rparr>; c = \<lparr>wall_ns = 3, mono_ns = None\<rparr>
   in time_Before a b \<and> time_Before b c \<and> time_Before c a"
  by (simp add: time_Before_def)

section \<open>The wall clocks\<close>

text \<open>\<^verbatim>\<open>realClock\<close>: \<open>now\<close> is what \<^verbatim>\<open>time.Now()\<close> returned to the call.\<close>

definition real_Now :: "gotime \<Rightarrow> gotime" where
  "real_Now now = now"

definition real_NowNanos :: "gotime \<Rightarrow> i64" where
  "real_NowNanos now = time_UnixNano now"

record fake =
  fake_now :: gotime

definition NewFake :: "gotime \<Rightarrow> fake" where
  "NewFake initial = \<lparr>fake_now = initial\<rparr>"

definition fake_Now :: "fake \<Rightarrow> gotime" where
  "fake_Now f = fake_now f"

definition fake_NowNanos :: "fake \<Rightarrow> i64" where
  "fake_NowNanos f = time_UnixNano (fake_now f)"

definition fake_Set :: "gotime \<Rightarrow> fake \<Rightarrow> fake" where
  "fake_Set t f = f\<lparr>fake_now := t\<rparr>"

definition fake_Advance :: "duration \<Rightarrow> fake \<Rightarrow> fake" where
  "fake_Advance d f = f\<lparr>fake_now := time_Add (fake_now f) d\<rparr>"

definition fake_Step :: "duration \<Rightarrow> fake \<Rightarrow> fake" where
  "fake_Step d f = f\<lparr>fake_now := time_Add (fake_now f) d\<rparr>"

definition fake_Reverse :: "duration \<Rightarrow> fake \<Rightarrow> fake" where
  "fake_Reverse d f = f\<lparr>fake_now := time_Add (fake_now f) (- d)\<rparr>"

lemmas fake_defs = NewFake_def fake_Now_def fake_NowNanos_def fake_Set_def fake_Advance_def
  fake_Step_def fake_Reverse_def

text \<open>The nanoseconds of a fake clock move exactly by the duration, in either direction.\<close>

lemma fake_NowNanos_moves:
  "fake_NowNanos (fake_Advance d f) = fake_NowNanos f + d"
  "fake_NowNanos (fake_Step d f) = fake_NowNanos f + d"
  "d \<noteq> min_duration \<Longrightarrow> fake_NowNanos (fake_Reverse d f) = fake_NowNanos f - d"
  "fake_NowNanos (fake_Set t f) = time_UnixNano t"
proof -
  have add: "time_UnixNano (time_Add t d) = time_UnixNano t + d" for t d
    by (simp add: time_UnixNano_def time_Add_def Let_def)
  show "fake_NowNanos (fake_Advance d f) = fake_NowNanos f + d"
    and "fake_NowNanos (fake_Step d f) = fake_NowNanos f + d"
    and "d \<noteq> min_duration \<Longrightarrow> fake_NowNanos (fake_Reverse d f) = fake_NowNanos f - d"
    and "fake_NowNanos (fake_Set t f) = time_UnixNano t"
    by (simp_all add: fake_defs add)
qed

lemma fake_Reverse_Advance:
  assumes "mono_ns (fake_now f) = None" and "d \<noteq> min_duration"
  shows "fake_Reverse d (fake_Advance d f) = f"
proof -
  have "sint d \<noteq> - (2 ^ 63)" using assms(2) sint_inject_iff [of d min_duration]
    by (auto simp: min_duration_def)
  then have "sint (- d) = - sint d" by (rule sint_uminus)
  then show ?thesis using assms(1) by (cases f) (simp add: fake_defs time_Add_def Let_def)
qed

text \<open>
  The interface \<^verbatim>\<open>wallclock.Clock\<close> with its two implementations; \<open>now\<close> is what \<^verbatim>\<open>time.Now()\<close> returns
  to the call. As the interface demands, \<^verbatim>\<open>NowNanos\<close> is \<^verbatim>\<open>Now().UnixNano()\<close>.
\<close>

datatype wallclock = RealClock | FakeClock fake

definition wallclock_Real :: wallclock where
  "wallclock_Real = RealClock"

fun wall_Now :: "gotime \<Rightarrow> wallclock \<Rightarrow> gotime" where
  "wall_Now now RealClock = real_Now now"
| "wall_Now now (FakeClock f) = fake_Now f"

fun wall_NowNanos :: "gotime \<Rightarrow> wallclock \<Rightarrow> i64" where
  "wall_NowNanos now RealClock = real_NowNanos now"
| "wall_NowNanos now (FakeClock f) = fake_NowNanos f"

lemma wall_NowNanos_UnixNano: "wall_NowNanos now w = time_UnixNano (wall_Now now w)"
  by (cases w) (simp_all add: real_Now_def real_NowNanos_def fake_Now_def fake_NowNanos_def)

end
