(* ===== verification/Truetime.thy ===== *)
theory Truetime
  imports Go_Time
begin

text \<open>
  The bounded-uncertainty clock of \<^verbatim>\<open>truetime/interval.go\<close>, \<^verbatim>\<open>truetime/clock.go\<close> and
  \<^verbatim>\<open>truetime/commit_wait.go\<close>. The source behind a clock is an interface value whose readings change with
  the world, so the functions take what \<^verbatim>\<open>source.Now()\<close> returns: \<open>readings n\<close> is the answer to the \<open>n\<close>-th
  call. \<open>done n\<close> tells how the \<open>n\<close>-th \<^verbatim>\<open>select\<close> of the commit wait ended: \<open>None\<close> if the timer fired,
  \<open>Some e\<close> if the context was done with the error \<open>e\<close>. Nothing is assumed of either, and where both
  cases of the \<^verbatim>\<open>select\<close> are ready, either answer is allowed.
\<close>

section \<open>Intervals\<close>

record interval =
  Earliest :: gotime
  Latest :: gotime

definition interval_Width :: "interval \<Rightarrow> duration" where
  "interval_Width i = time_Sub (Latest i) (Earliest i)"

definition interval_Contains :: "interval \<Rightarrow> gotime \<Rightarrow> bool" where
  "interval_Contains i t \<longleftrightarrow> \<not> time_Before t (Earliest i) \<and> \<not> time_After t (Latest i)"

definition interval_Before :: "interval \<Rightarrow> interval \<Rightarrow> bool" where
  "interval_Before i other = time_Before (Latest i) (Earliest other)"

definition interval_Definitely :: "interval \<Rightarrow> gotime \<Rightarrow> bool" where
  "interval_Definitely i t \<longleftrightarrow> \<not> time_Before (Earliest i) t"

section \<open>The clock and the test source\<close>

text \<open>Each method reads the source once; \<open>reading\<close> is what it answers.\<close>

definition tt_Now :: "interval \<Rightarrow> interval" where
  "tt_Now reading = reading"

definition tt_After :: "interval \<Rightarrow> gotime \<Rightarrow> bool" where
  "tt_After reading t = time_After (Earliest reading) t"

definition tt_Before :: "interval \<Rightarrow> gotime \<Rightarrow> bool" where
  "tt_Before reading t = time_Before (Latest reading) t"

record fake_source =
  fs_interval :: interval

definition NewFakeSource :: "interval \<Rightarrow> fake_source" where
  "NewFakeSource initial = \<lparr>fs_interval = initial\<rparr>"

definition fake_source_Set :: "interval \<Rightarrow> fake_source \<Rightarrow> fake_source" where
  "fake_source_Set i f = f\<lparr>fs_interval := i\<rparr>"

definition fake_source_Advance :: "duration \<Rightarrow> fake_source \<Rightarrow> fake_source" where
  "fake_source_Advance d f =
     f\<lparr>fs_interval := \<lparr>Earliest = time_Add (Earliest (fs_interval f)) d,
                       Latest = time_Add (Latest (fs_interval f)) d\<rparr>\<rparr>"

definition fake_source_Now :: "fake_source \<Rightarrow> interval" where
  "fake_source_Now f = fs_interval f"

section \<open>Commit wait\<close>

definition Microsecond :: duration where
  "Microsecond = 1000"

definition Millisecond :: duration where
  "Millisecond = 1000000"

text \<open>The gap to the commit time, capped at 100ms and floored at 100us.\<close>

definition commit_wait_time :: "gotime \<Rightarrow> gotime \<Rightarrow> duration" where
  "commit_wait_time commitAt earliest =
     (let wait = time_Sub commitAt earliest;
          wait = (if 100 * Millisecond <s wait then 100 * Millisecond else wait);
          wait = (if wait <s 100 * Microsecond then 100 * Microsecond else wait)
      in wait)"

text \<open>
  How a call ended: the error of the context or nil (\<open>None\<close>), the number of readings taken, and the
  timers started, in order.
\<close>

record 'e commit_result =
  cw_err :: "'e option"
  cw_readings :: nat
  cw_waits :: "duration list"

text \<open>The loop from its \<open>n\<close>-th reading on. It need not end: then its value is \<open>None\<close>.\<close>

partial_function (option) commit_loop ::
  "(nat \<Rightarrow> interval) \<Rightarrow> (nat \<Rightarrow> 'e option) \<Rightarrow> gotime \<Rightarrow> nat \<Rightarrow> duration list \<Rightarrow> 'e commit_result option"
where
  "commit_loop readings done commitAt n waits =
     (let interval = readings n
      in if time_After (Earliest interval) commitAt
         then Some \<lparr>cw_err = None, cw_readings = n + 1, cw_waits = waits\<rparr>
         else
           let wait = commit_wait_time commitAt (Earliest interval);
               waits = waits @ [wait]
           in case done n of
                Some e \<Rightarrow> Some \<lparr>cw_err = Some e, cw_readings = n + 1, cw_waits = waits\<rparr>
              | None \<Rightarrow> commit_loop readings done commitAt (n + 1) waits)"

definition CommitWait ::
  "(nat \<Rightarrow> interval) \<Rightarrow> (nat \<Rightarrow> 'e option) \<Rightarrow> gotime \<Rightarrow> 'e commit_result option" where
  "CommitWait readings done commitAt =
     (if tt_After (readings 0) commitAt
      then Some \<lparr>cw_err = None, cw_readings = 1, cw_waits = []\<rparr>
      else commit_loop readings done commitAt 1 [])"

text \<open>
  \<open>fn\<close> is the outcome of the callback; the commit time is the upper bound of the reading after it.
\<close>

definition WithCommitWait ::
  "(nat \<Rightarrow> interval) \<Rightarrow> (nat \<Rightarrow> 'e option) \<Rightarrow> 'e option \<Rightarrow> 'e commit_result option" where
  "WithCommitWait readings done fn =
     (case fn of
        Some err \<Rightarrow> Some \<lparr>cw_err = Some err, cw_readings = 0, cw_waits = []\<rparr>
      | None \<Rightarrow>
          let commitAt = Latest (tt_Now (readings 0))
          in map_option (\<lambda>r. r\<lparr>cw_readings := cw_readings r + 1\<rparr>)
               (CommitWait (\<lambda>n. readings (n + 1)) (\<lambda>n. done (n + 1)) commitAt))"

section \<open>The loop\<close>

text \<open>The wait is always between 100us and 100ms, and exactly the gap in between.\<close>

lemma commit_wait_bounds:
  "sint (commit_wait_time c e) = max 100000 (min 100000000 (sint (time_Sub c e)))"
  by (auto simp: commit_wait_time_def Let_def Millisecond_def Microsecond_def word_sless_alt)

lemma commit_loop_passed:
  "time_After (Earliest (readings n)) t \<Longrightarrow>
    commit_loop readings done t n ws = Some \<lparr>cw_err = None, cw_readings = n + 1, cw_waits = ws\<rparr>"
  by (simp add: commit_loop.simps Let_def)

lemma commit_loop_done:
  "\<not> time_After (Earliest (readings n)) t \<Longrightarrow> done n = Some e \<Longrightarrow>
    commit_loop readings done t n ws =
      Some \<lparr>cw_err = Some e, cw_readings = n + 1, cw_waits = ws @ [commit_wait_time t (Earliest (readings n))]\<rparr>"
  by (simp add: commit_loop.simps Let_def)

lemma commit_loop_again:
  "\<not> time_After (Earliest (readings n)) t \<Longrightarrow> done n = None \<Longrightarrow>
    commit_loop readings done t n ws =
      commit_loop readings done t (n + 1) (ws @ [commit_wait_time t (Earliest (readings n))])"
  by (subst commit_loop.simps) (simp add: Let_def)

text \<open>The loop goes past readings that neither show the time passed nor see the context done.\<close>

definition pending :: "(nat \<Rightarrow> interval) \<Rightarrow> (nat \<Rightarrow> 'e option) \<Rightarrow> gotime \<Rightarrow> nat \<Rightarrow> bool" where
  "pending readings done t k \<longleftrightarrow> \<not> time_After (Earliest (readings k)) t \<and> done k = None"

definition waits_at :: "(nat \<Rightarrow> interval) \<Rightarrow> gotime \<Rightarrow> nat \<Rightarrow> nat \<Rightarrow> duration list" where
  "waits_at readings t n m = List.map (\<lambda>k. commit_wait_time t (Earliest (readings k))) [n..<m]"

lemma commit_loop_skip:
  assumes "n \<le> m" and "\<forall>k. n \<le> k \<and> k < m \<longrightarrow> pending readings done t k"
  shows "commit_loop readings done t n ws =
    commit_loop readings done t m (ws @ waits_at readings t n m)"
  using assms
proof (induction m rule: dec_induct)
  case base
  then show ?case by (simp add: waits_at_def)
next
  case (step m)
  then have "commit_loop readings done t n ws =
      commit_loop readings done t m (ws @ waits_at readings t n m)" by simp
  also have "\<dots> = commit_loop readings done t (Suc m) (ws @ waits_at readings t n (Suc m))"
    using step commit_loop_again [of readings m t "done"]
    by (simp add: pending_def waits_at_def)
  finally show ?case .
qed

text \<open>The loop returns if and only if it meets a reading that is not pending.\<close>

lemma commit_loop_meets:
  assumes "commit_loop readings done t n ws = Some r"
  shows "\<exists>k \<ge> n. \<not> pending readings done t k"
proof (rule commit_loop.raw_induct
    [where P = "\<lambda>readings done t n ws r. \<exists>k \<ge> n. \<not> pending readings done t k", OF _ assms])
  fix loop :: "(nat \<Rightarrow> interval) \<Rightarrow> (nat \<Rightarrow> 'b option) \<Rightarrow> gotime \<Rightarrow> nat \<Rightarrow> duration list \<Rightarrow>
      'b commit_result option"
    and readings t n ws r and "done" :: "nat \<Rightarrow> 'b option"
  assume IH: "\<And>readings done t n ws r. loop readings done t n ws = Some r \<Longrightarrow>
      \<exists>k \<ge> n. \<not> pending readings done t k"
    and body: "(let interval = readings n
      in if time_After (Earliest interval) t
         then Some \<lparr>cw_err = None, cw_readings = n + 1, cw_waits = ws\<rparr>
         else
           let wait = commit_wait_time t (Earliest interval);
               waits = ws @ [wait]
           in case done n of
                Some e \<Rightarrow> Some \<lparr>cw_err = Some e, cw_readings = n + 1, cw_waits = waits\<rparr>
              | None \<Rightarrow> loop readings done t (n + 1) waits) = Some r"
  show "\<exists>k \<ge> n. \<not> pending readings done t k"
  proof (cases "pending readings done t n")
    case True
    then have "loop readings done t (n + 1) (ws @ [commit_wait_time t (Earliest (readings n))]) = Some r"
      using body by (simp add: pending_def Let_def)
    from IH [OF this] show ?thesis by (auto intro: Suc_leD)
  qed auto
qed

lemma commit_loop_at:
  assumes "n \<le> m" and "\<forall>k. n \<le> k \<and> k < m \<longrightarrow> pending readings done t k"
    and "\<not> pending readings done t m"
  shows "commit_loop readings done t n ws =
    (if time_After (Earliest (readings m)) t
     then Some \<lparr>cw_err = None, cw_readings = m + 1, cw_waits = ws @ waits_at readings t n m\<rparr>
     else Some \<lparr>cw_err = done m, cw_readings = m + 1, cw_waits = ws @ waits_at readings t n (m + 1)\<rparr>)"
proof -
  have "commit_loop readings done t n ws = commit_loop readings done t m (ws @ waits_at readings t n m)"
    by (rule commit_loop_skip [OF assms(1,2)])
  then show ?thesis
    using assms(1,3) by (auto simp: commit_loop_passed commit_loop_done pending_def waits_at_def)
qed

text \<open>The first reading or \<^verbatim>\<open>select\<close> that ends the wait; the context is not looked at before reading 1.\<close>

definition ends_at :: "(nat \<Rightarrow> interval) \<Rightarrow> (nat \<Rightarrow> 'e option) \<Rightarrow> gotime \<Rightarrow> nat \<Rightarrow> bool" where
  "ends_at readings done t m \<longleftrightarrow>
     time_After (Earliest (readings m)) t \<or> 1 \<le> m \<and> done m \<noteq> None"

lemma CommitWait_at:
  assumes "ends_at readings done t m" and "\<forall>k < m. \<not> ends_at readings done t k"
  shows "CommitWait readings done t =
    (if time_After (Earliest (readings m)) t
     then Some \<lparr>cw_err = None, cw_readings = m + 1, cw_waits = waits_at readings t 1 m\<rparr>
     else Some \<lparr>cw_err = done m, cw_readings = m + 1, cw_waits = waits_at readings t 1 (m + 1)\<rparr>)"
proof (cases m)
  case 0
  then show ?thesis using assms(1) by (simp add: CommitWait_def tt_After_def ends_at_def waits_at_def)
next
  case (Suc m')
  then have "\<not> time_After (Earliest (readings 0)) t" using assms(2) by (auto simp: ends_at_def)
  moreover have "\<forall>k. 1 \<le> k \<and> k < m \<longrightarrow> pending readings done t k" and "\<not> pending readings done t m"
    using assms Suc by (auto simp: ends_at_def pending_def)
  ultimately show ?thesis
    using Suc commit_loop_at [of 1 m readings "done" t "[]"] by (simp add: CommitWait_def tt_After_def)
qed

lemma least_index:
  assumes "P (n :: nat)"
  shows "\<exists>m. P m \<and> (\<forall>k < m. \<not> P k) \<and> m \<le> n"
  using LeastI [of P n, OF assms] Least_le [of P n, OF assms] not_less_Least [of _ P] by blast

lemma CommitWait_ends:
  assumes "CommitWait readings done t = Some r"
  obtains m where "ends_at readings done t m" and "\<forall>k < m. \<not> ends_at readings done t k"
proof -
  have "\<exists>m. ends_at readings done t m"
  proof (cases "time_After (Earliest (readings 0)) t")
    case True
    then show ?thesis by (auto simp: ends_at_def)
  next
    case False
    then have "commit_loop readings done t 1 [] = Some r"
      using assms by (simp add: CommitWait_def tt_After_def)
    from commit_loop_meets [OF this] show ?thesis by (auto simp: pending_def ends_at_def)
  qed
  then show ?thesis
    using that least_index [of "ends_at readings done t"] by blast
qed

section \<open>Properties\<close>

text \<open>
  C29. What a commit wait returns. It returns nil exactly when a reading shows \<^verbatim>\<open>commitAt\<close> in the past, at the
  first such reading and before any \<^verbatim>\<open>select\<close> that saw the context done; it returns the context's error
  exactly when such a \<^verbatim>\<open>select\<close> comes first; and it starts one timer per reading after the first that showed
  neither, each between 100 microseconds and 100 milliseconds.
\<close>

theorem CommitWait_result:
  assumes "CommitWait readings done t = Some r"
  shows "\<exists>m. cw_readings r = m + 1 \<and> {k. k < m \<and> time_After (Earliest (readings k)) t} = {} \<and>
    {k. 1 \<le> k \<and> k < m \<and> done k \<noteq> None} = {} \<and>
    (if cw_err r = None then time_After (Earliest (readings m)) t
     else cw_err r = done m \<and> 1 \<le> m \<and> \<not> time_After (Earliest (readings m)) t) \<and>
    length (cw_waits r) = (if cw_err r = None then m - 1 else m) \<and>
    (\<forall>d \<in> set (cw_waits r). 100000 \<le> sint d \<and> sint d \<le> 100000000)"
proof -
  obtain m where m: "ends_at readings done t m" "\<forall>k < m. \<not> ends_at readings done t k"
    using CommitWait_ends [OF assms] .
  have none: "{k. k < m \<and> time_After (Earliest (readings k)) t} = {}"
      "{k. 1 \<le> k \<and> k < m \<and> done k \<noteq> None} = {}"
    using m(2) by (auto simp: ends_at_def)
  have waits: "\<forall>d \<in> set (waits_at readings t 1 n). 100000 \<le> sint d \<and> sint d \<le> 100000000" for n
    by (auto simp: waits_at_def commit_wait_bounds)
  show ?thesis
  proof (cases "time_After (Earliest (readings m)) t")
    case True
    then have "r = \<lparr>cw_err = None, cw_readings = m + 1, cw_waits = waits_at readings t 1 m\<rparr>"
      using CommitWait_at [OF m] assms by simp
    then show ?thesis using none waits True by (intro exI [of _ m]) (simp add: waits_at_def)
  next
    case False
    then have "1 \<le> m" "done m \<noteq> None" using m(1) by (auto simp: ends_at_def)
    moreover have "r = \<lparr>cw_err = done m, cw_readings = m + 1, cw_waits = waits_at readings t 1 (m + 1)\<rparr>"
      using CommitWait_at [OF m] assms False by simp
    ultimately show ?thesis
      using none waits [of "m + 1"] False by (intro exI [of _ m]) (auto simp: waits_at_def)
  qed
qed

definition wall :: "int \<Rightarrow> gotime" where
  "wall w = \<lparr>wall_ns = w, mono_ns = None\<rparr>"

text \<open>A source that advances by 7ms per reading, with an uncertainty of 7ms.\<close>

definition step_source :: "nat \<Rightarrow> interval" where
  "step_source n = \<lparr>Earliest = wall (7000000 * int n), Latest = wall (7000000 * int n + 7000000)\<rparr>"

lemma step_source_wait:
  "CommitWait step_source (\<lambda>_. None :: unit option) (wall 7000000) =
    Some \<lparr>cw_err = None, cw_readings = 3, cw_waits = [100000]\<rparr>"
proof -
  have "ends_at step_source (\<lambda>_. None :: unit option) (wall 7000000) 2"
    and "\<forall>k < 2. \<not> ends_at step_source (\<lambda>_. None :: unit option) (wall 7000000) k"
    by (auto simp: ends_at_def step_source_def wall_def time_After_def less_2_cases_iff)
  from CommitWait_at [OF this] show ?thesis
    by (simp add: step_source_def wall_def time_After_def waits_at_def upt_rec commit_wait_time_def
        time_Sub_def saturate_def Microsecond_def Millisecond_def word_sless_alt Let_def)
qed

theorem CommitWait_result_witness:
  "\<exists>m. (3::nat) = m + 1 \<and> {k. k < m \<and> time_After (Earliest (step_source k)) (wall 7000000)} = {} \<and>
    time_After (Earliest (step_source m)) (wall 7000000)"
  using CommitWait_result [OF step_source_wait] by auto

text \<open>
  C30. When a commit wait returns. It returns if and only if some reading shows \<^verbatim>\<open>commitAt\<close> in the past or some
  \<^verbatim>\<open>select\<close> sees the context done; with a source that stands still and a context that is never done it
  waits forever. With \<^verbatim>\<open>WithCommitWait\<close>, an error of the callback returns at once, without a reading.
\<close>

theorem CommitWait_returns_iff:
  "(CommitWait readings done t \<noteq> None \<longleftrightarrow>
      (\<exists>k. time_After (Earliest (readings k)) t) \<or> (\<exists>k \<ge> 1. done k \<noteq> None)) \<and>
   WithCommitWait readings done (Some err) = Some \<lparr>cw_err = Some err, cw_readings = 0, cw_waits = []\<rparr>"
proof -
  have "CommitWait readings done t \<noteq> None \<longleftrightarrow> (\<exists>m. ends_at readings done t m)"
  proof
    assume "CommitWait readings done t \<noteq> None"
    then show "\<exists>m. ends_at readings done t m" using CommitWait_ends by blast
  next
    assume "\<exists>m. ends_at readings done t m"
    then obtain m where "ends_at readings done t m" "\<forall>k < m. \<not> ends_at readings done t k"
      using least_index [of "ends_at readings done t"] by blast
    from CommitWait_at [OF this] show "CommitWait readings done t \<noteq> None" by simp
  qed
  then show ?thesis by (auto simp: ends_at_def WithCommitWait_def)
qed

theorem CommitWait_returns_iff_witness:
  "CommitWait (\<lambda>_. step_source 0) (\<lambda>_. None :: unit option) (wall 7000000) = None"
  using CommitWait_returns_iff [of "\<lambda>_. step_source 0" "\<lambda>_. None :: unit option" "wall 7000000"]
  by (simp add: step_source_def wall_def time_After_def)

text \<open>
  C28. Commit waits end in time. Suppose the times compared are on one scale, the lower bounds of the readings lag
  real time by at most \<open>lag\<close>, and each timer runs for at least its duration. Then, if the context is not
  done, the wait returns nil after at most \<open>(commitAt + lag - start) / 100us + 3\<close> readings.
\<close>

theorem CommitWait_bounded:
  assumes scale: "on_scale key (insert t (range (\<lambda>k. Earliest (readings k))))"
    and lag: "\<forall>k. at k - lag \<le> key (Earliest (readings k))"
    and timer: "\<forall>k \<ge> 1. at k + sint (commit_wait_time t (Earliest (readings k))) \<le> at (k + 1)"
    and "done = (\<lambda>_. None)"
  shows "\<exists>r. CommitWait readings done t = Some r \<and> cw_err r = None \<and>
    int (cw_readings r) \<le> max 0 ((key t + lag - at 1) div 100000) + 3"
proof -
  have after: "time_After (Earliest (readings k)) t \<longleftrightarrow> key t < key (Earliest (readings k))" for k
    by (rule on_scale_compare(2) [OF scale]) auto
  have grows: "at 1 + 100000 * int k \<le> at (k + 1)" for k
  proof (induction k)
    case (Suc k)
    have "100000 \<le> sint (commit_wait_time t (Earliest (readings (k + 1))))"
      by (simp add: commit_wait_bounds)
    moreover have "at (k + 1) + sint (commit_wait_time t (Earliest (readings (k + 1)))) \<le> at (k + 2)"
      using timer [rule_format, of "k + 1"] by simp
    ultimately show ?case using Suc by simp
  qed simp
  define N where "N = nat ((key t + lag - at 1) div 100000 + 1)"
  have "x < 100000 * (x div 100000 + 1)" for x :: int
    using mult_div_mod_eq [of 100000 x] pos_mod_bound [of 100000 x] by simp
  from this [of "key t + lag - at 1"]
  have "key t + lag < at (N + 1)"
    using grows [of N] unfolding N_def by linarith
  moreover have "at (N + 1) - lag \<le> key (Earliest (readings (N + 1)))" using lag by blast
  ultimately have "ends_at readings done t (N + 1)" by (auto simp: ends_at_def after)
  then obtain m where m: "ends_at readings done t m" "\<forall>k < m. \<not> ends_at readings done t k" "m \<le> N + 1"
    using least_index [of "ends_at readings done t" "N + 1"] by blast
  have "time_After (Earliest (readings m)) t" using m(1) assms(4) by (simp add: ends_at_def)
  then have "CommitWait readings done t =
      Some \<lparr>cw_err = None, cw_readings = m + 1, cw_waits = waits_at readings t 1 m\<rparr>"
    using CommitWait_at [OF m(1,2)] by simp
  moreover have "int (m + 1) \<le> max 0 ((key t + lag - at 1) div 100000) + 3"
    using m(3) unfolding N_def by linarith
  ultimately show ?thesis by simp
qed

theorem CommitWait_bounded_witness:
  "\<exists>r. CommitWait step_source (\<lambda>_. None :: unit option) (wall 7000000) = Some r \<and> cw_err r = None \<and>
    cw_readings r \<le> 72"
proof -
  let ?at = "\<lambda>k. 7000000 * int k"
  have scale: "on_scale wall_ns (insert (wall 7000000) (range (\<lambda>k. Earliest (step_source k))))"
    by (auto simp: on_scale_def wall_def step_source_def)
  have lag: "\<forall>k. ?at k - 0 \<le> wall_ns (Earliest (step_source k))" by (simp add: step_source_def wall_def)
  have "sint (time_Sub (wall 7000000) (Earliest (step_source k))) \<le> 7000000" for k
    by (simp add: time_Sub_def step_source_def wall_def sint_saturate)
  then have timer: "\<forall>k \<ge> 1. ?at k + sint (commit_wait_time (wall 7000000) (Earliest (step_source k))) \<le> ?at (k + 1)"
    by (auto simp: commit_wait_bounds intro: min.coboundedI2)
  obtain r where "CommitWait step_source (\<lambda>_. None :: unit option) (wall 7000000) = Some r" "cw_err r = None"
      "int (cw_readings r) \<le> max 0 ((wall_ns (wall 7000000) + 0 - ?at 1) div 100000) + 3"
    using CommitWait_bounded [OF scale lag timer refl] by blast
  then show ?thesis by (auto simp: wall_def)
qed

text \<open>The reading that ended a wait which returned nil began after the commit time.\<close>

lemma WithCommitWait_passed:
  assumes "WithCommitWait readings done None = Some r" and "cw_err r = None"
  shows "time_After (Earliest (readings (cw_readings r - 1))) (Latest (readings 0))"
proof -
  obtain r' where r': "CommitWait (\<lambda>n. readings (n + 1)) (\<lambda>n. done (n + 1)) (Latest (readings 0)) = Some r'"
      "r = r'\<lparr>cw_readings := cw_readings r' + 1\<rparr>"
    using assms(1) by (auto simp: WithCommitWait_def tt_Now_def)
  obtain m where m: "ends_at (\<lambda>n. readings (n + 1)) (\<lambda>n. done (n + 1)) (Latest (readings 0)) m"
      "\<forall>k < m. \<not> ends_at (\<lambda>n. readings (n + 1)) (\<lambda>n. done (n + 1)) (Latest (readings 0)) k"
    using CommitWait_ends [OF r'(1)] .
  have err: "cw_err r' = None" using assms(2) r'(2) by simp
  have passed: "time_After (Earliest (readings (m + 1))) (Latest (readings 0))"
    using CommitWait_at [OF m] r'(1) err m(1) by (auto simp: ends_at_def split: if_splits)
  then have "cw_readings r' = m + 1" using CommitWait_at [OF m] r'(1) by auto
  then show ?thesis using passed r'(2) by simp
qed

text \<open>
  With sound readings true time has passed the commit time then, and a later sound reading has a later upper bound.
\<close>

lemma commit_wait_orders:
  assumes "WithCommitWait readings done None = Some r" and "cw_err r = None"
    and scale: "on_scale key ({Latest u} \<union> range (\<lambda>k. Earliest (readings k)) \<union> range (\<lambda>k. Latest (readings k)))"
    and sound: "\<And>k. key (Earliest (readings k)) \<le> at k"
    and later: "at (cw_readings r - 1) \<le> key (Latest u)"
  shows "key (Latest (readings 0)) < at (cw_readings r - 1)" and "time_Before (Latest (readings 0)) (Latest u)"
proof -
  have "key (Latest (readings 0)) < key (Earliest (readings (cw_readings r - 1)))"
    using on_scale_compare(2) [OF scale] WithCommitWait_passed [OF assms(1,2)] by auto
  then show *: "key (Latest (readings 0)) < at (cw_readings r - 1)" using sound by (rule less_le_trans)
  then show "time_Before (Latest (readings 0)) (Latest u)"
    using later on_scale_compare(1) [OF scale] by auto
qed



text \<open>
  What the comment of \<^verbatim>\<open>CommitWait\<close> promises beyond that is not so. After a wait that returned nil, a
  later reading of a sound source may again have its lower bound at or before \<^verbatim>\<open>commitAt\<close>: when the uncertainty
  grows, the clock is no longer certain that the time has passed.
\<close>

lemma CommitWait_not_stable:
  "let at = (\<lambda>k. 10000000 * int k);
       readings = (\<lambda>k. if k < 2 then \<lparr>Earliest = wall (at k), Latest = wall (at k + 5000000)\<rparr>
                        else \<lparr>Earliest = wall (at k - 50000000), Latest = wall (at k + 50000000)\<rparr>);
       commitAt = Latest (readings 0)
   in {k. \<not> (wall_ns (Earliest (readings k)) \<le> at k \<and> at k \<le> wall_ns (Latest (readings k)))} = {} \<and>
      CommitWait readings (\<lambda>_. None :: unit option) commitAt =
        Some \<lparr>cw_err = None, cw_readings = 2, cw_waits = []\<rparr> \<and>
      tt_After (readings 1) commitAt \<and> \<not> tt_After (readings 2) commitAt"
proof -
  let ?at = "\<lambda>k. 10000000 * int k"
  let ?R = "\<lambda>k. if k < 2 then \<lparr>Earliest = wall (?at k), Latest = wall (?at k + 5000000)\<rparr>
    else \<lparr>Earliest = wall (?at k - 50000000), Latest = wall (?at k + 50000000)\<rparr>"
  have "ends_at ?R (\<lambda>_. None :: unit option) (Latest (?R 0)) 1"
    and "\<forall>k < 1. \<not> ends_at ?R (\<lambda>_. None :: unit option) (Latest (?R 0)) k"
    by (simp_all add: ends_at_def wall_def time_After_def)
  from CommitWait_at [OF this]
  have "CommitWait ?R (\<lambda>_. None :: unit option) (Latest (?R 0)) =
      Some \<lparr>cw_err = None, cw_readings = 2, cw_waits = []\<rparr>"
    by (simp add: wall_def time_After_def waits_at_def)
  then show ?thesis by (auto simp: tt_After_def wall_def time_After_def Let_def)
qed

text \<open>
  The predicates of intervals, on one scale. \<open>Contains\<close> is membership; \<open>i.Before(j)\<close> holds exactly if
  every instant of \<open>i\<close> is earlier than every instant of \<open>j\<close> (for intervals that are not empty); \<open>Width\<close> is the length,
  saturated. \<open>Clock.After\<close> is stricter than \<open>Definitely\<close>, to which its comment calls it equivalent: they
  differ exactly when the lower bound is the instant itself.
\<close>

lemma interval_predicates:
  assumes "on_scale key {Earliest i, Latest i, Earliest j, Latest j, t}"
    and "key (Earliest i) \<le> key (Latest i)" and "key (Earliest j) \<le> key (Latest j)"
  shows "(interval_Contains i t \<longleftrightarrow> key t \<in> {key (Earliest i) .. key (Latest i)}) \<and>
    (interval_Before i j \<longleftrightarrow>
      {(x, y). x \<in> {key (Earliest i) .. key (Latest i)} \<and> y \<in> {key (Earliest j) .. key (Latest j)} \<and>
        \<not> x < y} = {}) \<and>
    interval_Width i = saturate (key (Latest i) - key (Earliest i)) \<and>
    (interval_Definitely i t \<longleftrightarrow> key t \<le> key (Earliest i)) \<and>
    (tt_Before i t \<longleftrightarrow> key (Latest i) < key t) \<and>
    (tt_After i t \<longleftrightarrow> interval_Definitely i t \<and> key (Earliest i) \<noteq> key t)"
proof -
  note c = on_scale_compare [OF assms(1)]
  have "interval_Before i j \<longleftrightarrow> key (Latest i) < key (Earliest j)"
    by (simp add: interval_Before_def c)
  moreover have "\<dots> \<longleftrightarrow>
      {(x, y). x \<in> {key (Earliest i) .. key (Latest i)} \<and> y \<in> {key (Earliest j) .. key (Latest j)} \<and>
        \<not> x < y} = {}"
    using assms(2,3) by (fastforce simp: not_less)
  ultimately show ?thesis
    by (auto simp: interval_Contains_def interval_Width_def interval_Definitely_def tt_Before_def
        tt_After_def c)
qed

end
