(* ===== verification/Ntp.thy ===== *)
theory Ntp
  imports Truetime Bytes
begin

text \<open>
  The NTP source of \<^verbatim>\<open>truetime/ntp_source.go\<close>. The network and the local clock are outside: a query is
  given what they answered, the local times \<open>t1\<close> and \<open>t4\<close> around the exchange and the bytes received, or
  the error of the step that failed. Durations are \<^verbatim>\<open>int64\<close> values whose sums and products wrap and whose
  division truncates toward zero, as in Go.
\<close>

unbundle bit_operations_syntax

section \<open>State and parsing\<close>

definition driftPPM :: i64 where
  "driftPPM = 200"

definition ntpEpochOffset :: i64 where
  "ntpEpochOffset = 2208988800"

definition Second :: duration where
  "Second = 1000000000"

text \<open>Go's \<^verbatim>\<open>/\<close> on \<^verbatim>\<open>int64\<close>.\<close>

definition i64_div :: "i64 \<Rightarrow> i64 \<Rightarrow> i64" where
  "i64_div a b = word_of_int (sint a sdiv sint b)"

record ntp_source =
  server :: string
  queryInterval :: duration
  lastOffset :: duration
  lastDispersion :: duration
  lastQuery :: gotime

definition ntpTimeFromBytes :: "byte list \<Rightarrow> gotime" where
  "ntpTimeFromBytes b =
     (let raw = be_get b :: u64;
          s = drop_bit 32 raw;
          frac = raw AND 0xffffffff;
          nsec = drop_bit 32 (frac * 1000000000)
      in time_Unix (s - ntpEpochOffset) nsec)"

section \<open>The query\<close>

text \<open>How the exchange with the server went; an error of any step is returned as it is.\<close>

datatype 'e exchange = NetError 'e | Reply gotime "byte list" gotime

text \<open>\<^verbatim>\<open>conn.Read(resp)\<close> fills at most the 48 bytes of \<^verbatim>\<open>resp\<close>; a shorter datagram leaves zeros.\<close>

definition read_48 :: "byte list \<Rightarrow> byte list" where
  "read_48 data = take 48 (data @ replicate 48 0)"

definition ntp_rootDisp :: "byte list \<Rightarrow> duration" where
  "ntp_rootDisp resp =
     (let rootDispRaw = be_get (go_slice resp 8 12) :: u32
      in i64_div (ucast rootDispRaw * Second) 65536)"

definition ntp_query :: "'e exchange \<Rightarrow> ntp_source \<Rightarrow> ntp_source \<times> 'e option" where
  "ntp_query x s =
     (case x of
        NetError e \<Rightarrow> (s, Some e)
      | Reply t1 data t4 \<Rightarrow>
          let resp = read_48 data;
              t2 = ntpTimeFromBytes (go_slice resp 32 40);
              t3 = ntpTimeFromBytes (go_slice resp 40 48);
              offset = i64_div (time_Sub t2 t1 + time_Sub t3 t4) 2;
              delay = time_Sub t4 t1 - time_Sub t3 t2;
              rootDisp = ntp_rootDisp resp
          in (s\<lparr>lastOffset := offset, lastDispersion := rootDisp + i64_div delay 2, lastQuery := t4\<rparr>, None))"

text \<open>The zero value of \<^verbatim>\<open>time.Time\<close> is January 1, year 1.\<close>

definition zero_time :: gotime where
  "zero_time = \<lparr>wall_ns = - 62135596800 * 10 ^ 9, mono_ns = None\<rparr>"

definition NewNTPSource :: "string \<Rightarrow> duration \<Rightarrow> 'e exchange \<Rightarrow> 'e + ntp_source" where
  "NewNTPSource srv interval x =
     (let s = \<lparr>server = srv, queryInterval = interval, lastOffset = 0, lastDispersion = 0, lastQuery = zero_time\<rparr>
      in case ntp_query x s of (s, Some e) \<Rightarrow> Inl e | (s, None) \<Rightarrow> Inr s)"

section \<open>The reading\<close>

text \<open>\<open>now\<close> is what \<^verbatim>\<open>time.Now()\<close> returned.\<close>

definition ntp_Now :: "gotime \<Rightarrow> ntp_source \<Rightarrow> interval" where
  "ntp_Now now s =
     (let offset = lastOffset s; disp = lastDispersion s; last = lastQuery s;
          elapsed = time_Sub now last;
          elapsed = (if elapsed <s 0 then 0 else elapsed);
          extra = i64_div (elapsed * driftPPM) 1000000;
          mid = time_Add now offset;
          un = disp + extra
      in \<lparr>Earliest = time_Add mid (- un), Latest = time_Add mid un\<rparr>)"

definition LastDispersion :: "ntp_source \<Rightarrow> duration" where
  "LastDispersion s = lastDispersion s"

section \<open>Arithmetic\<close>

lemma sdiv_bounds: "\<bar>a sdiv b\<bar> \<le> \<bar>a\<bar>" for a b :: int
  using sdiv_int_range [of a b] by (simp add: abs_le_iff)

lemma sint_i64_div:
  assumes "sint a \<noteq> - (2 ^ 63)"
  shows "sint (i64_div a b) = sint a sdiv sint b"
  using sdiv_bounds [of "sint a" "sint b"] sint_bounds [of a] assms
  unfolding i64_div_def by (intro sint_of_int) linarith+

lemma sdiv_nonneg: "0 \<le> a \<Longrightarrow> 0 < b \<Longrightarrow> a sdiv b = a div b" for a b :: int
  by (simp add: signed_divide_int_def sgn_if)

text \<open>Halving truncates toward zero.\<close>

lemma sdiv_two: "2 * (a sdiv 2) \<le> a + 1" "a - 1 \<le> 2 * (a sdiv 2)" for a :: int
  by (simp_all add: signed_divide_int_eq_divide_int) presburger+

lemma sint_small: "unat x < 2 ^ 63 \<Longrightarrow> sint x = int (unat x)" for x :: i64
proof -
  assume l: "unat x < 2 ^ 63"
  have "int (unat x) < 2 ^ 63" using l by (metis of_nat_less_iff of_nat_numeral of_nat_power)
  then have "sint (word_of_int (int (unat x)) :: i64) = int (unat x)"
    by (intro sint_of_int) linarith+
  then show ?thesis by simp
qed

lemma unat_times: "unat a * unat b < 2 ^ 64 \<Longrightarrow> unat (a * b) = unat a * unat b" for a b :: u64
  by (simp add: unat_word_ariths)

lemma mask_32: "raw AND 0xffffffff = take_bit 32 raw" for raw :: u64
proof -
  have "(0xffffffff :: u64) = mask 32" by (simp add: mask_eq_exp_minus_1)
  then show ?thesis by (simp add: take_bit_eq_mask)
qed

text \<open>The parsed time in whole numbers: no step of the conversion overflows.\<close>

lemma ntpTime_wall:
  fixes b :: "byte list"
  defines "raw \<equiv> unat (be_get b :: u64)"
  shows "wall_ns (ntpTimeFromBytes b) =
      (int (raw div 2 ^ 32) - 2208988800) * 10 ^ 9 + int ((raw mod 2 ^ 32) * 10 ^ 9 div 2 ^ 32)"
    and "mono_ns (ntpTimeFromBytes b) = None"
proof -
  let ?raw = "be_get b :: u64"
  have "raw < 2 ^ LENGTH(64)" unfolding raw_def by (rule unsigned_less)
  then have raw: "raw < 2 ^ 64" by simp
  have s: "unat (drop_bit 32 ?raw) = raw div 2 ^ 32"
    by (simp add: raw_def drop_bit_eq_div unat_div)
  moreover have "raw div 2 ^ 32 < 2 ^ 32" using raw by (simp add: less_mult_imp_div_less)
  ultimately have ss: "sint (drop_bit 32 ?raw) = int (raw div 2 ^ 32)"
    by (subst sint_small) simp_all
  have "sint ntpEpochOffset = 2208988800" by (simp add: ntpEpochOffset_def)
  then have sec: "sint (drop_bit 32 ?raw - ntpEpochOffset) = int (raw div 2 ^ 32) - 2208988800"
    using ss \<open>raw div 2 ^ 32 < 2 ^ 32\<close> by (subst sint_minus) simp_all
  have frac: "unat (take_bit 32 ?raw) = raw mod 2 ^ 32"
    by (simp add: raw_def take_bit_eq_mod unat_mod)
  have lt: "raw mod 2 ^ 32 < 2 ^ 32" by simp
  have "unat (take_bit 32 ?raw) * unat (1000000000 :: u64) < 2 ^ 64"
    unfolding frac using lt by simp
  then have "unat (take_bit 32 ?raw * 1000000000) = (raw mod 2 ^ 32) * 10 ^ 9"
    by (subst unat_times) (simp_all add: frac)
  then have n: "unat (drop_bit 32 (take_bit 32 ?raw * 1000000000)) = (raw mod 2 ^ 32) * 10 ^ 9 div 2 ^ 32"
    by (simp add: drop_bit_eq_div unat_div)
  have "(raw mod 2 ^ 32) * 10 ^ 9 div 2 ^ 32 < 10 ^ 9"
    using lt by (intro less_mult_imp_div_less) simp
  then have ns: "sint (drop_bit 32 (take_bit 32 ?raw * 1000000000)) =
      int ((raw mod 2 ^ 32) * 10 ^ 9 div 2 ^ 32)"
    by (subst sint_small) (simp_all add: n)
  show "wall_ns (ntpTimeFromBytes b) =
      (int (raw div 2 ^ 32) - 2208988800) * 10 ^ 9 + int ((raw mod 2 ^ 32) * 10 ^ 9 div 2 ^ 32)"
    unfolding ntpTimeFromBytes_def Let_def time_Unix_def mask_32 by (simp only: gotime.select_convs sec ns)
  show "mono_ns (ntpTimeFromBytes b) = None"
    by (simp add: ntpTimeFromBytes_def Let_def time_Unix_def)
qed

lemma ntp_rootDisp_value:
  fixes resp :: "byte list"
  defines "raw \<equiv> unat (be_get (go_slice resp 8 12) :: u32)"
  shows "sint (ntp_rootDisp resp) = int (raw * 10 ^ 9 div 2 ^ 16)"
proof -
  let ?w = "be_get (go_slice resp 8 12) :: u32"
  have "raw < 2 ^ LENGTH(32)" unfolding raw_def by (rule unsigned_less)
  then have raw: "raw < 2 ^ 32" by simp
  have u: "unat (ucast ?w :: u64) = raw" using raw by (simp add: raw_def unsigned_ucast_eq take_bit_nat_eq_self)
  have "unat (ucast ?w :: u64) * unat Second < 2 ^ 64" using raw unfolding u Second_def by simp
  then have p: "unat (ucast ?w * Second :: u64) = raw * 10 ^ 9"
    by (subst unat_times) (simp_all add: u Second_def)
  then have s: "sint (ucast ?w * Second :: i64) = int (raw * 10 ^ 9)"
    using raw by (subst sint_small) simp_all
  have "sint (ntp_rootDisp resp) = int (raw * 10 ^ 9) sdiv 65536"
    unfolding ntp_rootDisp_def Let_def by (subst sint_i64_div) (simp_all add: s)
  then show ?thesis by (simp add: sdiv_nonneg zdiv_int)
qed

text \<open>
  The state a good reply leaves, on the integers, as long as nothing overflows: \<open>a\<close> and \<open>b\<close> are the two
  one-way differences, \<open>d\<close> the delay.
\<close>

lemma ntp_query_values:
  fixes t1 t4 :: gotime and data :: "byte list"
  defines "resp \<equiv> read_48 data"
  defines "t2 \<equiv> ntpTimeFromBytes (go_slice resp 32 40)"
  defines "t3 \<equiv> ntpTimeFromBytes (go_slice resp 40 48)"
  defines "a \<equiv> wall_ns t2 - wall_ns t1" and "b \<equiv> wall_ns t3 - wall_ns t4"
    and "d \<equiv> (wall_ns t4 - wall_ns t1) - (wall_ns t3 - wall_ns t2)"
  assumes r: "ntp_query (Reply t1 data t4) s = (s', e)"
    and small: "\<bar>a\<bar> < 2 ^ 61" "\<bar>b\<bar> < 2 ^ 61" "\<bar>wall_ns t4 - wall_ns t1\<bar> < 2 ^ 61"
    and mono: "time_Sub t4 t1 = saturate (wall_ns t4 - wall_ns t1)"
    and d: "0 \<le> d"
  shows "e = None" and "lastQuery s' = t4" and "sint (lastOffset s') = (a + b) sdiv 2"
    and "sint (lastDispersion s') = sint (ntp_rootDisp resp) + d div 2"
proof -
  note none = ntpTime_wall(2)
  have sub: "time_Sub t2 t1 = saturate a" "time_Sub t3 t4 = saturate b"
      "time_Sub t3 t2 = saturate (wall_ns t3 - wall_ns t2)"
    by (simp_all add: time_Sub_def t2_def t3_def none a_def b_def split: option.splits)
  have s': "s' = s\<lparr>lastOffset := i64_div (saturate a + saturate b) 2,
      lastDispersion := ntp_rootDisp resp + i64_div (time_Sub t4 t1 - saturate (wall_ns t3 - wall_ns t2)) 2,
      lastQuery := t4\<rparr>" and e: "e = None"
    using r by (auto simp: ntp_query_def Let_def sub [unfolded t2_def t3_def resp_def] resp_def t2_def t3_def)
  show "e = None" and "lastQuery s' = t4" by (simp_all add: e s')
  have ab: "sint (saturate a) = a" "sint (saturate b) = b"
    using small by (auto intro!: sint_saturate_id)
  then have sum: "sint (saturate a + saturate b) = a + b" using small by (subst sint_plus) auto
  then have "sint (i64_div (saturate a + saturate b) 2) = (a + b) sdiv 2"
    using small by (subst sint_i64_div) auto
  then show "sint (lastOffset s') = (a + b) sdiv 2" by (simp add: s')
  have w: "wall_ns t3 - wall_ns t2 = b - a + (wall_ns t4 - wall_ns t1)" by (simp add: a_def b_def)
  have "sint (time_Sub t4 t1) = wall_ns t4 - wall_ns t1"
      "sint (saturate (wall_ns t3 - wall_ns t2)) = wall_ns t3 - wall_ns t2"
    unfolding mono using small w by (auto intro!: sint_saturate_id)
  moreover have dab: "d = a - b" by (simp add: a_def b_def d_def)
  moreover have "d < 2 ^ 62" using small(1,2) unfolding dab by auto
  ultimately have delay: "sint (time_Sub t4 t1 - saturate (wall_ns t3 - wall_ns t2)) = d"
    using d by (subst sint_minus) (auto simp: d_def)
  then have half: "sint (i64_div (time_Sub t4 t1 - saturate (wall_ns t3 - wall_ns t2)) 2) = d div 2"
    using d \<open>d < 2 ^ 62\<close> by (subst sint_i64_div) (auto simp: sdiv_nonneg)
  have "unat (be_get (go_slice resp 8 12) :: u32) < 2 ^ LENGTH(32)" by (rule unsigned_less)
  then have "unat (be_get (go_slice resp 8 12) :: u32) * 10 ^ 9 div 2 ^ 16 < 2 ^ 62"
    by (intro less_mult_imp_div_less) simp
  then have "sint (ntp_rootDisp resp) < 2 ^ 62" "0 \<le> sint (ntp_rootDisp resp)"
    unfolding ntp_rootDisp_value by (simp_all del: of_nat_mult of_nat_div)
  then show "sint (lastDispersion s') = sint (ntp_rootDisp resp) + d div 2"
    unfolding s' using half d \<open>d < 2 ^ 62\<close> by (simp) (subst sint_plus, simp_all)
qed

lemma ntp_rootDisp_bounds:
  "0 \<le> sint (ntp_rootDisp resp)" "sint (ntp_rootDisp resp) < 2 ^ 47"
  "(be_get (go_slice resp 8 12) :: u32) \<noteq> 0 \<Longrightarrow> 1 \<le> sint (ntp_rootDisp resp)"
proof -
  let ?raw = "unat (be_get (go_slice resp 8 12) :: u32)"
  have "?raw < 2 ^ LENGTH(32)" by (rule unsigned_less)
  then have "?raw * 10 ^ 9 div 2 ^ 16 < 2 ^ 47" by (intro less_mult_imp_div_less) simp
  then have "int (?raw * 10 ^ 9 div 2 ^ 16) < int (2 ^ 47)" by (rule of_nat_less_iff [THEN iffD2])
  then show "0 \<le> sint (ntp_rootDisp resp)" "sint (ntp_rootDisp resp) < 2 ^ 47"
    unfolding ntp_rootDisp_value by simp_all
  assume "(be_get (go_slice resp 8 12) :: u32) \<noteq> 0"
  then have "1 \<le> ?raw" by (simp add: Suc_le_eq unat_gt_0)
  then have "1 * 10 ^ 9 div 2 ^ 16 \<le> ?raw * 10 ^ 9 div 2 ^ 16" by (intro div_le_mono mult_le_mono1)
  then have "1 \<le> ?raw * 10 ^ 9 div 2 ^ 16" by simp
  then show "1 \<le> sint (ntp_rootDisp resp)" unfolding ntp_rootDisp_value by linarith
qed

text \<open>The bounds a reading computes, on the integers, while the drift allowance does not overflow.\<close>

lemma ntp_Now_values:
  assumes e: "0 \<le> sint (time_Sub now (lastQuery s))" "sint (time_Sub now (lastQuery s)) < 2 ^ 55"
    and disp: "0 \<le> sint (lastDispersion s)" "sint (lastDispersion s) < 2 ^ 61"
  shows "wall_ns (Earliest (ntp_Now now s)) = wall_ns now + sint (lastOffset s) -
      (sint (lastDispersion s) + sint (time_Sub now (lastQuery s)) * 200 div 1000000)"
    and "wall_ns (Latest (ntp_Now now s)) = wall_ns now + sint (lastOffset s) +
      (sint (lastDispersion s) + sint (time_Sub now (lastQuery s)) * 200 div 1000000)"
proof -
  let ?e = "time_Sub now (lastQuery s)"
  have keep: "(if ?e <s 0 then 0 else ?e) = ?e" using e(1) by (simp add: word_sless_alt)
  have "sint (?e * driftPPM) = sint ?e * 200"
  proof -
    have "?e * driftPPM = word_of_int (sint ?e * 200)" by (simp add: driftPPM_def)
    moreover have "sint (word_of_int (sint ?e * 200) :: i64) = sint ?e * 200"
      using e by (intro sint_of_int) auto
    ultimately show ?thesis by (simp only:)
  qed
  then have extra: "sint (i64_div (?e * driftPPM) 1000000) = sint ?e * 200 div 1000000"
    using e by (subst sint_i64_div) (simp_all add: sdiv_nonneg)
  have small: "sint ?e * 200 div 1000000 \<le> sint ?e" "0 \<le> sint ?e * 200 div 1000000"
    using e(1) zdiv_mono1 [of "sint ?e * 200" "sint ?e * 1000000" 1000000] by simp_all
  let ?un = "lastDispersion s + i64_div (?e * driftPPM) 1000000"
  have un: "sint ?un = sint (lastDispersion s) + sint ?e * 200 div 1000000"
    using small disp e(2) extra by (subst sint_plus) auto
  have neg: "sint (- ?un) = - sint ?un"
    using un small disp e(2) by (intro sint_uminus) auto
  show "wall_ns (Earliest (ntp_Now now s)) = wall_ns now + sint (lastOffset s) -
      (sint (lastDispersion s) + sint ?e * 200 div 1000000)"
    unfolding ntp_Now_def Let_def keep by (simp only: interval.select_convs time_Add_def Let_def gotime.select_convs neg un)
  show "wall_ns (Latest (ntp_Now now s)) = wall_ns now + sint (lastOffset s) +
      (sint (lastDispersion s) + sint ?e * 200 div 1000000)"
    unfolding ntp_Now_def Let_def keep by (simp only: interval.select_convs time_Add_def Let_def gotime.select_convs un)
qed

section \<open>Properties\<close>

text \<open>
  Parsing NTP timestamps. For every 8 bytes, the parsed time is the whole nanosecond at or below the
  instant the 32.32 fixed-point number stands for, counted from 1900; no step overflows.
\<close>

lemma ntpTime_exact:
  fixes b :: "byte list"
  shows "(wall_ns (ntpTimeFromBytes b) + 2208988800 * 10 ^ 9) * 2 ^ 32 \<le> int (unat (be_get b :: u64)) * 10 ^ 9 \<and>
    int (unat (be_get b :: u64)) * 10 ^ 9 < (wall_ns (ntpTimeFromBytes b) + 2208988800 * 10 ^ 9 + 1) * 2 ^ 32 \<and>
    mono_ns (ntpTimeFromBytes b) = None"
proof -
  let ?raw = "unat (be_get b :: u64)"
  define q f where "q = int (?raw div 2 ^ 32)" and "f = int (?raw mod 2 ^ 32)"
  have raw: "int ?raw = q * 2 ^ 32 + f"
  proof -
    have "int ?raw = int (?raw div 2 ^ 32 * 2 ^ 32 + ?raw mod 2 ^ 32)" by (simp only: div_mult_mod_eq)
    then show ?thesis by (simp only: of_nat_add of_nat_mult of_nat_power of_nat_numeral q_def f_def)
  qed
  have wall: "wall_ns (ntpTimeFromBytes b) + 2208988800 * 10 ^ 9 = q * 10 ^ 9 + f * 10 ^ 9 div 2 ^ 32"
    unfolding ntpTime_wall(1) q_def f_def by (simp add: zdiv_int zmod_int)
  have "(f * 10 ^ 9 div 2 ^ 32) * 2 ^ 32 \<le> f * 10 ^ 9" "f * 10 ^ 9 < (f * 10 ^ 9 div 2 ^ 32 + 1) * 2 ^ 32"
    using mult_div_mod_eq [of "2 ^ 32" "f * 10 ^ 9"] pos_mod_bound [of "2 ^ 32" "f * 10 ^ 9"]
      pos_mod_sign [of "2 ^ 32" "f * 10 ^ 9"] by (simp_all add: algebra_simps)
  then show ?thesis unfolding wall raw using ntpTime_wall(2) [of b] by (simp add: algebra_simps)
qed

lemma ntpTime_example:
  "ntpTimeFromBytes [131, 170, 126, 129, 128, 0, 0, 0] = wall 1500000000"
  by (simp add: ntpTimeFromBytes_def be_get_def time_Unix_def ntpEpochOffset_def wall_def)

lemma ntp_sound_arith:
  fixes \<theta> :: int
  assumes "0 \<le> d1" and "0 \<le> d2" and "1 \<le> R" and "\<bar>\<delta>\<bar> \<le> X"
  shows "(\<theta> + d1 + (\<theta> - d2)) sdiv 2 - (R + (d1 + d2) div 2 + X) \<le> \<theta> + \<delta>"
    and "\<theta> + \<delta> \<le> (\<theta> + d1 + (\<theta> - d2)) sdiv 2 + (R + (d1 + d2) div 2 + X)"
proof -
  let ?o = "(\<theta> + d1 + (\<theta> - d2)) sdiv 2"
  have o: "2 * ?o \<le> 2 * \<theta> + d1 - d2 + 1" "2 * \<theta> + d1 - d2 - 1 \<le> 2 * ?o"
    using sdiv_two [of "\<theta> + d1 + (\<theta> - d2)"] by linarith+
  have h: "d1 + d2 - 1 \<le> 2 * ((d1 + d2) div 2)" by presburger
  have x: "- X \<le> \<delta>" "\<delta> \<le> X" using assms(4) by linarith+
  show "?o - (R + (d1 + d2) div 2 + X) \<le> \<theta> + \<delta>" using o(1) h x(1) assms(1-3) by linarith
  show "\<theta> + \<delta> \<le> ?o + (R + (d1 + d2) div 2 + X)" using o(2) h x(2) assms(1-3) by linarith
qed

text \<open>The reading brackets true time, by the arithmetic above.\<close>

lemma ntp_reading_brackets:
  fixes data :: "byte list"
  assumes "ntp_query (Reply t1 data t4) s = (s', e)"
    and "wall_ns (ntpTimeFromBytes (go_slice (read_48 data) 32 40)) = wall_ns t1 + \<theta> + d1"
    and "wall_ns (ntpTimeFromBytes (go_slice (read_48 data) 40 48)) = wall_ns t4 + \<theta> - d2"
    and "0 \<le> d1" and "0 \<le> d2" and "\<bar>\<theta>\<bar> < 2 ^ 59" and "d1 < 2 ^ 59" and "d2 < 2 ^ 59"
    and "\<bar>wall_ns t4 - wall_ns t1\<bar> < 2 ^ 61" and "time_Sub t4 t1 = saturate (wall_ns t4 - wall_ns t1)"
    and "(be_get (go_slice (read_48 data) 8 12) :: u32) \<noteq> 0"
    and "0 \<le> sint (time_Sub now t4)" and "sint (time_Sub now t4) < 2 ^ 55"
    and "\<bar>\<delta>\<bar> * 1000000 \<le> sint (time_Sub now t4) * 200"
  shows "e = None \<and>
    wall_ns (Earliest (ntp_Now now s')) \<le> wall_ns now + \<theta> + \<delta> \<and>
    wall_ns now + \<theta> + \<delta> \<le> wall_ns (Latest (ntp_Now now s'))"
proof -
  let ?t2 = "ntpTimeFromBytes (go_slice (read_48 data) 32 40)"
  let ?t3 = "ntpTimeFromBytes (go_slice (read_48 data) 40 48)"
  let ?R = "sint (ntp_rootDisp (read_48 data))" and ?X = "sint (time_Sub now t4) * 200 div 1000000"
  have ab: "wall_ns ?t2 - wall_ns t1 = \<theta> + d1" "wall_ns ?t3 - wall_ns t4 = \<theta> - d2"
    and d: "(wall_ns t4 - wall_ns t1) - (wall_ns ?t3 - wall_ns ?t2) = d1 + d2"
    using assms(2,3) by simp_all
  have small: "\<bar>\<theta> + d1\<bar> < 2 ^ 61" "\<bar>\<theta> - d2\<bar> < 2 ^ 61" "0 \<le> d1 + d2"
    using assms(4-8) by auto
  note q = ntp_query_values [OF assms(1), unfolded ab d, OF small(1,2) assms(9,10) small(3)]
  note R = ntp_rootDisp_bounds [of "read_48 data"]
  have "d1 + d2 < 2 ^ 60" using assms(7,8) by simp
  then have disp: "0 \<le> sint (lastDispersion s')" "sint (lastDispersion s') < 2 ^ 61"
    using q(4) R small(3) by auto
  have e: "0 \<le> sint (time_Sub now (lastQuery s'))" "sint (time_Sub now (lastQuery s')) < 2 ^ 55"
    using assms(12,13) q(2) by simp_all
  have X: "\<bar>\<delta>\<bar> \<le> ?X" using zdiv_mono1 [OF assms(14), of 1000000] by simp
  note A = ntp_sound_arith [OF assms(4,5) R(3) [OF assms(11)] X, of \<theta>]
  have lo: "wall_ns (Earliest (ntp_Now now s')) =
      wall_ns now + (\<theta> + d1 + (\<theta> - d2)) sdiv 2 - (?R + (d1 + d2) div 2 + ?X)"
    and hi: "wall_ns (Latest (ntp_Now now s')) =
      wall_ns now + (\<theta> + d1 + (\<theta> - d2)) sdiv 2 + (?R + (d1 + d2) div 2 + ?X)"
    using ntp_Now_values [OF e disp] by (simp_all only: q)
  show ?thesis unfolding lo hi using q(1) A by auto
qed

text \<open>
  C14. The intervals of the NTP source contain true time. Let true time be \<open>\<theta>\<close> ahead of the local wall clock at
  the query, let the request and the reply take \<open>d1\<close> and \<open>d2\<close>, and let the local clock drift by at
  most 200 ppm, to \<open>\<theta> + \<delta>\<close>, until the reading at \<open>now\<close>. Then the query succeeds and the interval of the reading
  contains true time, provided the server reports a root dispersion that is not zero, no value leaves the
  stated ranges, and the local wall clock is not stepped during the query.
\<close>

theorem ntp_interval_sound:
  fixes data :: "byte list"
  assumes "ntp_query (Reply t1 data t4) s = (s', e)"
    and "wall_ns (ntpTimeFromBytes (go_slice (read_48 data) 32 40)) = wall_ns t1 + \<theta> + d1"
    and "wall_ns (ntpTimeFromBytes (go_slice (read_48 data) 40 48)) = wall_ns t4 + \<theta> - d2"
    and "0 \<le> d1" and "0 \<le> d2" and "\<bar>\<theta>\<bar> < 2 ^ 59" and "d1 < 2 ^ 59" and "d2 < 2 ^ 59"
    and "\<bar>wall_ns t4 - wall_ns t1\<bar> < 2 ^ 61" and "time_Sub t4 t1 = saturate (wall_ns t4 - wall_ns t1)"
    and "(be_get (go_slice (read_48 data) 8 12) :: u32) \<noteq> 0"
    and "0 \<le> sint (time_Sub now t4)" and "sint (time_Sub now t4) < 2 ^ 55"
    and "\<bar>\<delta>\<bar> * 1000000 \<le> sint (time_Sub now t4) * 200"
  shows "e = None \<and>
    wall_ns (Earliest (ntp_Now now s')) \<le> wall_ns now + \<theta> + \<delta> \<and>
    wall_ns now + \<theta> + \<delta> \<le> wall_ns (Latest (ntp_Now now s'))"
  using assms by (rule ntp_reading_brackets)

lemma wall_ns_wall: "wall_ns (wall w) = w"
  by (simp add: wall_def)

text \<open>A reply with the given bytes for the root dispersion and the two timestamps.\<close>

definition reply_bytes :: "byte list \<Rightarrow> byte list \<Rightarrow> byte list \<Rightarrow> byte list" where
  "reply_bytes disp rx tx = replicate 8 0 @ disp @ replicate 20 0 @ rx @ tx"

lemma reply_slices:
  assumes "length disp = 4" and "length rx = 8" and "length tx = 8"
  shows "go_slice (read_48 (reply_bytes disp rx tx)) 8 12 = disp"
    and "go_slice (read_48 (reply_bytes disp rx tx)) 32 40 = rx"
    and "go_slice (read_48 (reply_bytes disp rx tx)) 40 48 = tx"
  using assms by (simp_all add: read_48_def reply_bytes_def go_slice_def)

definition fresh_source :: ntp_source where
  "fresh_source = \<lparr>server = ''time'', queryInterval = Second, lastOffset = 0, lastDispersion = 0,
     lastQuery = zero_time\<rparr>"

lemma ntpTime_second:
  "ntpTimeFromBytes [131, 170, 126, 128, 0, 0, 0, 0] = wall 0"
  "ntpTimeFromBytes [131, 170, 126, 129, 0, 0, 0, 0] = wall 1000000000"
  "ntpTimeFromBytes [131, 170, 126, 130, 0, 0, 0, 0] = wall 2000000000"
  "ntpTimeFromBytes [0, 0, 0, 0, 0, 0, 0, 0] = wall (- 2208988800000000000)"
  by (simp_all add: ntpTimeFromBytes_def be_get_def time_Unix_def ntpEpochOffset_def wall_def)

theorem ntp_interval_sound_witness:
  "let data = reply_bytes [0, 0, 0, 1] [131, 170, 126, 129, 0, 0, 0, 0] [131, 170, 126, 129, 0, 0, 0, 0];
       s' = fst (ntp_query (Reply (wall 999999990) data (wall 1000000020) :: unit exchange) fresh_source);
       i = ntp_Now (wall 1000000020) s'
   in wall_ns (Earliest i) \<le> 1000000020 \<and> 1000000020 \<le> wall_ns (Latest i)"
proof -
  let ?b = "[131, 170, 126, 129, 0, 0, 0, 0] :: byte list"
  let ?d = "reply_bytes [0, 0, 0, 1] ?b ?b"
  obtain s' e where q: "ntp_query (Reply (wall 999999990) ?d (wall 1000000020) :: unit exchange) fresh_source = (s', e)"
    by fastforce
  have sl: "go_slice (read_48 ?d) 8 12 = [0, 0, 0, 1]" "go_slice (read_48 ?d) 32 40 = ?b"
      "go_slice (read_48 ?d) 40 48 = ?b"
    by (rule reply_slices; simp)+
  have "wall_ns (Earliest (ntp_Now (wall 1000000020) s')) \<le> wall_ns (wall 1000000020) + 0 + 0 \<and>
      wall_ns (wall 1000000020) + 0 + 0 \<le> wall_ns (Latest (ntp_Now (wall 1000000020) s'))"
    by (rule ntp_interval_sound [OF q, where ?d1.0 = 10 and ?d2.0 = 20, THEN conjunct2])
       (simp_all add: sl ntpTime_second, simp_all add: wall_def time_Sub_def saturate_def be_get_def)
  then show ?thesis using q by (simp add: wall_def)
qed

section \<open>Where the source is not sound\<close>

lemma ntp_rootDisp_zero: "go_slice resp 8 12 = [0, 0, 0, 0] \<Longrightarrow> sint (ntp_rootDisp resp) = 0"
  unfolding ntp_rootDisp_value by (simp add: be_get_def)

text \<open>
  With a root dispersion of zero the two truncated divisions by 2 leave true time one nanosecond outside the
  interval.
\<close>

lemma ntp_truncation_limit:
  "let data = reply_bytes [0, 0, 0, 0] [131, 170, 126, 128, 0, 0, 0, 0] [131, 170, 126, 130, 0, 0, 0, 0];
       (s', e) = ntp_query (Reply (wall 0) data (wall 2000000001) :: unit exchange) fresh_source;
       i = ntp_Now (wall 2000000001) s'; \<theta> = - 1; d1 = 1; d2 = 0
   in e = None \<and> ntpTimeFromBytes (go_slice (read_48 data) 32 40) = wall (0 + \<theta> + d1) \<and>
      ntpTimeFromBytes (go_slice (read_48 data) 40 48) = wall (2000000001 + \<theta> - d2) \<and>
      2000000001 + \<theta> < wall_ns (Earliest i)"
proof -
  let ?rx = "[131, 170, 126, 128, 0, 0, 0, 0] :: byte list" and ?tx = "[131, 170, 126, 130, 0, 0, 0, 0] :: byte list"
  let ?d = "reply_bytes [0, 0, 0, 0] ?rx ?tx"
  have sl: "go_slice (read_48 ?d) 8 12 = [0, 0, 0, 0]" "go_slice (read_48 ?d) 32 40 = ?rx"
      "go_slice (read_48 ?d) 40 48 = ?tx"
    by (rule reply_slices; simp)+
  obtain s' e where q: "ntp_query (Reply (wall 0) ?d (wall 2000000001) :: unit exchange) fresh_source = (s', e)"
    by fastforce
  have v: "e = None" "lastQuery s' = wall 2000000001" "sint (lastOffset s') = 0" "sint (lastDispersion s') = 0"
    using ntp_query_values [OF q] by (simp_all add: sl ntpTime_second ntp_rootDisp_zero signed_divide_int_def,
      simp_all add: wall_def time_Sub_def saturate_def)
  have "sint (time_Sub (wall 2000000001) (lastQuery s')) = 0"
    unfolding v(2) by (simp add: time_Sub_def wall_def saturate_def)
  then have "wall_ns (Earliest (ntp_Now (wall 2000000001) s')) = 2000000001"
    using ntp_Now_values(1) [of "wall 2000000001" s'] v(3,4) by (simp add: wall_def)
  then show ?thesis by (simp add: q v(1) sl ntpTime_second)
qed

text \<open>After 534 days without a query the drift allowance overflows and the interval is inside out.\<close>

lemma ntp_overflow_limit:
  "let s = fresh_source\<lparr>lastQuery := wall 0\<rparr>; i = ntp_Now (wall (534 * 86400 * 10 ^ 9)) s
   in time_Before (Latest i) (Earliest i)"
  by (simp add: fresh_source_def ntp_Now_def wall_def time_Sub_def saturate_def i64_div_def time_Add_def
      driftPPM_def time_Before_def word_sless_alt signed_divide_int_def Let_def)

text \<open>
  An empty datagram is taken for a reply: no error is returned (not even \<^verbatim>\<open>ErrShortNTPResponse\<close>, which no
  function returns), and the clock is set back to the year 1900 with no uncertainty at all.
\<close>

lemma ntp_short_reply:
  "let (s', e) = ntp_query (Reply (wall 0) [] (wall 0) :: unit exchange) fresh_source; i = ntp_Now (wall 0) s'
   in e = None \<and> wall_ns (Earliest i) = - 2208988800 * 10 ^ 9 \<and> wall_ns (Latest i) = - 2208988800 * 10 ^ 9"
proof -
  have z: "read_48 [] = replicate 48 0" by (simp add: read_48_def)
  have e: "go_slice (read_48 []) 8 12 = [0, 0, 0, 0]"
      "go_slice (read_48 []) 32 40 = [0, 0, 0, 0, 0, 0, 0, 0]" "go_slice (read_48 []) 40 48 = [0, 0, 0, 0, 0, 0, 0, 0]"
    unfolding z go_slice_replicate by (simp_all add: numeral_eq_Suc)
  obtain s' e' where q: "ntp_query (Reply (wall 0) [] (wall 0) :: unit exchange) fresh_source = (s', e')"
    by fastforce
  have v: "e' = None" "lastQuery s' = wall 0" "sint (lastOffset s') = - 2208988800000000000"
      "sint (lastDispersion s') = 0"
    using ntp_query_values [OF q] by (simp_all add: e ntpTime_second ntp_rootDisp_zero signed_divide_int_def,
      simp_all add: wall_def time_Sub_def saturate_def)
  have "sint (time_Sub (wall 0) (lastQuery s')) = 0"
    unfolding v(2) by (simp add: time_Sub_def wall_def saturate_def)
  then show ?thesis
    using ntp_Now_values [of "wall 0" s'] v(3,4) by (simp add: q v(1) wall_ns_wall)
qed

end
