(* ===== verification/Ntp_Loop.thy ===== *)
theory Ntp_Loop
  imports Ntp
begin

text \<open>
  The background refresh of \<^verbatim>\<open>NTPSource.Start\<close> and \<^verbatim>\<open>NTPSource.Stop\<close>, as a state machine. Each call of
  \<^verbatim>\<open>Start\<close> makes a context and a channel and launches a goroutine; loops and channels are numbered in that
  order, and the fields \<^verbatim>\<open>cancel\<close> and \<^verbatim>\<open>done\<close> of the source refer to the last. A step is one action of one
  goroutine: a loop that begins to run, a tick of a loop with its query, a loop that sees its context done,
  the cancellation of a parent context, or a part of a call by the one goroutine that owns the source (the two
  fields are not guarded by the mutex). A \<^verbatim>\<open>select\<close> with both cases ready may take either, so a cancelled
  loop may still tick.
\<close>

section \<open>The state machine\<close>

text \<open>
  A loop runs, has had its context cancelled, or has returned. \<open>closes\<close> is the channel that its
  \<^verbatim>\<open>defer close(s.done)\<close> closes: the field is read when the goroutine begins, not when it is launched.
\<close>

datatype loop_status = Running | Cancelled | Exited

record refresh_loop =
  parent :: nat
  status :: loop_status
  closes :: "nat option"

text \<open>
  \<open>closed\<close>: which channels are closed; \<open>waiting_stop\<close>: a call of \<^verbatim>\<open>Stop\<close> has cancelled the loop and waits for its
  channel; \<open>crashed\<close>: a goroutine has panicked.
\<close>

record refresher =
  source :: ntp_source
  loops :: "refresh_loop list"
  closed :: "bool list"
  current :: "nat option"
  waiting_stop :: bool
  crashed :: bool

definition cancel_loop :: "refresh_loop \<Rightarrow> refresh_loop" where
  "cancel_loop l = (if status l = Running then l\<lparr>status := Cancelled\<rparr> else l)"

definition ntp_Start :: "nat \<Rightarrow> refresher \<Rightarrow> refresher" where
  "ntp_Start ctx s =
     s\<lparr>loops := loops s @ [\<lparr>parent = ctx, status = Running, closes = None\<rparr>], closed := closed s @ [False],
       current := Some (length (loops s))\<rparr>"

text \<open>The first lines of the goroutine: \<^verbatim>\<open>time.NewTicker\<close> panics for an interval that is not positive.\<close>

definition loop_begin :: "nat \<Rightarrow> refresher \<Rightarrow> refresher" where
  "loop_begin i s =
     (if queryInterval (source s) \<le>s 0 then s\<lparr>crashed := True\<rparr>
      else s\<lparr>loops := (loops s)[i := (loops s ! i)\<lparr>closes := current s\<rparr>]\<rparr>)"

text \<open>One round of the loop: the error of the query is discarded.\<close>

definition loop_tick :: "'e exchange \<Rightarrow> refresher \<Rightarrow> refresher" where
  "loop_tick x s = s\<lparr>source := fst (ntp_query x (source s))\<rparr>"

text \<open>The loop returns and its deferred \<^verbatim>\<open>close\<close> runs, which panics on a closed channel.\<close>

definition loop_exit :: "nat \<Rightarrow> nat \<Rightarrow> refresher \<Rightarrow> refresher" where
  "loop_exit i ch s =
     (let s = s\<lparr>loops := (loops s)[i := (loops s ! i)\<lparr>status := Exited\<rparr>]\<rparr>
      in if closed s ! ch then s\<lparr>crashed := True\<rparr> else s\<lparr>closed := (closed s)[ch := True]\<rparr>)"

text \<open>\<^verbatim>\<open>Stop\<close> up to the wait; without a loop it returns at once.\<close>

definition ntp_Stop :: "refresher \<Rightarrow> refresher" where
  "ntp_Stop s =
     (case current s of
        None \<Rightarrow> s
      | Some i \<Rightarrow> s\<lparr>loops := (loops s)[i := cancel_loop (loops s ! i)], waiting_stop := True\<rparr>)"

datatype 'e refresh_event =
    StartCall nat
  | StopCall
  | StopReturn
  | ParentDone nat
  | LoopBegin nat
  | LoopTick nat "'e exchange"
  | LoopExit nat

text \<open>
  The steps that are possible: the owner makes no other call while \<^verbatim>\<open>Stop\<close> waits, and nothing happens after a
  panic, which ends the process.
\<close>

inductive refresh_step :: "refresher \<Rightarrow> 'e refresh_event \<Rightarrow> refresher \<Rightarrow> bool" where
  step_start: "\<not> crashed s \<Longrightarrow> \<not> waiting_stop s \<Longrightarrow> refresh_step s (StartCall ctx) (ntp_Start ctx s)"
| step_stop: "\<not> crashed s \<Longrightarrow> \<not> waiting_stop s \<Longrightarrow> refresh_step s StopCall (ntp_Stop s)"
| step_return: "\<not> crashed s \<Longrightarrow> waiting_stop s \<Longrightarrow> current s = Some i \<Longrightarrow> closed s ! i \<Longrightarrow>
    refresh_step s StopReturn (s\<lparr>waiting_stop := False\<rparr>)"
| step_parent: "\<not> crashed s \<Longrightarrow> refresh_step s (ParentDone ctx)
    (s\<lparr>loops := List.map (\<lambda>l. if parent l = ctx then cancel_loop l else l) (loops s)\<rparr>)"
| step_begin: "\<not> crashed s \<Longrightarrow> i < length (loops s) \<Longrightarrow> closes (loops s ! i) = None \<Longrightarrow>
    refresh_step s (LoopBegin i) (loop_begin i s)"
| step_tick: "\<not> crashed s \<Longrightarrow> i < length (loops s) \<Longrightarrow> closes (loops s ! i) = Some ch \<Longrightarrow>
    status (loops s ! i) \<noteq> Exited \<Longrightarrow> refresh_step s (LoopTick i x) (loop_tick x s)"
| step_exit: "\<not> crashed s \<Longrightarrow> i < length (loops s) \<Longrightarrow> closes (loops s ! i) = Some ch \<Longrightarrow>
    status (loops s ! i) = Cancelled \<Longrightarrow> refresh_step s (LoopExit i) (loop_exit i ch s)"

inductive_cases step_returnE: "refresh_step s StopReturn s'"

inductive refresh_run :: "refresher \<Rightarrow> 'e refresh_event list \<Rightarrow> refresher \<Rightarrow> bool" where
  run_Nil: "refresh_run s [] s"
| run_snoc: "refresh_run s es t \<Longrightarrow> refresh_step t e u \<Longrightarrow> refresh_run s (es @ [e]) u"

text \<open>A source as \<^verbatim>\<open>NewNTPSource\<close> returns it.\<close>

definition idle :: "ntp_source \<Rightarrow> refresher" where
  "idle src = \<lparr>source = src, loops = [], closed = [], current = None, waiting_stop = False, crashed = False\<rparr>"

section \<open>Invariants\<close>

definition starts :: "'e refresh_event list \<Rightarrow> nat" where
  "starts es = length (filter (\<lambda>e. case e of StartCall _ \<Rightarrow> True | _ \<Rightarrow> False) es)"

lemma starts_simps [simp]:
  "starts [] = 0"
  "starts (es @ [e]) = starts es + (case e of StartCall _ \<Rightarrow> 1 | _ \<Rightarrow> 0)"
  by (auto simp: starts_def split: refresh_event.splits)

lemma cancel_loop_status [simp]: "status (cancel_loop l) \<noteq> Running"
  by (cases "status l") (auto simp: cancel_loop_def)

lemma cancel_loop_closes [simp]: "closes (cancel_loop l) = closes l" "status (cancel_loop l) = Exited \<longleftrightarrow> status l = Exited"
  by (auto simp: cancel_loop_def)

text \<open>
  There is one loop and one channel per \<^verbatim>\<open>Start\<close>, and the fields refer to the last; a loop closes its own
  channel or a later one, and a closed channel was closed by a loop that has returned.
\<close>

definition loop_ok :: "bool list \<Rightarrow> nat \<Rightarrow> refresh_loop \<Rightarrow> bool" where
  "loop_ok cs i l \<longleftrightarrow> (\<forall>ch. closes l = Some ch \<longrightarrow> i \<le> ch \<and> ch < length cs) \<and> (status l = Exited \<longrightarrow> closes l \<noteq> None)"

definition closed_ok :: "refresher \<Rightarrow> bool" where
  "closed_ok t \<longleftrightarrow> (\<forall>ch < length (closed t). closed t ! ch \<longrightarrow>
     (\<exists>i < length (loops t). i \<le> ch \<and> status (loops t ! i) = Exited \<and> closes (loops t ! i) = Some ch))"

definition refresh_ok :: "nat \<Rightarrow> refresher \<Rightarrow> bool" where
  "refresh_ok n t \<longleftrightarrow> length (loops t) = n \<and> length (closed t) = n \<and>
     current t = (if n = 0 then None else Some (n - 1)) \<and> (waiting_stop t \<longrightarrow> n \<noteq> 0) \<and>
     (\<forall>i < n. loop_ok (closed t) i (loops t ! i)) \<and> closed_ok t"

lemma closed_ok_mono:
  assumes "closed_ok t" and "length (loops t) \<le> length (loops u)" and "closed u = closed t"
    and "\<And>i. i < length (loops t) \<Longrightarrow> status (loops t ! i) = Exited \<Longrightarrow>
      status (loops u ! i) = Exited \<and> closes (loops u ! i) = closes (loops t ! i)"
  shows "closed_ok u"
  unfolding closed_ok_def
proof (intro allI impI)
  fix ch assume "ch < length (closed u)" and "closed u ! ch"
  then obtain i where "i < length (loops t)" "i \<le> ch" "status (loops t ! i) = Exited" "closes (loops t ! i) = Some ch"
    using assms(1,3) unfolding closed_ok_def by auto
  then show "\<exists>i < length (loops u). i \<le> ch \<and> status (loops u ! i) = Exited \<and> closes (loops u ! i) = Some ch"
    using assms(2,4) by (intro exI [of _ i]) auto
qed

lemma refresh_ok_mono:
  assumes ok: "refresh_ok n t" and len: "length (loops u) = length (loops t)" and "closed u = closed t"
    and "current u = current t" and "waiting_stop u \<longrightarrow> n \<noteq> 0"
    and same: "\<And>i. i < n \<Longrightarrow> (status (loops u ! i) = Exited \<longleftrightarrow> status (loops t ! i) = Exited) \<and>
      (closes (loops u ! i) = closes (loops t ! i) \<or> closes (loops t ! i) = None \<and> closes (loops u ! i) = current t)"
  shows "refresh_ok n u"
proof -
  have n: "length (loops t) = n" "length (closed t) = n" "current t = (if n = 0 then None else Some (n - 1))"
    and lo: "\<And>i. i < n \<Longrightarrow> loop_ok (closed t) i (loops t ! i)" and co: "closed_ok t"
    using ok by (simp_all add: refresh_ok_def)
  have "closed_ok u"
  proof (rule closed_ok_mono [OF co])
    fix i assume "i < length (loops t)" and e: "status (loops t ! i) = Exited"
    then have "i < n" and "closes (loops t ! i) \<noteq> None" using n lo [of i] by (simp_all add: loop_ok_def)
    then show "status (loops u ! i) = Exited \<and> closes (loops u ! i) = closes (loops t ! i)"
      using same [of i] e by auto
  qed (use len assms(3) in simp_all)
  moreover have "loop_ok (closed u) i (loops u ! i)" if "i < n" for i
    using lo [OF that] same [OF that] that n(2,3) assms(3) by (auto simp: loop_ok_def)
  ultimately show ?thesis using n len assms(3-5) by (simp add: refresh_ok_def)
qed

lemma refresh_start_ok:
  assumes ok: "refresh_ok n t"
  shows "refresh_ok (n + 1) (ntp_Start ctx t)"
proof -
  have "closed_ok (t\<lparr>loops := loops (ntp_Start ctx t)\<rparr>)"
    using ok by (auto simp: refresh_ok_def ntp_Start_def nth_append intro!: closed_ok_mono [of t])
  then have "closed_ok (ntp_Start ctx t)"
    unfolding closed_ok_def using ok by (auto simp: ntp_Start_def refresh_ok_def nth_append less_Suc_eq split: if_splits)
  then show ?thesis
    using ok by (auto simp: refresh_ok_def ntp_Start_def loop_ok_def nth_append less_Suc_eq)
qed

lemma refresh_exit_ok:
  assumes ok: "refresh_ok n t" and exit: "i < length (loops t)" "status (loops t ! i) \<noteq> Exited" "closes (loops t ! i) = Some ch"
  shows "refresh_ok n (loop_exit i ch t)"
proof -
  let ?ls = "(loops t)[i := (loops t ! i)\<lparr>status := Exited\<rparr>]"
  have n: "length (loops t) = n" "length (closed t) = n" and lo: "\<And>j. j < n \<Longrightarrow> loop_ok (closed t) j (loops t ! j)"
    and co: "closed_ok t"
    using ok by (simp_all add: refresh_ok_def)
  have i: "i < n" and l: "closes (loops t ! i) = Some ch" and ch: "i \<le> ch" "ch < n"
    using exit n lo [of i] by (simp_all add: loop_ok_def)
  have nth: "?ls ! j = (if j = i then (loops t ! i)\<lparr>status := Exited\<rparr> else loops t ! j)" if "j < n" for j
    using that n by simp
  have "closed_ok (t\<lparr>loops := ?ls\<rparr>)" by (rule closed_ok_mono [OF co]) (simp_all add: n nth)
  moreover have "status (?ls ! i) = Exited \<and> closes (?ls ! i) = Some ch" using i l by (simp add: nth)
  ultimately have "closed_ok (t\<lparr>loops := ?ls, closed := (closed t)[ch := True]\<rparr>)" and "closed_ok (t\<lparr>loops := ?ls\<rparr>)"
    unfolding closed_ok_def using i ch n by (auto simp: nth_list_update split: if_splits)
  then have "closed_ok (loop_exit i ch t)" by (auto simp: loop_exit_def Let_def closed_ok_def)
  moreover have "loop_ok (closed t) j (?ls ! j)" if "j < n" for j
    using lo [OF that] l that by (auto simp: nth loop_ok_def)
  ultimately show ?thesis
    using ok i by (cases "closed t ! ch") (simp_all add: refresh_ok_def loop_exit_def loop_ok_def)
qed

lemma refresh_step_ok:
  assumes "refresh_step t e u" and ok: "refresh_ok n t"
  shows "refresh_ok (case e of StartCall _ \<Rightarrow> n + 1 | _ \<Rightarrow> n) u"
  using assms(1)
proof cases
  case (step_start ctx)
  then show ?thesis using refresh_start_ok [OF ok] by simp
next
  case step_stop
  show ?thesis
  proof (cases "current t")
    case None
    then show ?thesis using step_stop ok by (simp add: ntp_Stop_def)
  next
    case (Some k)
    then have k: "k < length (loops t)" and n: "n \<noteq> 0" using ok by (auto simp: refresh_ok_def split: if_splits)
    have "refresh_ok n (ntp_Stop t)"
      by (rule refresh_ok_mono [OF ok]) (use Some k n in \<open>auto simp: ntp_Stop_def nth_list_update\<close>)
    then show ?thesis using step_stop by simp
  qed
next
  case (step_return i)
  then show ?thesis using refresh_ok_mono [OF ok, of u] by simp
next
  case (step_parent ctx)
  have "length (loops t) = n" and "waiting_stop t \<longrightarrow> n \<noteq> 0" using ok by (simp_all add: refresh_ok_def)
  then have "refresh_ok n u" by (intro refresh_ok_mono [OF ok]) (simp_all add: step_parent)
  then show ?thesis using step_parent by simp
next
  case (step_begin i)
  have "waiting_stop t \<longrightarrow> n \<noteq> 0" using ok by (simp add: refresh_ok_def)
  then have "refresh_ok n (loop_begin i t)"
    by (intro refresh_ok_mono [OF ok]) (use step_begin in \<open>auto simp: loop_begin_def nth_list_update\<close>)
  then show ?thesis using step_begin by simp
next
  case (step_tick i ch x)
  have "waiting_stop t \<longrightarrow> n \<noteq> 0" using ok by (simp add: refresh_ok_def)
  then have "refresh_ok n (loop_tick x t)" by (intro refresh_ok_mono [OF ok]) (simp_all add: loop_tick_def)
  then show ?thesis using step_tick by simp
next
  case (step_exit i ch)
  then show ?thesis using refresh_exit_ok [OF ok] by simp
qed

lemma refresh_run_ok:
  assumes "refresh_run s es t" and "s = idle src"
  shows "refresh_ok (starts es) t"
  using assms
proof (induction rule: refresh_run.induct)
  case (run_Nil s)
  then show ?case by (simp add: refresh_ok_def idle_def closed_ok_def)
next
  case (run_snoc s es t e u)
  from refresh_step_ok [OF run_snoc.hyps(2) run_snoc.IH [OF run_snoc.prems]] show ?case
    by (cases e) simp_all
qed

text \<open>
  How the owner uses the source: \<open>in_turn\<close> says that no \<^verbatim>\<open>Start\<close> is made while the loop of an earlier \<^verbatim>\<open>Start\<close>
  has not been stopped, that is, before a \<^verbatim>\<open>Stop\<close> after it has returned.
\<close>

fun started :: "bool \<Rightarrow> 'e refresh_event \<Rightarrow> bool" where
  "started b (StartCall ctx) \<longleftrightarrow> True"
| "started b StopReturn \<longleftrightarrow> False"
| "started b e \<longleftrightarrow> b"

fun in_turn :: "bool \<Rightarrow> 'e refresh_event list \<Rightarrow> bool" where
  "in_turn b [] \<longleftrightarrow> True"
| "in_turn b (e # es) \<longleftrightarrow> (starts [e] = 0 \<or> \<not> b) \<and> in_turn (started b e) es"

lemma in_turn_snoc: "in_turn b (es @ [e]) \<longleftrightarrow> in_turn b es \<and> (starts [e] = 0 \<or> \<not> foldl started b es)"
  by (induction es arbitrary: b) auto

lemma starts_Cons: "starts (e # es) = starts [e] + starts es"
  by (simp add: starts_def)

lemma started_same: "starts [e] = 0 \<Longrightarrow> \<not> b \<Longrightarrow> \<not> started b e"
  by (cases e) (simp_all add: starts_def)

text \<open>A single \<^verbatim>\<open>Start\<close> is in turn.\<close>

lemma starts_in_turn: "starts es \<le> (if b then 0 else 1) \<Longrightarrow> in_turn b es"
proof (induction es arbitrary: b)
  case (Cons e es)
  then show ?case
    using started_same [of e b] starts_Cons [of e es] Cons.IH [of "started b e"]
    by (cases "started b e"; cases b; cases "starts [e] = 0") auto
qed simp

text \<open>Then a loop closes its own channel, and all loops but one that was not stopped have returned.\<close>

definition turn_ok :: "bool \<Rightarrow> refresher \<Rightarrow> bool" where
  "turn_ok b t \<longleftrightarrow> (\<forall>i < length (loops t). (\<forall>ch. closes (loops t ! i) = Some ch \<longrightarrow> ch = i) \<and>
     (b \<and> i + 1 = length (loops t) \<or> status (loops t ! i) = Exited))"

lemma turn_ok_mono:
  assumes "turn_ok b t" and "length (loops u) = length (loops t)"
    and "\<And>i. i < length (loops t) \<Longrightarrow> (status (loops t ! i) = Exited \<longrightarrow> status (loops u ! i) = Exited) \<and>
      (closes (loops u ! i) = closes (loops t ! i) \<or> closes (loops u ! i) = Some i)"
  shows "turn_ok b u"
  using assms unfolding turn_ok_def by (metis option.inject)

lemma turn_ok_closed:
  assumes ok: "refresh_ok n t" and turn: "turn_ok b t" and ch: "ch < n" "closed t ! ch"
  shows "status (loops t ! ch) = Exited"
proof -
  have "closed_ok t" "ch < length (closed t)" using ok ch(1) by (simp_all add: refresh_ok_def)
  then obtain i where "i < length (loops t)" "status (loops t ! i) = Exited" "closes (loops t ! i) = Some ch"
    using ch(2) unfolding closed_ok_def by blast
  then show ?thesis using turn unfolding turn_ok_def by metis
qed

lemma turn_ok_step:
  assumes "refresh_step t e u" and ok: "refresh_ok n t" and turn: "turn_ok b t" and e: "starts [e] = 0 \<or> \<not> b"
  shows "turn_ok (started b e) u"
  using assms(1)
proof cases
  case (step_start ctx)
  then have "\<not> b" using e by (simp add: starts_def)
  then show ?thesis using turn step_start by (auto simp: turn_ok_def ntp_Start_def nth_append less_Suc_eq)
next
  case step_stop
  have "k < length (loops t)" if "current t = Some k" for k
    using that ok by (auto simp: refresh_ok_def split: if_splits)
  then have "turn_ok b (ntp_Stop t)"
    by (intro turn_ok_mono [OF turn]) (auto simp: ntp_Stop_def nth_list_update split: option.split)
  then show ?thesis using step_stop by simp
next
  case (step_return i)
  then have i: "n \<noteq> 0" "i = n - 1" and n: "length (loops t) = n"
    using ok by (auto simp: refresh_ok_def split: if_splits)
  have last: "status (loops t ! i) = Exited" using turn_ok_closed [OF ok turn, of i] i step_return by simp
  have "status (loops t ! j) = Exited" if "j < length (loops t)" for j
  proof (cases "j = i")
    case False
    then have "j + 1 \<noteq> length (loops t)" using i n by simp
    then show ?thesis using turn that by (auto simp: turn_ok_def)
  qed (simp add: last)
  then show ?thesis using turn step_return by (simp add: turn_ok_def)
next
  case (step_parent ctx)
  have "turn_ok b u" by (rule turn_ok_mono [OF turn]) (simp_all add: step_parent)
  then show ?thesis using step_parent by simp
next
  case (step_begin i)
  have n: "length (loops t) = n" "current t = (if n = 0 then None else Some (n - 1))" and lo: "loop_ok (closed t) i (loops t ! i)"
    using ok step_begin by (simp_all add: refresh_ok_def)
  have "status (loops t ! i) \<noteq> Exited" using lo step_begin by (auto simp: loop_ok_def)
  then have "i + 1 = n" using turn step_begin n(1) unfolding turn_ok_def by metis
  then have "current t = Some i" using n(2) by auto
  then have "turn_ok b (loop_begin i t)"
    by (intro turn_ok_mono [OF turn]) (use step_begin in \<open>auto simp: loop_begin_def nth_list_update\<close>)
  then show ?thesis using step_begin by simp
next
  case (step_tick i ch x)
  have "turn_ok b (loop_tick x t)" by (rule turn_ok_mono [OF turn]) (simp_all add: loop_tick_def)
  then show ?thesis using step_tick by simp
next
  case (step_exit i ch)
  have "turn_ok b (loop_exit i ch t)"
    by (rule turn_ok_mono [OF turn]) (use step_exit in \<open>auto simp: loop_exit_def Let_def nth_list_update\<close>)
  then show ?thesis using step_exit by simp
qed

lemma turn_ok_run:
  assumes "refresh_run s es t" and "s = idle src" and "in_turn False es"
  shows "turn_ok (foldl started False es) t"
  using assms
proof (induction rule: refresh_run.induct)
  case (run_Nil s)
  then show ?case by (simp add: turn_ok_def idle_def)
next
  case (run_snoc s es t e u)
  then have turn: "in_turn False es" "starts [e] = 0 \<or> \<not> foldl started False es" by (simp_all add: in_turn_snoc)
  from turn_ok_step [OF run_snoc.hyps(2) refresh_run_ok [OF run_snoc.hyps(1) run_snoc.prems(1)]
      run_snoc.IH [OF run_snoc.prems(1) turn(1)] turn(2)]
  show ?case by simp
qed

definition all_exited :: "refresher \<Rightarrow> bool" where
  "all_exited s \<longleftrightarrow> (\<forall>l \<in> set (loops s). status l = Exited \<and> closes l \<noteq> None)"

lemma cancel_loop_Exited: "status l = Exited \<Longrightarrow> cancel_loop l = l"
  by (simp add: cancel_loop_def)

lemma all_exited_nth:
  "all_exited s \<Longrightarrow> i < length (loops s) \<Longrightarrow> status (loops s ! i) = Exited \<and> closes (loops s ! i) \<noteq> None"
  by (simp add: all_exited_def)

text \<open>Where every loop has returned, only \<^verbatim>\<open>Start\<close> can make the source change again.\<close>

lemma exited_step:
  assumes "refresh_step s e t" and "all_exited s" and "current s \<noteq> None \<longrightarrow> the (current s) < length (loops s)"
    and "\<nexists>ctx. e = StartCall ctx"
  shows "all_exited t \<and> source t = source s \<and> loops t = loops s \<and> current t = current s \<and>
    (\<nexists>i x. e = LoopTick i x)"
  using assms(1)
proof cases
  case step_stop
  then show ?thesis
    using assms(2,3) all_exited_nth [OF assms(2)]
    by (auto simp: ntp_Stop_def all_exited_def cancel_loop_Exited split: option.splits)
next
  case (step_parent ctx)
  have "List.map (\<lambda>l. if parent l = ctx then cancel_loop l else l) (loops s) = loops s"
    using assms(2) by (intro map_idI) (auto simp: all_exited_def cancel_loop_Exited)
  then show ?thesis using step_parent assms(2) by (simp add: all_exited_def)
next
  case (step_begin i)
  then show ?thesis using all_exited_nth [OF assms(2)] by simp
next
  case (step_tick i ch x)
  then show ?thesis using all_exited_nth [OF assms(2)] by simp
next
  case (step_exit i ch)
  then show ?thesis using all_exited_nth [OF assms(2)] by fastforce
qed (use assms in \<open>auto simp: all_exited_def\<close>)

lemma exited_run:
  assumes "refresh_run s es t" and "all_exited s"
    and "current s \<noteq> None \<longrightarrow> the (current s) < length (loops s)" and "starts es = 0"
  shows "all_exited t \<and> source t = source s \<and> loops t = loops s \<and> current t = current s \<and>
    {e \<in> set es. \<exists>i x. e = LoopTick i x} = {}"
  using assms
proof (induction rule: refresh_run.induct)
  case (run_snoc s es t e u)
  then have "starts es = 0" and e: "\<nexists>ctx. e = StartCall ctx" by auto
  note IH = run_snoc.IH [OF run_snoc.prems(1,2) this(1)]
  have "current t \<noteq> None \<longrightarrow> the (current t) < length (loops t)" using IH run_snoc.prems(2) by simp
  with exited_step [OF run_snoc.hyps(2) _ this e] IH show ?case by auto
qed auto

inductive_cases run_snocE: "refresh_run s (es @ [e]) t"

section \<open>Properties\<close>

text \<open>
  C37. After \<^verbatim>\<open>Stop\<close> has returned, the source is not refreshed any more, if one goroutine owns it and has called
  \<^verbatim>\<open>Start\<close> only before the first or after the return of a later \<^verbatim>\<open>Stop\<close>: in every interleaving that follows,
  up to the next \<^verbatim>\<open>Start\<close>, no loop ticks, all loops have returned, and offset, dispersion and query time stay as
  they are. A second \<^verbatim>\<open>Start\<close> without a \<^verbatim>\<open>Stop\<close> between breaks this (\<open>ntp_Start_twice_leaks\<close>).
\<close>

theorem ntp_Stop_final:
  fixes es fs :: "'e refresh_event list"
  assumes "refresh_run (idle src) (es @ [StopReturn]) t" and "in_turn False es"
    and "refresh_run t fs u" and "starts fs = 0"
  shows "source u = source t \<and> {e \<in> set fs. \<exists>i x. e = LoopTick i x} = {} \<and>
    {l \<in> set (loops u). status l \<noteq> Exited} = {}"
proof -
  note ok = refresh_run_ok [OF assms(1) refl]
  have "in_turn False (es @ [StopReturn])" using assms(2) by (simp add: in_turn_snoc starts_def)
  from turn_ok_run [OF assms(1) refl this] have "turn_ok False t" by simp
  then have ex: "all_exited t" and c: "current t \<noteq> None \<longrightarrow> the (current t) < length (loops t)"
    using ok by (auto simp: all_exited_def turn_ok_def refresh_ok_def loop_ok_def in_set_conv_nth)
  from exited_run [OF assms(3) ex c assms(4)] show ?thesis by (auto simp: all_exited_def)
qed

lemma refresh_run_append: "refresh_run t fs u \<Longrightarrow> refresh_run s es t \<Longrightarrow> refresh_run s (es @ fs) u"
proof (induction arbitrary: es rule: refresh_run.induct)
  case (run_snoc t fs v e u)
  then have "refresh_run s ((es @ fs) @ [e]) u" by (blast intro: refresh_run.run_snoc)
  then show ?case by simp
qed simp

lemma run_step: "refresh_step s e t \<Longrightarrow> refresh_run t es u \<Longrightarrow> refresh_run s (e # es) u"
  using refresh_run_append [of t es u s "[e]"] refresh_run.run_snoc [OF run_Nil, of s e t] by simp

definition demo_state :: "(loop_status \<times> nat option) list \<Rightarrow> bool list \<Rightarrow> nat option \<Rightarrow> bool \<Rightarrow> bool \<Rightarrow> refresher" where
  "demo_state ls cs cur w cr = \<lparr>source = fresh_source,
     loops = List.map (\<lambda>(st, ch). \<lparr>parent = 0, status = st, closes = ch\<rparr>) ls, closed = cs, current = cur,
     waiting_stop = w, crashed = cr\<rparr>"

lemma demo_idle: "idle fresh_source = demo_state [] [] None False False"
  by (simp add: idle_def demo_state_def)

lemma demo_start: "refresh_step (demo_state ls cs cur False False) (StartCall 0)
    (demo_state (ls @ [(Running, None)]) (cs @ [False]) (Some (length ls)) False False)"
  using step_start [of "demo_state ls cs cur False False" 0] by (simp add: ntp_Start_def demo_state_def)

lemma demo_begin: "i < length ls \<Longrightarrow> ls ! i = (st, None) \<Longrightarrow>
    refresh_step (demo_state ls cs cur w False) (LoopBegin i) (demo_state (ls[i := (st, cur)]) cs cur w False)"
  using step_begin [of "demo_state ls cs cur w False" i]
  by (simp add: demo_state_def loop_begin_def fresh_source_def Second_def word_sle_eq map_update)

lemma demo_stop: "i < length ls \<Longrightarrow> ls ! i = (Running, ch) \<Longrightarrow>
    refresh_step (demo_state ls cs (Some i) False False) StopCall
      (demo_state (ls[i := (Cancelled, ch)]) cs (Some i) True False)"
  using step_stop [of "demo_state ls cs (Some i) False False"]
  by (simp add: ntp_Stop_def demo_state_def cancel_loop_def map_update)

lemma demo_parent: "refresh_step (demo_state [(Running, c), (Running, d)] cs cur w False) (ParentDone 0)
    (demo_state [(Cancelled, c), (Cancelled, d)] cs cur w False)"
  using step_parent [of "demo_state [(Running, c), (Running, d)] cs cur w False" 0]
  by (simp add: demo_state_def cancel_loop_def)

lemma demo_exit: "i < length ls \<Longrightarrow> ls ! i = (Cancelled, Some ch) \<Longrightarrow>
    refresh_step (demo_state ls cs cur w False) (LoopExit i)
      (demo_state (ls[i := (Exited, Some ch)]) (if cs ! ch then cs else cs[ch := True]) cur w (cs ! ch))"
  using step_exit [of "demo_state ls cs cur w False" i ch]
  by (simp add: demo_state_def map_update loop_exit_def Let_def split: if_splits)

lemma demo_return: "cs ! i \<Longrightarrow> refresh_step (demo_state ls cs (Some i) True False) StopReturn
    (demo_state ls cs (Some i) False False)"
  using step_return [of "demo_state ls cs (Some i) True False" i] by (simp add: demo_state_def)

text \<open>A loop that is started and stopped, whatever loops have returned before.\<close>

lemma demo_round:
  assumes "length cs = length ls"
  shows "refresh_run (demo_state ls cs cur False False)
      [StartCall 0, LoopBegin (length ls), StopCall, LoopExit (length ls), StopReturn :: 'e refresh_event]
      (demo_state (ls @ [(Exited, Some (length ls))]) (cs @ [True]) (Some (length ls)) False False)"
proof -
  let ?n = "length ls" and ?c = "Some (length ls)"
  let ?st = "\<lambda>st ch c w. demo_state (ls @ [(st, ch)]) (cs @ [c]) ?c w False"
  have s1: "refresh_step (demo_state ls cs cur False False) (StartCall 0 :: 'e refresh_event) (?st Running None False False)"
    and s2: "refresh_step (?st Running None False False) (LoopBegin ?n :: 'e refresh_event) (?st Running ?c False False)"
    and s3: "refresh_step (?st Running ?c False False) (StopCall :: 'e refresh_event) (?st Cancelled ?c False True)"
    and s4: "refresh_step (?st Cancelled ?c False True) (LoopExit ?n :: 'e refresh_event) (?st Exited ?c True True)"
    and s5: "refresh_step (?st Exited ?c True True) (StopReturn :: 'e refresh_event) (?st Exited ?c True False)"
    using demo_start [of ls cs cur, where 'a = 'e] demo_begin [of ?n "ls @ [(Running, None)]" Running "cs @ [False]" ?c, where 'a = 'e]
      demo_stop [of ?n "ls @ [(Running, ?c)]" ?c "cs @ [False]", where 'a = 'e]
      demo_exit [of ?n "ls @ [(Cancelled, ?c)]" ?n "cs @ [False]" ?c True, where 'a = 'e]
      demo_return [of "cs @ [True]" ?n "ls @ [(Exited, ?c)]", where 'a = 'e] assms
    by (simp_all add: nth_append list_update_append)
  show ?thesis
    by (rule run_step [OF s1], rule run_step [OF s2], rule run_step [OF s3], rule run_step [OF s4], rule run_step [OF s5], rule run_Nil)
qed

text \<open>A source that is started and stopped twice.\<close>

abbreviation demo_restart :: "unit refresh_event list" where
  "demo_restart \<equiv> [StartCall 0, LoopBegin 0, StopCall, LoopExit 0, StopReturn,
     StartCall 0, LoopBegin 1, StopCall, LoopExit 1, StopReturn]"

lemma demo_run_restart:
  "refresh_run (idle fresh_source) demo_restart
     (demo_state [(Exited, Some 0), (Exited, Some 1)] [True, True] (Some 1) False False)"
proof -
  have "refresh_run (idle fresh_source) (take 5 demo_restart) (demo_state [(Exited, Some 0)] [True] (Some 0) False False)"
    and "refresh_run (demo_state [(Exited, Some 0)] [True] (Some 0) False False) (drop 5 demo_restart)
      (demo_state [(Exited, Some 0), (Exited, Some 1)] [True, True] (Some 1) False False)"
    using demo_round [of "[]" "[]" None, where 'e = unit] demo_round [of "[True]" "[(Exited, Some 0)]" "Some 0", where 'e = unit]
    unfolding demo_idle by simp_all
  from refresh_run_append [OF this(2,1)] show ?thesis by simp
qed

theorem ntp_Stop_final_witness:
  "\<exists>t. refresh_run (idle fresh_source) demo_restart t \<and> {l \<in> set (loops t). status l \<noteq> Exited} = {}"
proof -
  have run: "refresh_run (idle fresh_source) (butlast demo_restart @ [StopReturn])
      (demo_state [(Exited, Some 0), (Exited, Some 1)] [True, True] (Some 1) False False)"
    using demo_run_restart by simp
  have "in_turn False (butlast demo_restart)" by (simp add: starts_def)
  from ntp_Stop_final [OF run this run_Nil] run show ?thesis by auto
qed

section \<open>Panics\<close>

text \<open>Used in turn and with a positive interval no goroutine panics.\<close>

lemma query_keeps_interval: "queryInterval (fst (ntp_query x s)) = queryInterval s"
  by (simp add: ntp_query_def Let_def split: exchange.split)

lemma ntp_in_turn_no_panic:
  assumes "refresh_run s es t" and "s = idle src" and "in_turn False es" and "0 <s queryInterval src"
  shows "\<not> crashed t \<and> queryInterval (source t) = queryInterval src"
  using assms
proof (induction rule: refresh_run.induct)
  case (run_Nil s)
  then show ?case by (simp add: idle_def)
next
  case (run_snoc s es t e u)
  have turn: "in_turn False es" using run_snoc.prems(2) by (simp add: in_turn_snoc)
  note IH = run_snoc.IH [OF run_snoc.prems(1) turn run_snoc.prems(3)]
  note ok = refresh_run_ok [OF run_snoc.hyps(1) run_snoc.prems(1)]
  note own = turn_ok_run [OF run_snoc.hyps(1) run_snoc.prems(1) turn]
  from run_snoc.hyps(2) show ?case
  proof cases
    case (step_begin i)
    then show ?thesis using IH run_snoc.prems(3) by (simp add: loop_begin_def word_sless_alt word_sle_eq)
  next
    case (step_exit i ch)
    then have "ch = i" "i < starts es" using own ok by (auto simp: turn_ok_def refresh_ok_def)
    then have "\<not> closed t ! ch" using turn_ok_closed [OF ok own, of i] step_exit by auto
    then show ?thesis using step_exit IH by (simp add: loop_exit_def Let_def)
  qed (use IH in \<open>auto simp: ntp_Start_def ntp_Stop_def loop_tick_def query_keeps_interval split: option.splits\<close>)
qed

text \<open>
  Calling \<^verbatim>\<open>Start\<close> twice leaks the first loop: \<^verbatim>\<open>Stop\<close> returns while it is still running, and it still
  refreshes the source.
\<close>

lemma ntp_Start_twice_leaks:
  "\<exists>t. refresh_run (idle fresh_source)
     [StartCall 0, LoopBegin 0, StartCall 0, LoopBegin 1, StopCall, LoopExit 1, StopReturn :: unit refresh_event] t \<and>
   \<not> waiting_stop t \<and> status (loops t ! 0) = Running \<and> refresh_step t (LoopTick 0 x) (loop_tick x t)"
proof (intro exI [of _ "demo_state [(Running, Some 0), (Exited, Some 1)] [False, True] (Some 1) False False"] conjI)
  let ?t = "demo_state [(Running, Some 0), (Exited, Some 1)] [False, True] (Some 1) False False"
  have s1: "refresh_step (demo_state [] [] None False False) (StartCall 0 :: unit refresh_event)
      (demo_state [(Running, None)] [False] (Some 0) False False)"
    and s2: "refresh_step (demo_state [(Running, None)] [False] (Some 0) False False) (LoopBegin 0 :: unit refresh_event)
      (demo_state [(Running, Some 0)] [False] (Some 0) False False)"
    and s3: "refresh_step (demo_state [(Running, Some 0)] [False] (Some 0) False False) (StartCall 0 :: unit refresh_event)
      (demo_state [(Running, Some 0), (Running, None)] [False, False] (Some 1) False False)"
    and s4: "refresh_step (demo_state [(Running, Some 0), (Running, None)] [False, False] (Some 1) False False)
      (LoopBegin 1 :: unit refresh_event)
      (demo_state [(Running, Some 0), (Running, Some 1)] [False, False] (Some 1) False False)"
    and s5: "refresh_step (demo_state [(Running, Some 0), (Running, Some 1)] [False, False] (Some 1) False False)
      (StopCall :: unit refresh_event)
      (demo_state [(Running, Some 0), (Cancelled, Some 1)] [False, False] (Some 1) True False)"
    and s6: "refresh_step (demo_state [(Running, Some 0), (Cancelled, Some 1)] [False, False] (Some 1) True False)
      (LoopExit 1 :: unit refresh_event)
      (demo_state [(Running, Some 0), (Exited, Some 1)] [False, True] (Some 1) True False)"
    and s7: "refresh_step (demo_state [(Running, Some 0), (Exited, Some 1)] [False, True] (Some 1) True False)
      (StopReturn :: unit refresh_event) ?t"
    using demo_start [of "[]" "[]" None] demo_begin [of 0 "[(Running, None)]" Running "[False]" "Some 0"]
      demo_start [of "[(Running, Some 0)]" "[False]" "Some 0"]
      demo_begin [of 1 "[(Running, Some 0), (Running, None)]" Running "[False, False]" "Some 1"]
      demo_stop [of 1 "[(Running, Some 0), (Running, Some 1)]" "Some 1" "[False, False]"]
      demo_exit [of 1 "[(Running, Some 0), (Cancelled, Some 1)]" 1 "[False, False]" "Some 1" True]
      demo_return [of "[False, True]" 1]
    by simp_all
  show "refresh_run (idle fresh_source)
     [StartCall 0, LoopBegin 0, StartCall 0, LoopBegin 1, StopCall, LoopExit 1, StopReturn :: unit refresh_event] ?t"
    unfolding demo_idle
    by (rule run_step [OF s1], rule run_step [OF s2], rule run_step [OF s3], rule run_step [OF s4], rule run_step [OF s5], rule run_step [OF s6], rule run_step [OF s7], rule run_Nil)
  show "\<not> waiting_stop ?t" "status (loops ?t ! 0) = Running" by (simp_all add: demo_state_def)
  show "refresh_step ?t (LoopTick 0 x) (loop_tick x ?t)"
    by (rule step_tick [where ch = 0]) (simp_all add: demo_state_def)
qed

text \<open>
  Two calls of \<^verbatim>\<open>Start\<close> in quick succession can end the process: if the first goroutine begins only after
  the second call, both loops close the second channel when the context is cancelled.
\<close>

lemma ntp_Start_twice_panics:
  "\<exists>t. refresh_run (idle fresh_source)
     [StartCall 0, StartCall 0, LoopBegin 0, LoopBegin 1, ParentDone 0, LoopExit 0, LoopExit 1 :: unit refresh_event] t \<and>
   crashed t"
proof (intro exI [of _ "demo_state [(Exited, Some 1), (Exited, Some 1)] [False, True] (Some 1) False True"] conjI)
  let ?t = "demo_state [(Exited, Some 1), (Exited, Some 1)] [False, True] (Some 1) False True"
  have s1: "refresh_step (demo_state [] [] None False False) (StartCall 0 :: unit refresh_event)
      (demo_state [(Running, None)] [False] (Some 0) False False)"
    and s2: "refresh_step (demo_state [(Running, None)] [False] (Some 0) False False) (StartCall 0 :: unit refresh_event)
      (demo_state [(Running, None), (Running, None)] [False, False] (Some 1) False False)"
    and s3: "refresh_step (demo_state [(Running, None), (Running, None)] [False, False] (Some 1) False False)
      (LoopBegin 0 :: unit refresh_event)
      (demo_state [(Running, Some 1), (Running, None)] [False, False] (Some 1) False False)"
    and s4: "refresh_step (demo_state [(Running, Some 1), (Running, None)] [False, False] (Some 1) False False)
      (LoopBegin 1 :: unit refresh_event)
      (demo_state [(Running, Some 1), (Running, Some 1)] [False, False] (Some 1) False False)"
    and s5: "refresh_step (demo_state [(Cancelled, Some 1), (Cancelled, Some 1)] [False, False] (Some 1) False False)
      (LoopExit 0 :: unit refresh_event)
      (demo_state [(Exited, Some 1), (Cancelled, Some 1)] [False, True] (Some 1) False False)"
    and s6: "refresh_step (demo_state [(Exited, Some 1), (Cancelled, Some 1)] [False, True] (Some 1) False False)
      (LoopExit 1 :: unit refresh_event) ?t"
    using demo_start [of "[]" "[]" None] demo_start [of "[(Running, None)]" "[False]" "Some 0"]
      demo_begin [of 0 "[(Running, None), (Running, None)]" Running "[False, False]" "Some 1"]
      demo_begin [of 1 "[(Running, Some 1), (Running, None)]" Running "[False, False]" "Some 1"]
      demo_exit [of 0 "[(Cancelled, Some 1), (Cancelled, Some 1)]" 1 "[False, False]" "Some 1" False]
      demo_exit [of 1 "[(Exited, Some 1), (Cancelled, Some 1)]" 1 "[False, True]" "Some 1" False]
    by simp_all
  show "refresh_run (idle fresh_source)
     [StartCall 0, StartCall 0, LoopBegin 0, LoopBegin 1, ParentDone 0, LoopExit 0, LoopExit 1 :: unit refresh_event] ?t"
    unfolding demo_idle
    by (rule run_step [OF s1], rule run_step [OF s2], rule run_step [OF s3], rule run_step [OF s4], rule run_step [OF demo_parent], rule run_step [OF s5], rule run_step [OF s6], rule run_Nil)
  show "crashed ?t" by (simp add: demo_state_def)
qed

end
