(* ===== verification/Ntp_Race.thy ===== *)
theory Ntp_Race
  imports Prelude
begin

text \<open>
  \<^verbatim>\<open>NTPSource.Start\<close> and \<^verbatim>\<open>NTPSource.Stop\<close> called by two goroutines on a fresh source, statement by statement.
  The fields \<^verbatim>\<open>cancel\<close> and \<^verbatim>\<open>done\<close> are not guarded by the mutex, so \<^verbatim>\<open>Stop\<close> can see the first written and the
  second not. It then receives from a nil channel, which blocks for ever. (The state machine of \<^verbatim>\<open>Ntp_Loop\<close> has
  one goroutine that makes all these calls.)
\<close>

section \<open>Two calls, statement by statement\<close>

text \<open>\<^verbatim>\<open>s.cancel = cancel\<close>, \<^verbatim>\<open>s.done = make(chan struct{})\<close> and the \<^verbatim>\<open>go\<close> statement come next.\<close>

datatype start_point = SetCancel | SetDone | Launch | Started

text \<open>
  The test \<^verbatim>\<open>s.cancel != nil\<close>, the call \<^verbatim>\<open>s.cancel()\<close> and the operand \<^verbatim>\<open>s.done\<close> come next; then the receive from
  the channel that was read, which is nil (\<open>False\<close>) or made (\<open>True\<close>).
\<close>

datatype stop_point = TestCancel | CallCancel | LoadDone | Receiving bool | Stopped

datatype loop_point = NotLaunched | Looping | Returned

record race =
  cancel_set :: bool
  done_set :: bool
  ctx_done :: bool
  done_closed :: bool
  start_at :: start_point
  stop_at :: stop_point
  loop_at :: loop_point

definition race_start :: race where
  "race_start =
     \<lparr>cancel_set = False, done_set = False, ctx_done = False, done_closed = False,
      start_at = SetCancel, stop_at = TestCancel, loop_at = NotLaunched\<rparr>"

text \<open>The next statement of each goroutine; \<open>None\<close> if there is none or it blocks.\<close>

definition start_stmt :: "race \<Rightarrow> race option" where
  "start_stmt s =
     (case start_at s of
        SetCancel \<Rightarrow> Some (s\<lparr>cancel_set := True, start_at := SetDone\<rparr>)
      | SetDone \<Rightarrow> Some (s\<lparr>done_set := True, start_at := Launch\<rparr>)
      | Launch \<Rightarrow> Some (s\<lparr>loop_at := Looping, start_at := Started\<rparr>)
      | Started \<Rightarrow> None)"

definition stop_stmt :: "race \<Rightarrow> race option" where
  "stop_stmt s =
     (case stop_at s of
        TestCancel \<Rightarrow> Some (s\<lparr>stop_at := if cancel_set s then CallCancel else Stopped\<rparr>)
      | CallCancel \<Rightarrow> Some (s\<lparr>ctx_done := True, stop_at := LoadDone\<rparr>)
      | LoadDone \<Rightarrow> Some (s\<lparr>stop_at := Receiving (done_set s)\<rparr>)
      | Receiving made \<Rightarrow> if made \<and> done_closed s then Some (s\<lparr>stop_at := Stopped\<rparr>) else None
      | Stopped \<Rightarrow> None)"

text \<open>The loop sees its context done, returns and closes the channel.\<close>

definition loop_stmt :: "race \<Rightarrow> race option" where
  "loop_stmt s =
     (case loop_at s of
        Looping \<Rightarrow> if ctx_done s then Some (s\<lparr>done_closed := True, loop_at := Returned\<rparr>) else None
      | _ \<Rightarrow> None)"

definition race_stmts :: "(race \<Rightarrow> race option) list" where
  "race_stmts = [start_stmt, stop_stmt, loop_stmt]"

inductive race_run :: "race \<Rightarrow> race \<Rightarrow> bool" where
  race_refl: "race_run s s"
| race_next: "race_run s t \<Longrightarrow> f \<in> set race_stmts \<Longrightarrow> f t = Some u \<Longrightarrow> race_run s u"

text \<open>A schedule names the goroutine that runs next: 0 for \<^verbatim>\<open>Start\<close>, 1 for \<^verbatim>\<open>Stop\<close>, 2 for the loop.\<close>

fun race_schedule :: "nat list \<Rightarrow> race \<Rightarrow> race option" where
  "race_schedule [] s = Some s"
| "race_schedule (i # is) s = Option.bind ((race_stmts ! i) s) (race_schedule is)"

lemma race_run_trans: "race_run t u \<Longrightarrow> race_run s t \<Longrightarrow> race_run s u"
  by (induction rule: race_run.induct) (auto intro: race_next)

lemma race_schedule_run:
  "race_schedule is s = Some t \<Longrightarrow> list_all (\<lambda>i. i < 3) is \<Longrightarrow> race_run s t"
proof (induction "is" arbitrary: s)
  case (Cons i "is")
  then obtain u where u: "(race_stmts ! i) s = Some u" "race_schedule is u = Some t"
    by (auto simp: bind_eq_Some_conv)
  moreover have "race_stmts ! i \<in> set race_stmts"
    using Cons.prems(2) by (intro nth_mem) (simp add: race_stmts_def)
  ultimately have "race_run s u" using race_next [OF race_refl] by blast
  then show ?case using Cons u by (auto intro: race_run_trans)
qed (auto intro: race_refl)

section \<open>What can happen\<close>

text \<open>Having read the nil channel, \<^verbatim>\<open>Stop\<close> never returns, whatever the others do.\<close>

lemma nil_receive_stuck: "race_run s t \<Longrightarrow> stop_at s = Receiving False \<Longrightarrow> stop_at t = Receiving False"
proof (induction rule: race_run.induct)
  case (race_next s t f u)
  then have t: "stop_at t = Receiving False" by simp
  from race_next(2) consider "f = start_stmt" | "f = stop_stmt" | "f = loop_stmt" by (auto simp: race_stmts_def)
  then show ?case
  proof cases
    case 1
    then show ?thesis using race_next(3) t by (cases "start_at t") (auto simp: start_stmt_def)
  next
    case 2
    then show ?thesis using race_next(3) t by (simp add: stop_stmt_def)
  next
    case 3
    then show ?thesis using race_next(3) t by (cases "loop_at t") (auto simp: loop_stmt_def split: if_splits)
  qed
qed

lemma Start_Stop_race:
  "\<exists>s. race_run race_start s \<and> (\<forall>t. race_run s t \<longrightarrow> stop_at t = Receiving False)"
proof -
  have "race_schedule [0, 1, 1, 1] race_start = Some (race_start\<lparr>cancel_set := True, start_at := SetDone,
      ctx_done := True, stop_at := Receiving False\<rparr>)"
    by (simp add: race_stmts_def start_stmt_def stop_stmt_def race_start_def)
  then have "race_run race_start (race_start\<lparr>cancel_set := True, start_at := SetDone,
      ctx_done := True, stop_at := Receiving False\<rparr>)"
    by (rule race_schedule_run) simp
  then show ?thesis using nil_receive_stuck by fastforce
qed

text \<open>
  That is the only way to hang: where \<^verbatim>\<open>Stop\<close> is not receiving from the nil channel and has not returned, some
  goroutine can go on, and no goroutine goes on for ever.
\<close>

definition race_inv :: "race \<Rightarrow> bool" where
  "race_inv s \<longleftrightarrow>
     (cancel_set s \<longleftrightarrow> start_at s \<noteq> SetCancel) \<and>
     (done_set s \<longleftrightarrow> start_at s \<in> {Launch, Started}) \<and>
     (loop_at s = NotLaunched \<longleftrightarrow> start_at s \<noteq> Started) \<and>
     (done_closed s \<longleftrightarrow> loop_at s = Returned) \<and>
     (stop_at s = Receiving True \<longrightarrow> done_set s \<and> ctx_done s) \<and>
     (stop_at s = LoadDone \<longrightarrow> ctx_done s)"

lemma stmt_inv:
  assumes "race_inv s"
  shows "case_option True race_inv (start_stmt s)" and "case_option True race_inv (stop_stmt s)"
    and "case_option True race_inv (loop_stmt s)"
proof -
  show "case_option True race_inv (start_stmt s)"
    using assms by (cases "start_at s"; simp add: race_inv_def start_stmt_def; blast)
  show "case_option True race_inv (stop_stmt s)"
    using assms by (cases "stop_at s"; cases "cancel_set s"; simp add: race_inv_def stop_stmt_def; force)
  show "case_option True race_inv (loop_stmt s)"
    using assms by (cases "loop_at s"; simp add: race_inv_def loop_stmt_def)
qed

lemma race_run_inv: "race_run race_start s \<Longrightarrow> race_inv s"
proof (induction race_start s rule: race_run.induct)
  case race_refl
  show ?case by (simp add: race_inv_def race_start_def)
next
  case (race_next t f u)
  then consider "f = start_stmt" | "f = stop_stmt" | "f = loop_stmt" by (auto simp: race_stmts_def)
  then show ?case
  proof cases
    case 1
    then show ?thesis using race_next stmt_inv(1) [of t] by simp
  next
    case 2
    then show ?thesis using race_next stmt_inv(2) [of t] by simp
  next
    case 3
    then show ?thesis using race_next stmt_inv(3) [of t] by simp
  qed
qed

lemma Stop_progress:
  assumes "race_run race_start s" "stop_at s \<noteq> Stopped" "stop_at s \<noteq> Receiving False"
  shows "\<exists>f \<in> set race_stmts. f s \<noteq> None"
proof (cases "stop_at s")
  case (Receiving made)
  then have made: "made" and "done_set s" "ctx_done s"
    using race_run_inv [OF assms(1)] assms(3) by (auto simp: race_inv_def)
  then consider "start_at s = Launch" | "loop_at s = Looping" | "done_closed s"
    using race_run_inv [OF assms(1)] by (cases "loop_at s") (auto simp: race_inv_def)
  then show ?thesis
  proof cases
    case 1
    then show ?thesis by (simp add: race_stmts_def start_stmt_def)
  next
    case 2
    then show ?thesis using \<open>ctx_done s\<close> by (simp add: race_stmts_def loop_stmt_def)
  next
    case 3
    then show ?thesis using made Receiving by (simp add: race_stmts_def stop_stmt_def)
  qed
qed (use assms in \<open>auto simp: race_stmts_def stop_stmt_def\<close>)

fun start_rank :: "start_point \<Rightarrow> nat" where
  "start_rank SetCancel = 3" | "start_rank SetDone = 2" | "start_rank Launch = 1" | "start_rank Started = 0"

fun stop_rank :: "stop_point \<Rightarrow> nat" where
  "stop_rank TestCancel = 4" | "stop_rank CallCancel = 3" | "stop_rank LoadDone = 2"
| "stop_rank (Receiving m) = 1" | "stop_rank Stopped = 0"

fun loop_rank :: "loop_point \<Rightarrow> nat" where
  "loop_rank NotLaunched = 2" | "loop_rank Looping = 1" | "loop_rank Returned = 0"

definition rank :: "race \<Rightarrow> nat" where
  "rank s = start_rank (start_at s) + stop_rank (stop_at s) + loop_rank (loop_at s)"

lemma race_terminates:
  assumes "f \<in> set race_stmts" "race_inv s" "f s = Some t"
  shows "rank t < rank s"
proof -
  consider "f = start_stmt" | "f = stop_stmt" | "f = loop_stmt" using assms(1) by (auto simp: race_stmts_def)
  then show ?thesis
  proof cases
    case 1
    then show ?thesis using assms
      by (cases "start_at s"; cases "loop_at s") (auto simp: rank_def start_stmt_def race_inv_def)
  next
    case 2
    then show ?thesis using assms
      by (cases "stop_at s") (auto simp: rank_def stop_stmt_def split: if_splits)
  next
    case 3
    then show ?thesis using assms
      by (cases "loop_at s") (auto simp: rank_def loop_stmt_def split: if_splits)
  qed
qed

end
