(* ===== verification/Ntp_Truetime.thy ===== *)
theory Ntp_Truetime
  imports Ntp
begin

text \<open>
  \<^verbatim>\<open>truetime.Clock\<close> over its \<^verbatim>\<open>UncertaintySource\<close>, and what it promises on top of the NTP source: the assumptions
  on the network and on the local clock that make the source's intervals sound carry over to the predicates
  of the clock and to commit wait.
\<close>

section \<open>The clock and its source\<close>

text \<open>The two implementations of the interface; \<open>now\<close> is what \<^verbatim>\<open>time.Now()\<close> returns to the NTP source.\<close>

datatype uncertainty_source = Fake_Source fake_source | NTP_Source ntp_source

fun source_Now :: "gotime \<Rightarrow> uncertainty_source \<Rightarrow> interval" where
  "source_Now now (Fake_Source f) = fake_source_Now f"
| "source_Now now (NTP_Source s) = ntp_Now now s"

record tt_clock =
  tt_source :: uncertainty_source

definition truetime_New :: "uncertainty_source \<Rightarrow> tt_clock" where
  "truetime_New source = \<lparr>tt_source = source\<rparr>"

definition clock_Now :: "gotime \<Rightarrow> tt_clock \<Rightarrow> interval" where
  "clock_Now now c = source_Now now (tt_source c)"

definition clock_After :: "gotime \<Rightarrow> tt_clock \<Rightarrow> gotime \<Rightarrow> bool" where
  "clock_After now c t = time_After (Earliest (source_Now now (tt_source c))) t"

definition clock_Before :: "gotime \<Rightarrow> tt_clock \<Rightarrow> gotime \<Rightarrow> bool" where
  "clock_Before now c t = time_Before (Latest (source_Now now (tt_source c))) t"

text \<open>They are the methods over the reading of the source.\<close>

lemma clock_methods:
  "clock_Now now c = tt_Now (source_Now now (tt_source c))"
  "clock_After now c t = tt_After (source_Now now (tt_source c)) t"
  "clock_Before now c t = tt_Before (source_Now now (tt_source c)) t"
  by (simp_all add: clock_Now_def clock_After_def clock_Before_def tt_Now_def tt_After_def tt_Before_def)

section \<open>Sound readings\<close>

text \<open>
  \<open>ntp_holds s now real\<close>: the last successful exchange left the source in state \<open>s\<close>; the server's clock was right,
  both ways of the exchange took the (unknown) times \<open>d1\<close> and \<open>d2\<close>, the local clock was \<open>\<theta>\<close> behind when the reply came and
  has drifted by \<open>\<delta>\<close> since, within the allowance of 200ppm, until it read \<open>now\<close> at the true time \<open>real\<close>.
\<close>

definition ntp_holds :: "ntp_source \<Rightarrow> gotime \<Rightarrow> int \<Rightarrow> bool" where
  "ntp_holds s now real \<longleftrightarrow> (\<exists>t1 data t4 s0 \<theta> d1 d2 \<delta>.
     ntp_query (Reply t1 data t4 :: unit exchange) s0 = (s, None) \<and>
     wall_ns (ntpTimeFromBytes (go_slice (read_48 data) 32 40)) = wall_ns t1 + \<theta> + d1 \<and>
     wall_ns (ntpTimeFromBytes (go_slice (read_48 data) 40 48)) = wall_ns t4 + \<theta> - d2 \<and>
     0 \<le> d1 \<and> 0 \<le> d2 \<and> \<bar>\<theta>\<bar> < 2 ^ 59 \<and> d1 < 2 ^ 59 \<and> d2 < 2 ^ 59 \<and>
     \<bar>wall_ns t4 - wall_ns t1\<bar> < 2 ^ 61 \<and> time_Sub t4 t1 = saturate (wall_ns t4 - wall_ns t1) \<and>
     (be_get (go_slice (read_48 data) 8 12) :: u32) \<noteq> 0 \<and>
     0 \<le> sint (time_Sub now t4) \<and> sint (time_Sub now t4) < 2 ^ 55 \<and>
     \<bar>\<delta>\<bar> * 1000000 \<le> sint (time_Sub now t4) * 200 \<and> real = wall_ns now + \<theta> + \<delta>)"

lemma ntp_holds_sound:
  assumes "ntp_holds s now real"
  shows "wall_ns (Earliest (ntp_Now now s)) \<le> real \<and> real \<le> wall_ns (Latest (ntp_Now now s))"
proof -
  from assms obtain t1 t4 s0 \<theta> d1 d2 \<delta> and data :: "byte list" where
    q: "ntp_query (Reply t1 data t4 :: unit exchange) s0 = (s, None)"
      "wall_ns (ntpTimeFromBytes (go_slice (read_48 data) 32 40)) = wall_ns t1 + \<theta> + d1"
      "wall_ns (ntpTimeFromBytes (go_slice (read_48 data) 40 48)) = wall_ns t4 + \<theta> - d2"
      "0 \<le> d1" "0 \<le> d2" "\<bar>\<theta>\<bar> < 2 ^ 59" "d1 < 2 ^ 59" "d2 < 2 ^ 59"
      "\<bar>wall_ns t4 - wall_ns t1\<bar> < 2 ^ 61" "time_Sub t4 t1 = saturate (wall_ns t4 - wall_ns t1)"
      "(be_get (go_slice (read_48 data) 8 12) :: u32) \<noteq> 0"
      "0 \<le> sint (time_Sub now t4)" "sint (time_Sub now t4) < 2 ^ 55"
      "\<bar>\<delta>\<bar> * 1000000 \<le> sint (time_Sub now t4) * 200"
    and real: "real = wall_ns now + \<theta> + \<delta>"
    unfolding ntp_holds_def by blast
  from ntp_reading_brackets [OF q] show ?thesis unfolding real by blast
qed

text \<open>
  \<open>steady C t\<close>: the wall clock and the monotonic clock in \<open>t\<close> differ by \<open>C\<close>, so the local clock was not stepped between
  such times. Adding a duration keeps that unless the addition drops the monotonic reading.
\<close>

definition steady :: "int \<Rightarrow> gotime \<Rightarrow> bool" where
  "steady C t \<longleftrightarrow> mono_ns t = Some (wall_ns t - C)"

lemma steady_Add: "steady C t \<Longrightarrow> mono_ns (time_Add t d) \<noteq> None \<Longrightarrow> steady C (time_Add t d)"
  by (auto simp: steady_def time_Add_def Let_def split: if_splits)

lemma mono_Add: "mono_ns (time_Add t d) \<noteq> None \<Longrightarrow> mono_ns t \<noteq> None"
  by (auto simp: time_Add_def Let_def split: option.splits)

definition ntp_reading :: "int \<Rightarrow> ntp_source \<Rightarrow> gotime \<Rightarrow> int \<Rightarrow> bool" where
  "ntp_reading C s now real \<longleftrightarrow> ntp_holds s now real \<and> steady C now \<and>
     mono_ns (Earliest (ntp_Now now s)) \<noteq> None \<and> mono_ns (Latest (ntp_Now now s)) \<noteq> None"

lemma ntp_reading_scale:
  assumes "ntp_reading C s now real"
  shows "mono_ns (Earliest (ntp_Now now s)) = Some (wall_ns (Earliest (ntp_Now now s)) - C) \<and>
    mono_ns (Latest (ntp_Now now s)) = Some (wall_ns (Latest (ntp_Now now s)) - C)"
proof -
  obtain mid un where i: "ntp_Now now s = \<lparr>Earliest = time_Add mid (- un), Latest = time_Add mid un\<rparr>"
    and mid: "mid = time_Add now (lastOffset s)"
    by (rule that [OF _ refl], unfold ntp_Now_def Let_def, rule refl)
  have "mono_ns (time_Add mid (- un)) \<noteq> None" "mono_ns (time_Add mid un) \<noteq> None" "steady C now"
    using assms i by (simp_all add: ntp_reading_def)
  moreover from this have "steady C mid" unfolding mid using mono_Add [of mid un] mid steady_Add by blast
  ultimately show ?thesis using steady_Add unfolding i by (simp add: steady_def)
qed

section \<open>Properties\<close>

text \<open>
  What the clock is certain of is true. When the NTP source's assumptions hold, \<^verbatim>\<open>After(t)\<close> means that the
  true time is past \<open>t\<close> and \<^verbatim>\<open>Before(t)\<close> that it has not reached \<open>t\<close>, for any time \<open>t\<close> without a monotonic
  reading (one that was received or parsed); the two are never both true.
\<close>

lemma clock_certain:
  assumes "ntp_holds s now real" and "mono_ns t = None"
  defines "c \<equiv> truetime_New (NTP_Source s)"
  shows "(clock_After now c t \<longrightarrow> wall_ns t < real) \<and> (clock_Before now c t \<longrightarrow> real < wall_ns t) \<and>
    \<not> (clock_After now c t \<and> clock_Before now c t)"
  using ntp_holds_sound [OF assms(1)] assms(2)
  by (auto simp: c_def truetime_New_def clock_After_def clock_Before_def time_After_def time_Before_def
      split: option.splits)

text \<open>
  C15. External consistency on top of NTP. Two transactions use clocks over NTP sources on one machine whose local
  clock is not stepped. If all readings satisfy the assumptions on the network and the drift, the first
  transaction's \<^verbatim>\<open>WithCommitWait\<close> returned nil, and the second takes its commit time from a reading at a true
  time no earlier than the last reading of the wait, then true time has passed the first commit time, and
  the second commit time is strictly later.
\<close>

theorem ntp_external_consistency:
  fixes st :: "nat \<Rightarrow> ntp_source" and now :: "nat \<Rightarrow> gotime"
  assumes "WithCommitWait (\<lambda>k. clock_Now (now k) (truetime_New (NTP_Source (st k)))) done None = Some r"
    and "cw_err r = None"
    and first: "\<forall>k. ntp_reading C (st k) (now k) (real k)" and second: "ntp_reading C st' now' real'"
    and "real (cw_readings r - 1) \<le> real'"
  defines "commit1 \<equiv> Latest (clock_Now (now 0) (truetime_New (NTP_Source (st 0))))"
    and "commit2 \<equiv> Latest (clock_Now now' (truetime_New (NTP_Source st')))"
  shows "wall_ns commit1 < real (cw_readings r - 1) \<and> time_Before commit1 commit2"
proof -
  let ?R = "\<lambda>k. ntp_Now (now k) (st k)" and ?u = "ntp_Now now' st'" and ?key = "\<lambda>t. wall_ns t - C"
  have R: "clock_Now n (truetime_New (NTP_Source s)) = ntp_Now n s" for n s
    by (simp add: clock_Now_def truetime_New_def)
  have sound: "?key (Earliest (?R k)) \<le> real k - C" for k
    using first ntp_holds_sound by (fastforce simp: ntp_reading_def)
  have later: "real' - C \<le> ?key (Latest ?u)"
    using second ntp_holds_sound by (fastforce simp: ntp_reading_def)
  have "mono_ns (Earliest (?R k)) = Some (?key (Earliest (?R k))) \<and> mono_ns (Latest (?R k)) = Some (?key (Latest (?R k)))" for k
    using first ntp_reading_scale by blast
  moreover have "mono_ns (Latest ?u) = Some (?key (Latest ?u))" using second ntp_reading_scale by blast
  ultimately have scale: "on_scale ?key ({Latest ?u} \<union> range (\<lambda>k. Earliest (?R k)) \<union> range (\<lambda>k. Latest (?R k)))"
    unfolding on_scale_def by blast
  have "real (cw_readings r - 1) - C \<le> ?key (Latest ?u)" using assms(5) later by simp
  note order = commit_wait_orders [OF assms(1,2) [unfolded R] scale sound this]
  show ?thesis using order by (simp add: commit1_def commit2_def R)
qed

text \<open>
  A server that answers in the second 1, 10ns after the request and 20ns before the reply arrives, and readings every
  100us after that.
\<close>

definition mono_wall :: "int \<Rightarrow> gotime" where
  "mono_wall w = \<lparr>wall_ns = w, mono_ns = Some w\<rparr>"

lemma mono_wall_sel [simp]: "wall_ns (mono_wall w) = w" "mono_ns (mono_wall w) = Some w"
  by (simp_all add: mono_wall_def)

definition queried_source :: ntp_source where
  "queried_source = \<lparr>server = ''time'', queryInterval = Second, lastOffset = - 5, lastDispersion = 15273,
     lastQuery = mono_wall 1000000020\<rparr>"

definition later_now :: "nat \<Rightarrow> gotime" where
  "later_now k = mono_wall (1000000020 + 100000 * int (min k 3))"

lemma queried_source_query:
  defines "b \<equiv> [131, 170, 126, 129, 0, 0, 0, 0] :: byte list"
  shows "ntp_query (Reply (mono_wall 999999990) (reply_bytes [0, 0, 0, 1] b b) (mono_wall 1000000020) :: unit exchange)
    fresh_source = (queried_source, None)"
proof -
  have sl: "go_slice (read_48 (reply_bytes [0, 0, 0, 1] b b)) 8 12 = [0, 0, 0, 1]"
    "go_slice (read_48 (reply_bytes [0, 0, 0, 1] b b)) 32 40 = b" "go_slice (read_48 (reply_bytes [0, 0, 0, 1] b b)) 40 48 = b"
    by (rule reply_slices; simp add: b_def)+
  have t: "ntpTimeFromBytes b = wall 1000000000" unfolding b_def by (rule ntpTime_second)
  have d: "ntp_rootDisp (read_48 (reply_bytes [0, 0, 0, 1] b b)) = 15258"
    by (simp add: ntp_rootDisp_def sl be_get_def Second_def i64_div_def signed_divide_int_def)
  show ?thesis
    by (simp add: ntp_query_def sl t d Let_def time_Sub_def mono_wall_def wall_def saturate_def fresh_source_def
        queried_source_def i64_div_def signed_divide_int_def)
qed

lemma later_elapsed: "time_Sub (later_now k) (mono_wall 1000000020) = word_of_int (100000 * int (min k 3))"
  by (simp add: time_Sub_def later_now_def mono_wall_def saturate_def) (simp add: min_def)

lemma later_cases: "later_now k \<in> {mono_wall 1000000020, mono_wall 1000100020, mono_wall 1000200020, mono_wall 1000300020}"
proof -
  have "min k 3 = 0 \<or> min k 3 = 1 \<or> min k 3 = 2 \<or> min k 3 = (3::nat)" by linarith
  then show ?thesis by (auto simp: later_now_def)
qed

text \<open>The intervals at the four instants.\<close>

lemma queried_intervals:
  "ntp_Now (mono_wall 1000000020) queried_source = \<lparr>Earliest = mono_wall 999984742, Latest = mono_wall 1000015288\<rparr>"
  "ntp_Now (mono_wall 1000100020) queried_source = \<lparr>Earliest = mono_wall 1000084722, Latest = mono_wall 1000115308\<rparr>"
  "ntp_Now (mono_wall 1000200020) queried_source = \<lparr>Earliest = mono_wall 1000184702, Latest = mono_wall 1000215328\<rparr>"
  "ntp_Now (mono_wall 1000300020) queried_source = \<lparr>Earliest = mono_wall 1000284682, Latest = mono_wall 1000315348\<rparr>"
  by (simp_all add: ntp_Now_def queried_source_def mono_wall_def time_Sub_def time_Add_def saturate_def
      i64_div_def signed_divide_int_def driftPPM_def packed_wall_def word_sless_alt Let_def)

lemma later_reading: "ntp_reading 0 queried_source (later_now k) (wall_ns (later_now k))"
proof -
  let ?b = "[131, 170, 126, 129, 0, 0, 0, 0] :: byte list"
  let ?d = "reply_bytes [0, 0, 0, 1] ?b ?b"
  have sl: "go_slice (read_48 ?d) 8 12 = [0, 0, 0, 1]" "go_slice (read_48 ?d) 32 40 = ?b" "go_slice (read_48 ?d) 40 48 = ?b"
    by (rule reply_slices; simp)+
  have el: "0 \<le> sint (time_Sub (later_now k) (mono_wall 1000000020))"
    "sint (time_Sub (later_now k) (mono_wall 1000000020)) < 2 ^ 55"
    using later_cases [of k] by (auto simp: time_Sub_def saturate_def)
  have "ntp_holds queried_source (later_now k) (wall_ns (later_now k))"
    unfolding ntp_holds_def
    by (rule exI [of _ "mono_wall 999999990"], rule exI [of _ ?d], rule exI [of _ "mono_wall 1000000020"],
        rule exI [of _ fresh_source], rule exI [of _ 0], rule exI [of _ 10], rule exI [of _ 20], rule exI [of _ 0])
       (use el in \<open>simp add: queried_source_query sl ntpTime_second, simp add: wall_def time_Sub_def
          saturate_def be_get_def\<close>)
  moreover have "steady 0 (later_now k)" by (simp add: steady_def later_now_def mono_wall_def)
  moreover have "mono_ns (Earliest (ntp_Now (later_now k) queried_source)) \<noteq> None \<and>
      mono_ns (Latest (ntp_Now (later_now k) queried_source)) \<noteq> None"
    using later_cases [of k] by (auto simp: queried_intervals)
  ultimately show ?thesis by (simp add: ntp_reading_def)
qed

theorem ntp_external_consistency_witness:
  "\<exists>r. WithCommitWait (\<lambda>k. clock_Now (later_now k) (truetime_New (NTP_Source queried_source)))
      (\<lambda>_. None :: unit option) None = Some r \<and> cw_err r = None \<and>
    time_Before (Latest (clock_Now (later_now 0) (truetime_New (NTP_Source queried_source))))
      (Latest (clock_Now (mono_wall 1000300020) (truetime_New (NTP_Source queried_source))))"
proof -
  let ?R = "\<lambda>k. clock_Now (later_now k) (truetime_New (NTP_Source queried_source))"
  have R: "?R k = ntp_Now (later_now k) queried_source" for k by (simp add: clock_Now_def truetime_New_def)
  have l: "later_now 0 = mono_wall 1000000020" "later_now 1 = mono_wall 1000100020" "later_now (Suc 0) = mono_wall 1000100020"
    "later_now 3 = mono_wall 1000300020"
    by (simp_all add: later_now_def)
  have w: "WithCommitWait ?R (\<lambda>_. None :: unit option) None = Some \<lparr>cw_err = None, cw_readings = 2, cw_waits = []\<rparr>"
    by (simp add: WithCommitWait_def CommitWait_def R l queried_intervals tt_Now_def tt_After_def time_After_def Let_def)
  have first: "\<forall>k. ntp_reading 0 queried_source (later_now k) (wall_ns (later_now k))" using later_reading by blast
  have second: "ntp_reading 0 queried_source (mono_wall 1000300020) 1000300020"
    using later_reading [of 3] by (simp add: l)
  from ntp_external_consistency [OF w _ first second] w show ?thesis by (simp add: l)
qed

end
