(* ===== verification/Messaging.thy ===== *)
theory Messaging
  imports Lamport "HOL-Library.Multiset" "HOL-Library.Product_Lexorder"
begin

text \<open>
  The program \<^verbatim>\<open>examples/lamport_messaging/main.go\<close>: two goroutines with a Lamport clock each, two buffered
  channels, and a slice of events guarded by a mutex. A state holds the program counters, the clocks, the
  message each goroutine holds, the channels and the slice; a step is one action of one goroutine on what they
  share, and takes the operations on its own clock with it. Sending on a full channel and receiving from
  an empty one are not possible. The schedule is arbitrary; the list that is printed does not depend on it.
\<close>

section \<open>The program\<close>

record message =
  msg_from :: string
  msg_text :: string
  msg_stamp :: u64

record log_event =
  ev_process :: string
  ev_kind :: string
  ev_detail :: string
  ev_stamp :: u64

record msg_state =
  pcA :: nat
  pcB :: nat
  clockA :: lamport
  clockB :: lamport
  heldA :: u64
  heldB :: u64
  textA :: string
  textB :: string
  aToB :: "message list"
  bToA :: "message list"
  events :: "log_event list"

definition msg_init :: msg_state where
  "msg_init = \<lparr>pcA = 0, pcB = 0, clockA = lamport_New, clockB = lamport_New, heldA = 0, heldB = 0,
     textA = [], textB = [],
     aToB = [], bToA = [], events = []\<rparr>"

definition log_as :: "string \<Rightarrow> string \<Rightarrow> string \<Rightarrow> u64 \<Rightarrow> msg_state \<Rightarrow> msg_state" where
  "log_as p kind detail t s =
     s\<lparr>events := events s @ [\<lparr>ev_process = p, ev_kind = kind, ev_detail = detail, ev_stamp = t\<rparr>]\<rparr>"

text \<open>Text in double quotes, as the source writes it and as \<^verbatim>\<open>%q\<close> prints plain letters.\<close>

definition quoted :: "string \<Rightarrow> string" where
  "quoted s = [CHR 0x22] @ s @ [CHR 0x22]"

text \<open>The actions of process A, in program order; \<open>heldA\<close> is its local variable \<^verbatim>\<open>s\<close>, then
  \<^verbatim>\<open>ts\<close>, and \<open>textA\<close> the text of the message it received.\<close>

inductive step_A :: "msg_state \<Rightarrow> msg_state \<Rightarrow> bool" where
  A_tick1: "pcA s = 0 \<Longrightarrow> lamport_Tick (clockA s) = (c, t) \<Longrightarrow>
    step_A s (log_as ''A'' ''tick'' ''loading config'' t (s\<lparr>clockA := c, pcA := 1\<rparr>))"
| A_tick2: "pcA s = 1 \<Longrightarrow> lamport_Tick (clockA s) = (c, t) \<Longrightarrow>
    step_A s (log_as ''A'' ''tick'' ''init complete'' t (s\<lparr>clockA := c, pcA := 2\<rparr>))"
| A_send: "pcA s = 2 \<Longrightarrow> length (aToB s) < 1 \<Longrightarrow> lamport_Send (clockA s) = (c, t) \<Longrightarrow>
    step_A s (s\<lparr>clockA := c, heldA := t, pcA := 3,
      aToB := aToB s @ [\<lparr>msg_from = ''A'', msg_text = ''hello'', msg_stamp = t\<rparr>]\<rparr>)"
| A_sent: "pcA s = 3 \<Longrightarrow>
    step_A s (log_as ''A'' ''send'' (quoted ''hello'' @ '' to B'') (heldA s) (s\<lparr>pcA := 4\<rparr>))"
| A_recv: "pcA s = 4 \<Longrightarrow> bToA s = m # ms \<Longrightarrow> lamport_Receive (msg_stamp m) (clockA s) = (c, t) \<Longrightarrow>
    step_A s (s\<lparr>clockA := c, heldA := t, textA := msg_text m, pcA := 5, bToA := ms\<rparr>)"
| A_received: "pcA s = 5 \<Longrightarrow>
    step_A s (log_as ''A'' ''recv'' (quoted (textA s) @ '' from B'') (heldA s) (s\<lparr>pcA := 6\<rparr>))"
| A_tick3: "pcA s = 6 \<Longrightarrow> lamport_Tick (clockA s) = (c, t) \<Longrightarrow>
    step_A s (log_as ''A'' ''tick'' ''shutting down'' t (s\<lparr>clockA := c, pcA := 7\<rparr>))"

inductive step_B :: "msg_state \<Rightarrow> msg_state \<Rightarrow> bool" where
  B_tick: "pcB s = 0 \<Longrightarrow> lamport_Tick (clockB s) = (c, t) \<Longrightarrow>
    step_B s (log_as ''B'' ''tick'' ''warming up'' t (s\<lparr>clockB := c, pcB := 1\<rparr>))"
| B_recv: "pcB s = 1 \<Longrightarrow> aToB s = m # ms \<Longrightarrow> lamport_Receive (msg_stamp m) (clockB s) = (c, t) \<Longrightarrow>
    step_B s (s\<lparr>clockB := c, heldB := t, textB := msg_text m, pcB := 2, aToB := ms\<rparr>)"
| B_received: "pcB s = 2 \<Longrightarrow>
    step_B s (log_as ''B'' ''recv'' (quoted (textB s) @ '' from A'') (heldB s) (s\<lparr>pcB := 3\<rparr>))"
| B_send: "pcB s = 3 \<Longrightarrow> length (bToA s) < 2 \<Longrightarrow> lamport_Send (clockB s) = (c, t) \<Longrightarrow>
    step_B s (s\<lparr>clockB := c, heldB := t, pcB := 4,
      bToA := bToA s @ [\<lparr>msg_from = ''B'', msg_text = ''world'', msg_stamp = t\<rparr>]\<rparr>)"
| B_sent: "pcB s = 4 \<Longrightarrow>
    step_B s (log_as ''B'' ''send'' (quoted ''world'' @ '' to A'') (heldB s) (s\<lparr>pcB := 5\<rparr>))"

inductive_simps step_A_simps: "step_A s t"
inductive_simps step_B_simps: "step_B s t"

inductive reach :: "msg_state \<Rightarrow> bool" where
  reach_init: "reach msg_init"
| reach_A: "reach s \<Longrightarrow> step_A s t \<Longrightarrow> reach t"
| reach_B: "reach s \<Longrightarrow> step_B s t \<Longrightarrow> reach t"

text \<open>After both goroutines have finished, the events are sorted by stamp and then by process.\<close>

definition finished :: "msg_state \<Rightarrow> bool" where
  "finished s \<longleftrightarrow> pcA s = 7 \<and> pcB s = 5"

definition printed :: "msg_state \<Rightarrow> log_event list" where
  "printed s = sort_key (\<lambda>e. (ev_stamp e, ev_process e)) (events s)"

section \<open>What a schedule can reach\<close>

text \<open>Everything but the order of the events follows from the two program counters.\<close>

definition entries_A :: "log_event list" where
  "entries_A =
     [\<lparr>ev_process = ''A'', ev_kind = ''tick'', ev_detail = ''loading config'', ev_stamp = 1\<rparr>,
      \<lparr>ev_process = ''A'', ev_kind = ''tick'', ev_detail = ''init complete'', ev_stamp = 2\<rparr>,
      \<lparr>ev_process = ''A'', ev_kind = ''send'', ev_detail = quoted ''hello'' @ '' to B'', ev_stamp = 3\<rparr>,
      \<lparr>ev_process = ''A'', ev_kind = ''recv'', ev_detail = quoted ''world'' @ '' from B'', ev_stamp = 6\<rparr>,
      \<lparr>ev_process = ''A'', ev_kind = ''tick'', ev_detail = ''shutting down'', ev_stamp = 7\<rparr>]"

definition entries_B :: "log_event list" where
  "entries_B =
     [\<lparr>ev_process = ''B'', ev_kind = ''tick'', ev_detail = ''warming up'', ev_stamp = 1\<rparr>,
      \<lparr>ev_process = ''B'', ev_kind = ''recv'', ev_detail = quoted ''hello'' @ '' from A'', ev_stamp = 4\<rparr>,
      \<lparr>ev_process = ''B'', ev_kind = ''send'', ev_detail = quoted ''world'' @ '' to A'', ev_stamp = 5\<rparr>]"

definition msg_inv :: "msg_state \<Rightarrow> bool" where
  "msg_inv s \<longleftrightarrow>
     pcA s \<le> 7 \<and> pcB s \<le> 5 \<and> (2 \<le> pcB s \<longrightarrow> 3 \<le> pcA s) \<and> (5 \<le> pcA s \<longrightarrow> 4 \<le> pcB s) \<and>
     counter (clockA s) = [0, 1, 2, 3, 3, 6, 6, 7] ! pcA s \<and>
     counter (clockB s) = [0, 1, 4, 4, 5, 5] ! pcB s \<and>
     (pcA s = 5 \<longrightarrow> textA s = ''world'') \<and> (pcB s = 2 \<longrightarrow> textB s = ''hello'') \<and>
     (pcA s \<in> {3, 5} \<longrightarrow> heldA s = counter (clockA s)) \<and>
     (pcB s \<in> {2, 4} \<longrightarrow> heldB s = counter (clockB s)) \<and>
     aToB s = (if 3 \<le> pcA s \<and> pcB s \<le> 1
       then [\<lparr>msg_from = ''A'', msg_text = ''hello'', msg_stamp = 3\<rparr>] else []) \<and>
     bToA s = (if 4 \<le> pcB s \<and> pcA s \<le> 4
       then [\<lparr>msg_from = ''B'', msg_text = ''world'', msg_stamp = 5\<rparr>] else []) \<and>
     mset (events s) = mset (take ([0, 1, 2, 2, 3, 3, 4, 5] ! pcA s) entries_A) +
       mset (take ([0, 1, 1, 2, 2, 3] ! pcB s) entries_B)"

lemma msg_inv_init: "msg_inv msg_init"
  by (simp add: msg_inv_def msg_init_def lamport_defs)

lemma msg_inv_A:
  assumes "msg_inv s" and "step_A s t"
  shows "msg_inv t"
  using assms(2,1)
  by cases (auto simp: msg_inv_def log_as_def lamport_defs entries_A_def split: if_splits)

lemma msg_inv_B:
  assumes "msg_inv s" and "step_B s t"
  shows "msg_inv t"
  using assms(2,1)
  by cases (auto simp: msg_inv_def log_as_def lamport_defs entries_B_def split: if_splits)

lemma reach_inv: "reach s \<Longrightarrow> msg_inv s"
  by (induction rule: reach.induct) (blast intro: msg_inv_init msg_inv_A msg_inv_B)+

text \<open>No schedule gets stuck before both goroutines have finished.\<close>

lemma enabled_A:
  assumes "pcA s < 7" and "pcA s = 2 \<longrightarrow> aToB s = []" and "pcA s = 4 \<longrightarrow> bToA s \<noteq> []"
  shows "\<exists>t. step_A s t"
proof -
  have "pcA s = 0 \<or> pcA s = 1 \<or> pcA s = 2 \<or> pcA s = 3 \<or> pcA s = 4 \<or> pcA s = 5 \<or> pcA s = 6"
    using assms(1) by linarith
  moreover have "pcA s = 0 \<Longrightarrow> ?thesis" using A_tick1 [OF _ surjective_pairing] by blast
  moreover have "pcA s = 1 \<Longrightarrow> ?thesis" using A_tick2 [OF _ surjective_pairing] by blast
  moreover have "pcA s = 2 \<Longrightarrow> ?thesis"
    using A_send [OF _ _ surjective_pairing, of s] assms(2) by auto
  moreover have "pcA s = 3 \<Longrightarrow> ?thesis" using A_sent by blast
  moreover have "pcA s = 4 \<Longrightarrow> ?thesis"
    using A_recv [OF _ _ surjective_pairing, of s "hd (bToA s)" "tl (bToA s)"] assms(3) by auto
  moreover have "pcA s = 5 \<Longrightarrow> ?thesis" using A_received by blast
  moreover have "pcA s = 6 \<Longrightarrow> ?thesis" using A_tick3 [OF _ surjective_pairing] by blast
  ultimately show ?thesis by blast
qed

lemma enabled_B:
  assumes "pcB s < 5" and "pcB s = 1 \<longrightarrow> aToB s \<noteq> []" and "pcB s = 3 \<longrightarrow> bToA s = []"
  shows "\<exists>t. step_B s t"
proof -
  have "pcB s = 0 \<or> pcB s = 1 \<or> pcB s = 2 \<or> pcB s = 3 \<or> pcB s = 4"
    using assms(1) by linarith
  moreover have "pcB s = 0 \<Longrightarrow> ?thesis" using B_tick [OF _ surjective_pairing] by blast
  moreover have "pcB s = 1 \<Longrightarrow> ?thesis"
    using B_recv [OF _ _ surjective_pairing, of s "hd (aToB s)" "tl (aToB s)"] assms(2) by auto
  moreover have "pcB s = 2 \<Longrightarrow> ?thesis" using B_received by blast
  moreover have "pcB s = 3 \<Longrightarrow> ?thesis"
    using B_send [OF _ _ surjective_pairing, of s] assms(3) by auto
  moreover have "pcB s = 4 \<Longrightarrow> ?thesis" using B_sent by blast
  ultimately show ?thesis by blast
qed

lemma msg_inv_channels:
  assumes "msg_inv s"
  shows "pcA s \<le> 7" and "pcB s \<le> 5" and "2 \<le> pcB s \<Longrightarrow> 3 \<le> pcA s"
    and "aToB s = [] \<longleftrightarrow> pcA s < 3 \<or> 1 < pcB s" and "bToA s = [] \<longleftrightarrow> pcB s < 4 \<or> 4 < pcA s"
  using assms by (simp_all add: msg_inv_def not_le)

lemma msg_progress:
  assumes "msg_inv s" and "\<not> finished s"
  shows "\<exists>t. step_A s t \<or> step_B s t"
proof (cases "pcA s < 7 \<and> (pcA s = 4 \<longrightarrow> bToA s \<noteq> [])")
  case True
  moreover have "pcA s = 2 \<longrightarrow> aToB s = []" using msg_inv_channels(4) [OF assms(1)] by simp
  ultimately show ?thesis using enabled_A by blast
next
  case False
  note inv = msg_inv_channels [OF assms(1)]
  have pc: "pcA s = 7 \<or> pcA s = 4 \<and> pcB s < 4" using False inv(1,5) by linarith
  have "pcB s < 5" using pc inv(2) assms(2) unfolding finished_def by linarith
  moreover have "pcB s = 1 \<longrightarrow> aToB s \<noteq> []" using pc inv(4) by linarith
  moreover have "pcB s = 3 \<longrightarrow> bToA s = []" using inv(5) by simp
  ultimately show ?thesis using enabled_B by blast
qed

lemma msg_step_pc: "step_A s t \<or> step_B s t \<Longrightarrow> pcA t + pcB t = pcA s + pcB s + 1"
  by (auto simp: step_A_simps step_B_simps log_as_def)

text \<open>The entries in the order of their stamps; the processes break the one tie.\<close>

definition final_log :: "log_event list" where
  "final_log = sort_key (\<lambda>e. (ev_stamp e, ev_process e)) (entries_A @ entries_B)"

lemma finished_printed:
  assumes "msg_inv s" and "finished s"
  shows "printed s = final_log"
  unfolding printed_def final_log_def
proof (rule sort_key_inj_key_eq)
  have m: "mset (events s) = mset (entries_A @ entries_B)"
    using assms by (simp add: msg_inv_def finished_def entries_A_def entries_B_def)
  then show "mset (events s) = mset (sort_key (\<lambda>e. (ev_stamp e, ev_process e)) (entries_A @ entries_B))"
    by simp
  have "set (events s) = set (entries_A @ entries_B)" using m by (rule mset_eq_setD)
  then show "inj_on (\<lambda>e. (ev_stamp e, ev_process e)) (set (events s))"
    by (auto simp: inj_on_def entries_A_def entries_B_def)
qed simp

lemma final_log_printed:
  "List.map (\<lambda>e. (ev_stamp e, ev_process e, ev_kind e)) final_log =
    [(1, ''A'', ''tick''), (1, ''B'', ''tick''), (2, ''A'', ''tick''), (3, ''A'', ''send''),
     (4, ''B'', ''recv''), (5, ''B'', ''send''), (6, ''A'', ''recv''), (7, ''A'', ''tick'')]"
  by (simp add: final_log_def entries_A_def entries_B_def word_le_nat_alt)

text \<open>
  C39. The example prints the same list under every schedule. In every state that some schedule reaches, the
  program can go on unless both goroutines have finished, at most 12 steps remain, so it always finishes,
  and then the sorted list is the one with stamps 1 to 7 in which every send is before its receive.
\<close>

theorem messaging_deterministic:
  assumes "reach s"
  shows "(finished s \<longrightarrow> List.map (\<lambda>e. (ev_stamp e, ev_process e, ev_kind e)) (printed s) =
      [(1, ''A'', ''tick''), (1, ''B'', ''tick''), (2, ''A'', ''tick''), (3, ''A'', ''send''),
       (4, ''B'', ''recv''), (5, ''B'', ''send''), (6, ''A'', ''recv''), (7, ''A'', ''tick'')]) \<and>
    (finished s \<or> (\<exists>t. step_A s t \<or> step_B s t)) \<and>
    pcA s + pcB s \<le> 12 \<and> {t. (step_A s t \<or> step_B s t) \<and> pcA t + pcB t \<noteq> pcA s + pcB s + 1} = {}"
proof (intro conjI)
  note inv = reach_inv [OF assms]
  show "finished s \<longrightarrow> List.map (\<lambda>e. (ev_stamp e, ev_process e, ev_kind e)) (printed s) =
      [(1, ''A'', ''tick''), (1, ''B'', ''tick''), (2, ''A'', ''tick''), (3, ''A'', ''send''),
       (4, ''B'', ''recv''), (5, ''B'', ''send''), (6, ''A'', ''recv''), (7, ''A'', ''tick'')]"
    using finished_printed [OF inv] final_log_printed by simp
  show "finished s \<or> (\<exists>t. step_A s t \<or> step_B s t)" using msg_progress [OF inv] by blast
  show "pcA s + pcB s \<le> 12" using inv by (simp add: msg_inv_def)
  show "{t. (step_A s t \<or> step_B s t) \<and> pcA t + pcB t \<noteq> pcA s + pcB s + 1} = {}"
    using msg_step_pc by blast
qed

theorem messaging_deterministic_witness: "\<exists>t. step_A msg_init t \<or> step_B msg_init t"
  using messaging_deterministic [OF reach_init] by (auto simp: finished_def msg_init_def)

end
