(* ===== verification/Examples.thy ===== *)
theory Examples
  imports Hlc Truetime
begin

text \<open>
  The example programs \<^verbatim>\<open>examples/hlc_db/main.go\<close> and \<^verbatim>\<open>examples/truetime_external/main.go\<close>, as the calls
  they make; what they print is the values returned here.
\<close>

section \<open>Two databases with skewed wall clocks\<close>

text \<open>The error of \<^verbatim>\<open>Receive\<close> is dropped with the blank identifier; the value is then the zero timestamp.\<close>

definition received :: "hlc_error + timestamp \<Rightarrow> timestamp" where
  "received r = (case r of Inl _ \<Rightarrow> Timestamp 0 0 | Inr t \<Rightarrow> t)"

definition hlc_db_main :: "timestamp \<times> timestamp \<times> timestamp \<times> timestamp" where
  "hlc_db_main =
     (let base = time_Unix 1700000000 0;
          fake1 = NewFake base;
          fake2 = NewFake (time_Add base (30 * Millisecond));
          node1 = hlc_New;
          node2 = hlc_New;
          (node1, msg1) = hlc_Send (fake_NowNanos fake1) node1;
          (node2, r2) = hlc_Receive (fake_NowNanos fake2) msg1 node2;
          t2 = received r2;
          (node2, msg2) = hlc_Send (fake_NowNanos fake2) node2;
          (node1, r1) = hlc_Receive (fake_NowNanos fake1) msg2 node1;
          t1 = received r1
      in (msg1, t2, msg2, t1))"

text \<open>Both conditions the program tests hold, and node 1 adopts the wall time of node 2.\<close>

lemma hlc_db_main_values:
  "hlc_db_main =
     (Timestamp 1700000000000000000 0, Timestamp 1700000000030000000 0,
      Timestamp 1700000000030000000 1, Timestamp 1700000000030000000 2)"
  by (simp add: hlc_db_main_def hlc_defs time_Unix_def time_Add_def fake_defs time_UnixNano_def
      Millisecond_def received_def smax_def word_sless_alt Let_def)

lemma hlc_db_main_causal:
  "case hlc_db_main of (msg1, t2, msg2, t1) \<Rightarrow> ts_Less msg1 t2 \<and> ts_Less t2 msg2 \<and> ts_Less msg2 t1"
  by (simp add: hlc_db_main_values ts_Less_def word_sless_alt)

section \<open>Commit with and without waiting\<close>

definition external_base :: gotime where
  "external_base = time_Unix 1700000000 0"

definition external_initial :: interval where
  "external_initial = \<lparr>Earliest = external_base, Latest = time_Add external_base (7 * Millisecond)\<rparr>"

text \<open>Scenario A: the second transaction picks its timestamp without any wait.\<close>

definition external_A :: "gotime \<times> gotime" where
  "external_A =
     (let src = NewFakeSource external_initial;
          t1 = Latest (tt_Now (fake_source_Now src));
          t2 = Earliest (tt_Now (fake_source_Now src))
      in (t1, t2))"

lemma external_A_violation:
  "case external_A of (t1, t2) \<Rightarrow> time_Before t2 t1 \<and> time_Sub t1 t2 = 7 * Millisecond"
  by (simp add: external_A_def external_initial_def external_base_def NewFakeSource_def tt_Now_def
      fake_source_Now_def time_Unix_def time_Add_def time_Before_def time_Sub_def saturate_def
      Millisecond_def)

text \<open>
  Scenario B: a second goroutine sets the source to a later interval at some point, here after the first
  \<open>n\<close> readings of the wait; \<open>None\<close> as the result is a wait that does not return or is cancelled.
\<close>

definition external_later :: "fake_source \<Rightarrow> fake_source" where
  "external_later src =
     fake_source_Set \<lparr>Earliest = time_Add external_base (30 * Millisecond),
       Latest = time_Add external_base (37 * Millisecond)\<rparr> src"

definition external_B :: "nat \<Rightarrow> (nat \<Rightarrow> 'e option) \<Rightarrow> (gotime \<times> gotime) option" where
  "external_B n done =
     (let src = NewFakeSource external_initial;
          t1 = Latest (tt_Now (fake_source_Now src));
          readings = (\<lambda>k. fake_source_Now (if k < n then src else external_later src))
      in case CommitWait readings done t1 of
           None \<Rightarrow> None
         | Some r \<Rightarrow>
             if cw_err r \<noteq> None then None
             else Some (t1, Earliest (tt_Now (fake_source_Now (external_later src)))))"

text \<open>Whenever the interval changes, an uncancelled wait returns, and the second timestamp is 23ms later.\<close>

lemma external_B_consistent:
  "\<exists>t1 t2. external_B n (\<lambda>_. None :: unit option) = Some (t1, t2) \<and>
    time_After t2 t1 \<and> time_Sub t2 t1 = 23 * Millisecond"
proof -
  let ?t1 = "Latest external_initial"
  let ?R = "\<lambda>k. fake_source_Now (if k < n then NewFakeSource external_initial
    else external_later (NewFakeSource external_initial))"
  note defs = external_initial_def external_base_def external_later_def NewFakeSource_def
    fake_source_Now_def fake_source_Set_def time_Unix_def time_Add_def Millisecond_def time_After_def
  have now: "fake_source_Now (NewFakeSource external_initial) = external_initial"
    by (simp add: fake_source_Now_def NewFakeSource_def)
  have "ends_at ?R (\<lambda>_. None :: unit option) ?t1 n"
    and "\<forall>k < n. \<not> ends_at ?R (\<lambda>_. None :: unit option) ?t1 k"
    and after: "time_After (Earliest (?R n)) ?t1"
    by (simp_all add: ends_at_def defs)
  from CommitWait_at [OF this(1,2)] after
  have "CommitWait ?R (\<lambda>_. None :: unit option) ?t1 =
      Some \<lparr>cw_err = None, cw_readings = n + 1, cw_waits = waits_at ?R ?t1 1 n\<rparr>" by simp
  then have "external_B n (\<lambda>_. None :: unit option) = Some (?t1,
      Earliest (tt_Now (fake_source_Now (external_later (NewFakeSource external_initial)))))"
    by (simp add: external_B_def Let_def tt_Now_def now)
  then show ?thesis
    by (simp add: tt_Now_def) (simp add: defs time_Sub_def saturate_def)
qed

end
