(* ===== verification/Scenarios.thy ===== *)
theory Scenarios
  imports Lamport Hlc Vector Dotted Examples
begin

text \<open>
  The scenarios of \<^verbatim>\<open>proofs/\<close> and the examples of the package documentation, as the calls they make,
  with the values they assert. The tests run one trace each; the properties here state what the traces
  illustrate: for every behaviour of the wall clock, every stored version and every pair of writers.
\<close>

section \<open>Stable sorting by a comparison\<close>

text \<open>\<^verbatim>\<open>sort.SliceStable(s, less)\<close>: equal elements keep their order.\<close>

fun insert_stable :: "('a \<Rightarrow> 'a \<Rightarrow> bool) \<Rightarrow> 'a \<Rightarrow> 'a list \<Rightarrow> 'a list" where
  "insert_stable lt x [] = [x]"
| "insert_stable lt x (y # ys) = (if lt y x then y # insert_stable lt x ys else x # y # ys)"

definition SliceStable :: "('a \<Rightarrow> 'a \<Rightarrow> bool) \<Rightarrow> 'a list \<Rightarrow> 'a list" where
  "SliceStable lt xs = foldr (insert_stable lt) xs []"

lemma insert_stable_key:
  "(\<And>y. y \<in> set ys \<Longrightarrow> lt y x \<longleftrightarrow> key y < key x) \<Longrightarrow> insert_stable lt x ys = insort_key key x ys"
  for key :: "'a \<Rightarrow> 'k::linorder"
  by (induction ys) (auto simp: not_less)

lemma SliceStable_key:
  fixes key :: "'a \<Rightarrow> 'k::linorder"
  assumes "\<And>x y. x \<in> set xs \<Longrightarrow> y \<in> set xs \<Longrightarrow> lt x y \<longleftrightarrow> key x < key y"
  shows "SliceStable lt xs = sort_key key xs"
  using assms
proof (induction xs)
  case Nil
  then show ?case by (simp add: SliceStable_def)
next
  case (Cons x xs)
  then have "SliceStable lt xs = sort_key key xs" by simp
  moreover have "insert_stable lt x (sort_key key xs) = insort_key key x (sort_key key xs)"
    by (rule insert_stable_key) (use Cons.prems in auto)
  ultimately show ?case by (simp add: SliceStable_def)
qed

lemma SliceStable_id_iff:
  fixes key :: "'a \<Rightarrow> 'k::linorder"
  assumes "\<And>x y. x \<in> set xs \<Longrightarrow> y \<in> set xs \<Longrightarrow> lt x y \<longleftrightarrow> key x < key y"
  shows "SliceStable lt xs = xs \<longleftrightarrow> sorted (List.map key xs)"
proof -
  have "SliceStable lt xs = sort_key key xs" using assms by (rule SliceStable_key)
  moreover have "sort_key key xs = xs \<longleftrightarrow> sorted (List.map key xs)"
    using sort_key_id_if_sorted [of key xs] by (metis sorted_sort_key)
  ultimately show ?thesis by simp
qed

section \<open>A ring of Lamport clocks (\<^verbatim>\<open>lamport_1978_test.go\<close>)\<close>

definition TestLamport1978 :: "u64 list" where
  "TestLamport1978 =
     (let p1 = lamport_New; p2 = lamport_New; p3 = lamport_New;
          (p1, t1) = lamport_Tick p1;
          (p1, t2) = lamport_Tick p1;
          (p1, m1) = lamport_Send p1;
          (p2, r1) = lamport_Receive m1 p2;
          (p2, m2) = lamport_Send p2;
          (p3, r2) = lamport_Receive m2 p3;
          (p3, m3) = lamport_Send p3;
          (p1, r3) = lamport_Receive m3 p1
      in [t1, t2, m1, r1, m2, r2, m3, r3])"

lemma TestLamport1978_chain: "TestLamport1978 = [1, 2, 3, 4, 5, 6, 7, 8]"
  by (simp add: TestLamport1978_def lamport_defs Let_def)

section \<open>Skewed hybrid clocks (\<^verbatim>\<open>hlc_etcd_test.go\<close>)\<close>

definition TestHLCPreservesCausalityAcrossSkewedNodes ::
  "timestamp \<times> (hlc_error + timestamp) \<times> timestamp \<times> (hlc_error + timestamp)" where
  "TestHLCPreservesCausalityAcrossSkewedNodes =
     (let fake1 = NewFake (time_Unix 1000 0);
          fake2 = NewFake (time_Add (time_Unix 1000 0) (50 * Millisecond));
          clock1 = hlc_New; clock2 = hlc_New;
          (clock1, msg) = hlc_Send (fake_NowNanos fake1) clock1;
          (clock2, got) = hlc_Receive (fake_NowNanos fake2) msg clock2;
          (clock2, msg2) = hlc_Send (fake_NowNanos fake2) clock2;
          (clock1, got1) = hlc_Receive (fake_NowNanos fake1) msg2 clock1
      in (msg, got, msg2, got1))"

lemmas wall_defs = time_Unix_def time_Add_def fake_defs time_UnixNano_def Millisecond_def

lemma TestHLCPreservesCausality_values:
  "TestHLCPreservesCausalityAcrossSkewedNodes =
     (Timestamp 1000000000000 0, Inr (Timestamp 1000050000000 0), Timestamp 1000050000000 1,
      Inr (Timestamp 1000050000000 2))"
  by (simp add: TestHLCPreservesCausalityAcrossSkewedNodes_def hlc_defs wall_defs smax_def
      word_sless_alt Let_def)

definition TestHLCRingPreservesCausality ::
  "timestamp \<times> (hlc_error + timestamp) \<times> timestamp \<times> (hlc_error + timestamp) \<times> timestamp \<times> (hlc_error + timestamp)" where
  "TestHLCRingPreservesCausality =
     (let base = time_Unix 1000 0;
          f1 = NewFake base;
          f2 = NewFake (time_Add base (30 * Millisecond));
          f3 = NewFake (time_Add base (60 * Millisecond));
          c1 = hlc_New; c2 = hlc_New; c3 = hlc_New;
          (c1, m1) = hlc_Send (fake_NowNanos f1) c1;
          (c2, t2) = hlc_Receive (fake_NowNanos f2) m1 c2;
          (c2, m2) = hlc_Send (fake_NowNanos f2) c2;
          (c3, t3) = hlc_Receive (fake_NowNanos f3) m2 c3;
          (c3, m3) = hlc_Send (fake_NowNanos f3) c3;
          (c1, t1) = hlc_Receive (fake_NowNanos f1) m3 c1
      in (m1, t2, m2, t3, m3, t1))"

lemma TestHLCRing_values:
  "TestHLCRingPreservesCausality =
     (Timestamp 1000000000000 0, Inr (Timestamp 1000030000000 0), Timestamp 1000030000000 1,
      Inr (Timestamp 1000060000000 0), Timestamp 1000060000000 1, Inr (Timestamp 1000060000000 2))"
proof -
  let ?t1 = "1000000000000 :: i64" and ?t2 = "1000030000000 :: i64" and ?t3 = "1000060000000 :: i64"
  let ?clock = "\<lambda>l c. \<lparr>hlc_state = Timestamp l c, hlc_maxDrift = 0\<rparr>"
  have f: "fake_NowNanos (NewFake (time_Unix 1000 0)) = ?t1"
    "fake_NowNanos (NewFake (time_Add (time_Unix 1000 0) (30 * Millisecond))) = ?t2"
    "fake_NowNanos (NewFake (time_Add (time_Unix 1000 0) (60 * Millisecond))) = ?t3"
    by (simp_all add: wall_defs Let_def)
  have c: "hlc_Send ?t1 hlc_New = (?clock ?t1 0, Timestamp ?t1 0)"
    "hlc_Receive ?t2 (Timestamp ?t1 0) hlc_New = (?clock ?t2 0, Inr (Timestamp ?t2 0))"
    "hlc_Send ?t2 (?clock ?t2 0) = (?clock ?t2 1, Timestamp ?t2 1)"
    "hlc_Receive ?t3 (Timestamp ?t2 1) hlc_New = (?clock ?t3 0, Inr (Timestamp ?t3 0))"
    "hlc_Send ?t3 (?clock ?t3 0) = (?clock ?t3 1, Timestamp ?t3 1)"
    "hlc_Receive ?t1 (Timestamp ?t3 1) (?clock ?t1 0) = (?clock ?t3 2, Inr (Timestamp ?t3 2))"
    by (simp_all add: hlc_defs smax_def word_sless_alt)
  show ?thesis by (simp add: TestHLCRingPreservesCausality_def f c Let_def)
qed

text \<open>Every link of the ring is later than the one before.\<close>

lemma TestHLCRing_chain:
  "case TestHLCRingPreservesCausality of (m1, t2, m2, t3, m3, t1) \<Rightarrow>
     sorted_wrt ts_Less [m1, received t2, m2, received t3, m3, received t1]"
  by (simp add: TestHLCRing_values received_def ts_Less_def word_sless_alt)

section \<open>A wall clock that is stepped back (\<^verbatim>\<open>ntp_step_test.go\<close>)\<close>

text \<open>Events in real-time order with their stamps: numbered by \<open>Order\<close> from 1.\<close>

definition wall_sort :: "(nat \<times> gotime) list \<Rightarrow> (nat \<times> gotime) list" where
  "wall_sort events = SliceStable (\<lambda>e f. time_Before (snd e) (snd f)) events"

definition hlc_sort :: "(nat \<times> timestamp) list \<Rightarrow> (nat \<times> timestamp) list" where
  "hlc_sort events = SliceStable (\<lambda>e f. ts_Less (snd e) (snd f)) events"

definition TestNTPStep_wall :: "(nat \<times> gotime) list" where
  "TestNTPStep_wall =
     (let fake = NewFake (time_Unix 1000 0);
          events = [(1, fake_Now fake)];
          fake = fake_Advance (100 * Millisecond) fake;
          events = events @ [(2, fake_Now fake)];
          fake = fake_Reverse (200 * Millisecond) fake;
          events = events @ [(3, fake_Now fake)]
      in wall_sort events)"

definition TestNTPStep_hlc :: "(nat \<times> timestamp) list" where
  "TestNTPStep_hlc =
     (let hlcFake = NewFake (time_Unix 1000 0);
          clock = hlc_New;
          (clock, t) = hlc_Now (fake_NowNanos hlcFake) clock;
          hlcEvents = [(1, t)];
          hlcFake = fake_Advance (100 * Millisecond) hlcFake;
          (clock, t) = hlc_Now (fake_NowNanos hlcFake) clock;
          hlcEvents = hlcEvents @ [(2, t)];
          hlcFake = fake_Reverse (200 * Millisecond) hlcFake;
          (clock, t) = hlc_Now (fake_NowNanos hlcFake) clock;
          hlcEvents = hlcEvents @ [(3, t)]
      in hlc_sort hlcEvents)"

lemma TestNTPStep_orders:
  "List.map fst TestNTPStep_wall = [3, 1, 2]" "List.map fst TestNTPStep_hlc = [1, 2, 3]"
proof -
  show "List.map fst TestNTPStep_wall = [3, 1, 2]"
    by (simp add: TestNTPStep_wall_def wall_sort_def SliceStable_def wall_defs time_Before_def Let_def)
  have f: "fake_NowNanos (NewFake (time_Unix 1000 0)) = 1000000000000"
    "fake_NowNanos (fake_Advance (100 * Millisecond) (NewFake (time_Unix 1000 0))) = 1000100000000"
    "fake_NowNanos (fake_Reverse (200 * Millisecond) (fake_Advance (100 * Millisecond) (NewFake (time_Unix 1000 0)))) =
      999900000000"
    by (simp_all add: wall_defs Let_def)
  let ?clock = "\<lambda>l c. \<lparr>hlc_state = Timestamp l c, hlc_maxDrift = 0\<rparr>"
  have c: "hlc_Now 1000000000000 hlc_New = (?clock 1000000000000 0, Timestamp 1000000000000 0)"
    "hlc_Now 1000100000000 (?clock 1000000000000 0) = (?clock 1000100000000 0, Timestamp 1000100000000 0)"
    "hlc_Now 999900000000 (?clock 1000100000000 0) = (?clock 1000100000000 1, Timestamp 1000100000000 1)"
    by (simp_all add: hlc_defs smax_def word_sless_alt)
  show "List.map fst TestNTPStep_hlc = [1, 2, 3]"
    by (simp add: TestNTPStep_hlc_def f c Let_def hlc_sort_def SliceStable_def ts_Less_def word_sless_alt)
qed

text \<open>
  The same with any number of events and any movements of the wall clock between them, each movement a
  duration of either sign.
\<close>

fun wall_stamps :: "duration list \<Rightarrow> fake \<Rightarrow> gotime list" where
  "wall_stamps [] f = [fake_Now f]"
| "wall_stamps (d # ds) f = fake_Now f # wall_stamps ds (fake_Step d f)"

fun wall_readings :: "duration list \<Rightarrow> fake \<Rightarrow> i64 list" where
  "wall_readings [] f = [fake_NowNanos f]"
| "wall_readings (d # ds) f = fake_NowNanos f # wall_readings ds (fake_Step d f)"

fun hlc_stamps :: "i64 list \<Rightarrow> hlc_clock \<Rightarrow> timestamp list" where
  "hlc_stamps [] c = []"
| "hlc_stamps (pt # pts) c = (case hlc_Now pt c of (c, t) \<Rightarrow> t # hlc_stamps pts c)"

lemma length_wall_readings [simp]: "length (wall_readings ds f) = length ds + 1"
  by (induction ds f rule: wall_readings.induct) auto

lemma hlc_stamps_run: "hlc_stamps pts c = snd (hlc_run (List.map HNow pts) c)"
  by (induction pts arbitrary: c) (auto split: prod.splits)

lemma hlc_stamps_increasing:
  "unat (Logical (hlc_Current c)) + length pts \<le> logical_limit \<Longrightarrow> sorted_wrt ts_Less (hlc_stamps pts c)"
  using hlc_run_increasing [of "List.map HNow pts" c "fst (hlc_run (List.map HNow pts) c)"
      "hlc_stamps pts c" logical_limit]
  by (simp add: hlc_stamps_run)

lemma wall_stamps_mono: "mono_ns (fake_now f) = None \<Longrightarrow> t \<in> set (wall_stamps ds f) \<Longrightarrow> mono_ns t = None"
  by (induction ds f rule: wall_stamps.induct) (auto simp: fake_defs time_Add_def Let_def)

text \<open>
  C23. Sorting by wall time and by hybrid time. Take events that one process records while its wall clock
  moves between them in any way. Sorting them by hybrid timestamp (\<^verbatim>\<open>sort.SliceStable\<close> with \<^verbatim>\<open>Less\<close>) always
  gives the order in which they happened, for fewer than \<open>2 ^ 32 - 1\<close> events; sorting them by wall time
  does so exactly if no reading is earlier than one before it.
\<close>

theorem hlc_sort_survives_steps:
  assumes "length ds + 1 \<le> 2 ^ 32 - 1" and "mono_ns (fake_now f) = None"
  shows "hlc_sort (enumerate 1 (hlc_stamps (wall_readings ds f) hlc_New)) =
      enumerate 1 (hlc_stamps (wall_readings ds f) hlc_New) \<and>
    (wall_sort (enumerate 1 (wall_stamps ds f)) = enumerate 1 (wall_stamps ds f) \<longleftrightarrow>
      sorted_wrt (\<lambda>t u. \<not> time_Before u t) (wall_stamps ds f))"
proof
  let ?h = "hlc_stamps (wall_readings ds f) hlc_New" and ?w = "wall_stamps ds f"
  have "sorted_wrt ts_Less ?h"
    using assms(1) by (intro hlc_stamps_increasing) (simp add: hlc_defs)
  then have "sorted ?h"
    by (rule sorted_wrt_mono_rel [rotated]) (simp add: less_eq_timestamp_def less_timestamp_def)
  moreover have "hlc_sort (enumerate 1 ?h) = enumerate 1 ?h \<longleftrightarrow> sorted (List.map snd (enumerate 1 ?h))"
    unfolding hlc_sort_def by (rule SliceStable_id_iff) (simp add: less_timestamp_def)
  ultimately show "hlc_sort (enumerate 1 ?h) = enumerate 1 ?h" by simp
  have key: "time_Before t u \<longleftrightarrow> wall_ns t < wall_ns u" if "t \<in> set ?w" for t u
    using wall_stamps_mono [OF assms(2) that] by (simp add: time_Before_def)
  have "wall_sort (enumerate 1 ?w) = enumerate 1 ?w \<longleftrightarrow>
      sorted (List.map (\<lambda>e. wall_ns (snd e)) (enumerate 1 ?w))"
    unfolding wall_sort_def
    by (rule SliceStable_id_iff) (auto simp: key dest!: in_set_enumerate_eq [THEN iffD1])
  also have "List.map (\<lambda>e. wall_ns (snd e)) (enumerate 1 ?w) = List.map wall_ns ?w"
    using map_snd_enumerate [of 1 ?w] by (metis (no_types, lifting) map_eq_conv map_map comp_def)
  also have "sorted (List.map wall_ns ?w) \<longleftrightarrow> sorted_wrt (\<lambda>t u. \<not> time_Before u t) ?w"
    unfolding sorted_map by (auto simp: key not_less elim: sorted_wrt_mono_rel [rotated])
  finally show "wall_sort (enumerate 1 ?w) = enumerate 1 ?w \<longleftrightarrow> sorted_wrt (\<lambda>t u. \<not> time_Before u t) ?w" .
qed

theorem hlc_sort_survives_steps_witness:
  "let f = NewFake (time_Unix 1000 0); ds = [100 * Millisecond, - 200 * Millisecond];
       h = hlc_stamps (wall_readings ds f) hlc_New
   in hlc_sort (enumerate 1 h) = enumerate 1 h \<and>
      wall_sort (enumerate 1 (wall_stamps ds f)) \<noteq> enumerate 1 (wall_stamps ds f)"
proof -
  let ?f = "NewFake (time_Unix 1000 0)" and ?ds = "[100 * Millisecond, - 200 * Millisecond]"
  have "mono_ns (fake_now ?f) = None" by (simp add: wall_defs)
  moreover have "\<not> sorted_wrt (\<lambda>t u. \<not> time_Before u t) (wall_stamps ?ds ?f)"
    by (simp add: wall_defs time_Before_def Let_def)
  ultimately show ?thesis
    using hlc_sort_survives_steps [of ?ds ?f] by (simp add: Let_def)
qed

section \<open>Siblings (\<^verbatim>\<open>riak_siblings_test.go\<close>)\<close>

definition riak_siblings :: "version \<Rightarrow> string \<Rightarrow> string \<Rightarrow> 'a \<Rightarrow> 'a \<Rightarrow> 'a sibling list" where
  "riak_siblings initial clientA clientB x y =
     [\<lparr>sib_version = dotted_Increment clientA initial, sib_value = x\<rparr>,
      \<lparr>sib_version = dotted_Increment clientB initial, sib_value = y\<rparr>]"

text \<open>The sum of the counters in a map, one entry at a time; an increment adds one to it.\<close>

lemma sum_loop_shift:
  "range_loop (\<lambda>k c sum. sum + c) m (s + d) = range_loop (\<lambda>k c sum. sum + c) m s + (d :: u64)"
proof (induction m arbitrary: s)
  case Nil
  then show ?case by simp
next
  case (Cons e m)
  obtain k c where e: "e = (k, c)" by fastforce
  show ?case using Cons.IH [of "s + c"] by (simp add: e ac_simps)
qed

lemma sum_loop_mput:
  "wf_map m \<Longrightarrow> range_loop (\<lambda>k c sum. sum + c) (mput a (cget m a + 1) m) s =
    range_loop (\<lambda>k c sum. sum + c) m s + (1 :: u64)"
proof (induction m arbitrary: s)
  case Nil
  then show ?case by (simp add: mput_def)
next
  case (Cons e m)
  obtain k c where e: "e = (k, c)" by fastforce
  show ?case
  proof (cases "k = a")
    case True
    then show ?thesis
      using sum_loop_shift [of m "s + c" 1] by (simp add: e mput_def mget_Cons ac_simps)
  next
    case False
    then show ?thesis using Cons.IH [of "s + c"] Cons.prems by (simp add: e mput_def mget_Cons wf_map_Cons)
  qed
qed

lemma dotSum_Increment: "wf_version v \<Longrightarrow> dotSum (dotted_Increment a v) = dotSum v + 1"
  by (simp add: dotSum_def dotted_Increment_dots sum_loop_mput wf_version_def)

text \<open>
  Concurrent writers. When two clients write from the same stored version (whatever its history, counters
  below the largest \<^verbatim>\<open>uint64\<close>), each write descends from that version, neither from the other, and
  \<^verbatim>\<open>Concurrent\<close> reports it; their merge descends from both. \<^verbatim>\<open>ResolveLatestWriteWins\<close> on the two siblings
  always keeps the first and drops the second, whichever client wrote it, however the values differ.
\<close>

lemma concurrent_writers:
  assumes "wf_version v" and "a \<noteq> b" and "cget (dots v) a \<noteq> - 1" and "cget (dots v) b \<noteq> - 1"
  shows "let va = dotted_Increment a v; vb = dotted_Increment b v
    in dotted_Concurrent va vb \<and>
       dotted_Descends va v \<and> \<not> dotted_Descends v va \<and> dotted_Descends vb v \<and> \<not> dotted_Descends v vb \<and>
       dotted_Descends (dotted_Merge va vb) va \<and> dotted_Descends (dotted_Merge va vb) vb \<and>
       ResolveLatestWriteWins (riak_siblings v a b x y) = Inr \<lparr>sib_version = va, sib_value = x\<rparr>"
proof -
  let ?va = "dotted_Increment a v" and ?vb = "dotted_Increment b v"
  have up: "c < c + 1" if "c \<noteq> - 1" for c :: u64
    using unat_plus_one_not_max [OF that] by (simp add: word_less_nat_alt)
  have wf: "wf_version ?va" "wf_version ?vb" using assms(1) by auto
  note d = dotted_Descends_le [OF assms(1)] dotted_Descends_le [OF wf(1)] dotted_Descends_le [OF wf(2)]
    dotted_Increment_dots [OF assms(1)]
  have "\<not> dotted_Descends v ?va" "\<not> dotted_Descends v ?vb" "\<not> dotted_Descends ?va ?vb" "\<not> dotted_Descends ?vb ?va"
    using assms(2) up [OF assms(3)] up [OF assms(4)] by (auto simp: d not_le)
  moreover have "dotted_Descends ?va v" "dotted_Descends ?vb v"
    using up [OF assms(3)] up [OF assms(4)] by (auto simp: d)
  moreover have "dotted_Descends (dotted_Merge ?va ?vb) ?va" "dotted_Descends (dotted_Merge ?va ?vb) ?vb"
    using wf dotted_join.history_merge by (auto simp: dotted_Descends_dots)
  moreover have "ResolveLatestWriteWins (riak_siblings v a b x y) = Inr \<lparr>sib_version = ?va, sib_value = x\<rparr>"
    using assms(1) by (simp add: ResolveLatestWriteWins_def riak_siblings_def dotSum_Increment lww_loop.simps)
  ultimately show ?thesis by (simp add: dotted_Concurrent_def Let_def)
qed

section \<open>Commit wait on a source that is set once (\<^verbatim>\<open>spanner_external_test.go\<close>)\<close>

text \<open>
  A background goroutine sets the source at some moment, here after \<open>n\<close> readings of the wait. The result
  of the wait is given with the commit time and what the second transaction reads after it.
\<close>

definition spanner_source :: "interval \<Rightarrow> interval \<Rightarrow> nat \<Rightarrow> nat \<Rightarrow> fake_source" where
  "spanner_source initial next n k =
     (let src = NewFakeSource initial in if k < n then src else fake_source_Set next src)"

definition spanner_test ::
  "interval \<Rightarrow> interval \<Rightarrow> nat \<Rightarrow> (nat \<Rightarrow> 'e option) \<Rightarrow> ('e commit_result \<times> gotime \<times> gotime) option" where
  "spanner_test initial next n done =
     (let src = spanner_source initial next n;
          t1Commit = Latest (tt_Now (fake_source_Now (NewFakeSource initial)))
      in case CommitWait (\<lambda>k. fake_source_Now (src k)) done t1Commit of
           None \<Rightarrow> None
         | Some r \<Rightarrow> Some (r, t1Commit, Earliest (tt_Now (fake_source_Now (src (cw_readings r))))))"

definition TestSpannerExternalConsistency ::
  "nat \<Rightarrow> (nat \<Rightarrow> 'e option) \<Rightarrow> ('e commit_result \<times> gotime \<times> gotime) option" where
  "TestSpannerExternalConsistency n done =
     (let base = time_Unix 1000 0
      in spanner_test \<lparr>Earliest = base, Latest = time_Add base (7 * Millisecond)\<rparr>
           \<lparr>Earliest = time_Add base (20 * Millisecond), Latest = time_Add base (27 * Millisecond)\<rparr> n done)"

definition TestSpannerWithoutCommitWait :: "gotime \<times> gotime" where
  "TestSpannerWithoutCommitWait =
     (let base = time_Unix 1000 0;
          src = NewFakeSource \<lparr>Earliest = base, Latest = time_Add base (7 * Millisecond)\<rparr>
      in (Latest (tt_Now (fake_source_Now src)), Earliest (tt_Now (fake_source_Now src))))"

text \<open>
  Whenever the source is set, an uncancelled wait returns nil with the first reading of the new interval, and
  the second transaction is after the first, provided the new interval lies after the old; else
  it never returns.
\<close>

lemma spanner_test_result:
  assumes "\<not> time_After (Earliest I) (Latest I)"
  shows "time_After (Earliest J) (Latest I) \<Longrightarrow>
      \<exists>r. spanner_test I J n (\<lambda>_. None :: 'e option) = Some (r, Latest I, Earliest J) \<and> cw_err r = None \<and>
        cw_readings r = n + 1"
    and "\<not> time_After (Earliest J) (Latest I) \<Longrightarrow> spanner_test I J n (\<lambda>_. None :: 'e option) = None"
proof -
  let ?R = "\<lambda>k. if k < n then I else J"
  have R: "fake_source_Now (spanner_source I J n k) = ?R k" for k
    by (simp add: spanner_source_def fake_source_Now_def NewFakeSource_def fake_source_Set_def Let_def)
  have I: "fake_source_Now (NewFakeSource I) = I" by (simp add: fake_source_Now_def NewFakeSource_def)
  have ends: "ends_at ?R (\<lambda>_. None :: 'e option) (Latest I) k \<longleftrightarrow> n \<le> k \<and> time_After (Earliest J) (Latest I)" for k
    using assms by (auto simp: ends_at_def)
  show "\<exists>r. spanner_test I J n (\<lambda>_. None :: 'e option) = Some (r, Latest I, Earliest J) \<and> cw_err r = None \<and>
      cw_readings r = n + 1" if J: "time_After (Earliest J) (Latest I)"
    using CommitWait_at [of ?R "\<lambda>_. None :: 'e option" "Latest I" n] J
    by (auto simp: ends R I spanner_test_def tt_Now_def Let_def)
  show "spanner_test I J n (\<lambda>_. None :: 'e option) = None" if J: "\<not> time_After (Earliest J) (Latest I)"
  proof (cases "CommitWait ?R (\<lambda>_. None :: 'e option) (Latest I)")
    case None
    then show ?thesis by (simp add: spanner_test_def R I tt_Now_def Let_def)
  next
    case (Some r)
    then obtain m where "ends_at ?R (\<lambda>_. None :: 'e option) (Latest I) m" by (rule CommitWait_ends)
    then show ?thesis using J by (simp add: ends)
  qed
qed

lemma TestSpanner_passes:
  "\<exists>r t1 t2. TestSpannerExternalConsistency n (\<lambda>_. None :: unit option) = Some (r, t1, t2) \<and>
    cw_err r = None \<and> time_After t2 t1"
proof -
  note defs = time_Unix_def time_Add_def Millisecond_def time_After_def Let_def
  let ?I = "\<lparr>Earliest = time_Unix 1000 0, Latest = time_Add (time_Unix 1000 0) (7 * Millisecond)\<rparr>"
  let ?J = "\<lparr>Earliest = time_Add (time_Unix 1000 0) (20 * Millisecond), Latest = time_Add (time_Unix 1000 0) (27 * Millisecond)\<rparr>"
  have "\<not> time_After (Earliest ?I) (Latest ?I)" and J: "time_After (Earliest ?J) (Latest ?I)"
    by (simp_all add: defs)
  from spanner_test_result(1) [OF this, where 'e = unit] J show ?thesis
    unfolding TestSpannerExternalConsistency_def Let_def by blast
qed

lemma TestSpannerWithoutCommitWait_violates:
  "case TestSpannerWithoutCommitWait of (t1Commit, t2Pick) \<Rightarrow> time_Before t2Pick t1Commit"
  by (simp add: TestSpannerWithoutCommitWait_def time_Unix_def time_Add_def Millisecond_def time_Before_def
      tt_Now_def fake_source_Now_def NewFakeSource_def Let_def)

section \<open>The examples of the package documentation\<close>

text \<open>\<^verbatim>\<open>vector/doc.go\<close>: the snapshots of \<open>c1.Now\<close> and \<open>c2.Now\<close> with the relation between them.\<close>

definition vector_doc_example :: "snapshot \<times> snapshot \<times> relation" where
  "vector_doc_example =
     (let c1 = vector_New ''n1''; c2 = vector_New ''n2'';
          (c1, s) = vector_Tick c1;
          (c1, msg) = vector_Send c1;
          (c2, s) = vector_Receive msg c2;
          rel = vector_Compare (vector_Now c1) (vector_Now c2)
      in (vector_Now c1, vector_Now c2, rel))"

lemma vector_doc_example_values:
  "vector_doc_example = (\<lparr>sn_nodeID = ''n1'', sn_vec = [(''n1'', 2)]\<rparr>,
     \<lparr>sn_nodeID = ''n2'', sn_vec = [(''n1'', 2), (''n2'', 1)]\<rparr>, Before)"
  by (simp add: vector_doc_example_def vector_New_def vector_Tick_def vector_Send_def vector_Receive_def
      vector_Now_def snapshotLocked_def vector_Compare_def mput_def mget_def mhas_def copy_loop_def Let_def)

text \<open>\<^verbatim>\<open>dotted/doc.go\<close>: the three versions.\<close>

definition dotted_doc_example :: "version \<times> version \<times> version" where
  "dotted_doc_example =
     (let v1 = dotted_Increment ''clientA'' dotted_NewVersion;
          v2 = dotted_Increment ''clientA'' v1;
          v3 = dotted_Increment ''clientB'' v1
      in (v1, v2, v3))"

lemma dotted_doc_example_values:
  "case dotted_doc_example of (v1, v2, v3) \<Rightarrow>
     dots v1 = [(''clientA'', 1)] \<and> dots v2 = [(''clientA'', 2)] \<and> dots v3 = [(''clientA'', 1), (''clientB'', 1)] \<and>
     dotted_Descends v2 v1 \<and> dotted_Concurrent v3 v2"
  by (simp add: dotted_doc_example_def dotted_Increment_def dotted_NewVersion_def dotted_Descends_def
      dotted_Concurrent_def mput_def mget_def copy_loop_def Let_def)

end
