(* ===== verification/Go_Format.thy ===== *)
theory Go_Format
  imports Go_Time Decimal
begin

text \<open>
  How the package \<^verbatim>\<open>time\<close> prints durations and instants, as far as the examples use it: \<^verbatim>\<open>Duration.String\<close>, and
  \<^verbatim>\<open>Time.Format\<close> with the layouts \<^verbatim>\<open>RFC3339Nano\<close> and \<^verbatim>\<open>15:04:05.000000000\<close>. Instants are printed in the local
  time zone, which belongs to the environment: its offset from UTC in seconds is an argument.
\<close>

section \<open>Durations\<close>

text \<open>\<^verbatim>\<open>fmtFrac\<close>: the last \<open>prec\<close> digits of \<open>v\<close> as a fraction without trailing zeros, and the rest of \<open>v\<close>.\<close>

fun fmt_frac :: "nat \<Rightarrow> nat \<Rightarrow> string \<Rightarrow> string \<times> nat" where
  "fmt_frac 0 v acc = (if acc = [] then [] else CHR ''.'' # acc, v)"
| "fmt_frac (Suc prec) v acc =
     fmt_frac prec (v div 10) (if acc \<noteq> [] \<or> v mod 10 \<noteq> 0 then digit (v mod 10) # acc else [])"

lemma fmt_frac_numeral [simp]:
  "fmt_frac (numeral n) v acc =
     fmt_frac (pred_numeral n) (v div 10) (if acc \<noteq> [] \<or> v mod 10 \<noteq> 0 then digit (v mod 10) # acc else [])"
  by (simp only: numeral_eq_Suc fmt_frac.simps)

definition duration_String :: "duration \<Rightarrow> string" where
  "duration_String d =
     (let u = nat \<bar>sint d\<bar>;
          small = (\<lambda>prec unit. let (f, v) = fmt_frac prec u [] in decimal v @ f @ unit);
          text =
            (if u = 0 then ''0s''
             else if u < 1000 then small 0 ''ns''
             else if u < 1000000 then small 3 [CHR 0xC2, CHR 0xB5, CHR ''s'']
             else if u < 1000000000 then small 6 ''ms''
             else
               let (f, v) = fmt_frac 9 u [];
                   s = decimal (v mod 60) @ f @ ''s'';
                   v = v div 60
               in if v = 0 then s
                  else
                    let m = decimal (v mod 60) @ ''m'';
                        v = v div 60
                    in if v = 0 then m @ s else decimal v @ ''h'' @ m @ s)
      in if sint d < 0 then CHR ''-'' # text else text)"

text \<open>Evaluation on numerals only, so that it does not unfold under a \<open>let\<close>.\<close>

lemma decimal_numeral:
  "decimal (numeral n) =
     (if (numeral n :: nat) < 10 then [digit (numeral n)]
      else decimal (numeral n div 10) @ [digit (numeral n mod 10)])"
  "decimal 0 = ''0''" "decimal 1 = ''1''" "decimal (Suc 0) = ''1''"
  by (simp_all add: decimal.simps digit_def char_of_def bit_0)

lemmas decimal_eval = decimal_numeral digit_def char_of_def bit_0

text \<open>The fraction and the rest determine the number: nothing is lost.\<close>

fun frac_value :: "nat \<Rightarrow> string \<Rightarrow> nat" where
  "frac_value 0 s = 0"
| "frac_value (Suc prec) s =
     (case s of [] \<Rightarrow> 0 | c # t \<Rightarrow> (of_char c - 48) * 10 ^ prec + frac_value prec t)"

lemma frac_value_Nil [simp]: "frac_value prec [] = 0"
  by (cases prec) simp_all

lemma fmt_frac_value:
  "fmt_frac prec v acc = (f, w) \<Longrightarrow>
    w = v div 10 ^ prec \<and>
    frac_value (prec + k) (if f = [] then [] else tl f) = (v mod 10 ^ prec) * 10 ^ k + frac_value k acc"
proof (induction prec arbitrary: v acc k)
  case 0
  then show ?case by (auto split: if_splits)
next
  case (Suc prec)
  let ?acc = "if acc \<noteq> [] \<or> v mod 10 \<noteq> 0 then digit (v mod 10) # acc else []"
  have acc: "frac_value (Suc k) ?acc = (v mod 10) * 10 ^ k + frac_value k acc"
    by auto
  have IH: "w = v div 10 div 10 ^ prec"
      "frac_value (prec + Suc k) (if f = [] then [] else tl f) =
        (v div 10 mod 10 ^ prec) * 10 ^ Suc k + frac_value (Suc k) ?acc"
    using Suc.IH [of "v div 10" ?acc "Suc k"] Suc.prems by simp_all
  have "v mod 10 ^ Suc prec = v mod 10 + 10 * (v div 10 mod 10 ^ prec)"
    by (simp add: mod_mult2_eq)
  then show ?case
    using IH acc by (simp add: div_mult2_eq algebra_simps)
qed

section \<open>Dates\<close>

definition leap_year :: "int \<Rightarrow> bool" where
  "leap_year y \<longleftrightarrow> y mod 4 = 0 \<and> (y mod 100 \<noteq> 0 \<or> y mod 400 = 0)"

definition year_days :: "int \<Rightarrow> int" where
  "year_days y = (if leap_year y then 366 else 365)"

definition month_days :: "int \<Rightarrow> int list" where
  "month_days y = [31, if leap_year y then 29 else 28, 31, 30, 31, 30, 31, 31, 30, 31, 30, 31]"

text \<open>The year that holds a day, counted from the start of year \<open>y\<close>, and the day in that year.\<close>

function find_year :: "int \<Rightarrow> int \<Rightarrow> int \<times> int" where
  "find_year y d =
     (if d < 0 then find_year (y - 1) (d + year_days (y - 1))
      else if d < year_days y then (y, d)
      else find_year (y + 1) (d - year_days y))"
  by pat_completeness auto
termination
  by (relation "measure (\<lambda>(y, d). nat (if d < 0 then 400 - d else d))")
    (auto simp: year_days_def split: if_splits)

declare find_year.simps [simp del]

lemma find_year_numeral:
  "find_year (numeral y) (numeral d) =
     (if numeral d < year_days (numeral y) then (numeral y, numeral d)
      else find_year (numeral y + 1) (numeral d - year_days (numeral y)))"
  by (subst find_year.simps) simp

fun find_month :: "nat \<Rightarrow> int list \<Rightarrow> int \<Rightarrow> nat \<times> int" where
  "find_month m [] d = (m, d)"
| "find_month m (n # ns) d = (if d < n then (m, d) else find_month (m + 1) ns (d - n))"

text \<open>Year, month and day of the month of a number of days since 1970-01-01.\<close>

definition civil_date :: "int \<Rightarrow> int \<times> nat \<times> nat" where
  "civil_date days =
     (let (y, yd) = find_year 1970 days;
          (m, md) = find_month 1 (month_days y) yd
      in (y, m, nat md + 1))"

text \<open>The date denotes the day: the days of the years and months before it add up.\<close>

function days_to_year :: "int \<Rightarrow> int" where
  "days_to_year y =
     (if y = 1970 then 0
      else if 1970 < y then days_to_year (y - 1) + year_days (y - 1)
      else days_to_year (y + 1) - year_days y)"
  by pat_completeness auto
termination
  by (relation "measure (\<lambda>y. nat \<bar>y - 1970\<bar>)") auto

declare days_to_year.simps [simp del]

lemma days_to_next_year: "days_to_year (y + 1) = days_to_year y + year_days y"
proof (cases "1970 \<le> y")
  case True
  then show ?thesis by (subst days_to_year.simps) simp
next
  case False
  then show ?thesis by (subst (2) days_to_year.simps) simp
qed

lemma find_year_days:
  "find_year y d = (y', d') \<Longrightarrow> 0 \<le> d' \<and> d' < year_days y' \<and> days_to_year y' + d' = days_to_year y + d"
proof (induction y d rule: find_year.induct)
  case (1 y d)
  show ?case
  proof (cases "d < 0")
    case True
    then show ?thesis
      using 1 days_to_next_year [of "y - 1"] by (subst (asm) (3) find_year.simps) simp
  next
    case False
    then show ?thesis
      using 1 days_to_next_year [of y] by (subst (asm) (3) find_year.simps) (auto split: if_splits)
  qed
qed

lemma find_month_days:
  "find_month m ns d = (m', d') \<Longrightarrow> 0 \<le> d \<Longrightarrow> d < sum_list ns \<Longrightarrow>
    m \<le> m' \<and> m' < m + length ns \<and> 0 \<le> d' \<and> d' < ns ! (m' - m) \<and> sum_list (take (m' - m) ns) + d' = d"
proof (induction m ns d rule: find_month.induct)
  case (2 m n ns d)
  show ?case
  proof (cases "d < n")
    case False
    have "find_month (m + 1) ns (d - n) = (m', d')" "0 \<le> d - n" "d - n < sum_list ns"
      using "2.prems" False by simp_all
    note IH = "2.IH" [OF False this]
    then obtain k where k: "m' - m = Suc k" "m' - (m + 1) = k" by (cases "m' - m") auto
    then show ?thesis using IH unfolding k by auto
  qed (use "2.prems" in auto)
qed simp

lemma civil_date_days:
  assumes "civil_date days = (y, m, d)"
  shows "1 \<le> m \<and> m \<le> 12 \<and> 1 \<le> d \<and> int d \<le> month_days y ! (m - 1) \<and>
    days_to_year y + sum_list (take (m - 1) (month_days y)) + int d - 1 = days"
proof -
  obtain yd md where f: "find_year 1970 days = (y, yd)" "find_month 1 (month_days y) yd = (m, md)"
      and d: "d = nat md + 1"
    using assms by (auto simp: civil_date_def split: prod.splits)
  have yd: "0 \<le> yd" "yd < year_days y" "days_to_year y + yd = days"
    using find_year_days [OF f(1)] by (simp_all add: days_to_year.simps [of 1970])
  have "sum_list (month_days y) = year_days y" "length (month_days y) = 12"
    by (simp_all add: month_days_def year_days_def)
  then have "1 \<le> m \<and> m < 1 + 12 \<and> 0 \<le> md \<and> md < month_days y ! (m - 1) \<and>
      sum_list (take (m - 1) (month_days y)) + md = yd"
    using find_month_days [OF f(2) yd(1)] yd(2) by simp
  then show ?thesis using yd(3) d by auto
qed

section \<open>Instants\<close>

definition pad0 :: "nat \<Rightarrow> nat \<Rightarrow> string" where
  "pad0 w n = replicate (w - length (decimal n)) CHR ''0'' @ decimal n"

lemma replicate_numeral [simp]: "replicate (numeral n) x = x # replicate (pred_numeral n) x"
  by (simp only: numeral_eq_Suc replicate_Suc)

definition local_seconds :: "int \<Rightarrow> gotime \<Rightarrow> int" where
  "local_seconds zone t = wall_ns t div 10 ^ 9 + zone"

definition nanosecond :: "gotime \<Rightarrow> nat" where
  "nanosecond t = nat (wall_ns t mod 10 ^ 9)"

definition clock_text :: "int \<Rightarrow> string" where
  "clock_text secs =
     (let s = nat (secs mod 86400)
      in pad0 2 (s div 3600) @ '':'' @ pad0 2 (s div 60 mod 60) @ '':'' @ pad0 2 (s mod 60))"

text \<open>The layout \<^verbatim>\<open>15:04:05.000000000\<close>.\<close>

definition format_clock :: "int \<Rightarrow> gotime \<Rightarrow> string" where
  "format_clock zone t = clock_text (local_seconds zone t) @ ''.'' @ pad0 9 (nanosecond t)"

text \<open>The layout \<^verbatim>\<open>RFC3339Nano\<close>, \<^verbatim>\<open>2006-01-02T15:04:05.999999999Z07:00\<close>.\<close>

definition zone_text :: "int \<Rightarrow> string" where
  "zone_text zone =
     (if zone = 0 then ''Z''
      else
        let m = nat (\<bar>zone\<bar> div 60)
        in (if zone < 0 \<and> m \<noteq> 0 then ''-'' else ''+'') @ pad0 2 (m div 60) @ '':'' @ pad0 2 (m mod 60))"

definition format_RFC3339Nano :: "int \<Rightarrow> gotime \<Rightarrow> string" where
  "format_RFC3339Nano zone t =
     (let secs = local_seconds zone t;
          (y, m, d) = civil_date (secs div 86400)
      in (if y < 0 then ''-'' else []) @ pad0 4 (nat \<bar>y\<bar>) @ ''-'' @ pad0 2 m @ ''-'' @ pad0 2 d @ ''T'' @
         clock_text secs @ fst (fmt_frac 9 (nanosecond t) []) @ zone_text zone)"

end
