(* ===== verification/Output.thy ===== *)
theory Output
  imports Messaging Examples Hlc_Encode Vector_KV Go_Format
begin

text \<open>
  What the example programs print, line by line. Text is a list of bytes, as in Go. Times are
  printed in the local zone, whose offset \<open>zone\<close> from UTC is an argument.
\<close>

section \<open>Text\<close>

text \<open>The UTF-8 encodings of the arrow, the dash and the bullet in the messages.\<close>

definition arrow :: string where
  "arrow = [CHR 0xE2, CHR 0x86, CHR 0x92]"

definition em_dash :: string where
  "em_dash = [CHR 0xE2, CHR 0x80, CHR 0x94]"

definition bullet :: string where
  "bullet = [CHR 0xE2, CHR 0x80, CHR 0xA2]"

definition fmt_u64 :: "u64 \<Rightarrow> string" where
  "fmt_u64 w = fmt_int (int (unat w))"

text \<open>\<^verbatim>\<open>%-4s\<close>\<close>

definition pad4 :: "string \<Rightarrow> string" where
  "pad4 s = s @ replicate (4 - length s) CHR '' ''"

section \<open>The messaging example\<close>

definition event_line :: "log_event \<Rightarrow> string" where
  "event_line e = ''  ts='' @ fmt_u64 (ev_stamp e) @ ''  '' @ ev_process e @ ''  '' @ pad4 (ev_kind e) @ ''  '' @ ev_detail e"

definition messaging_output :: "msg_state \<Rightarrow> string list" where
  "messaging_output s =
     [''Events sorted by Lamport timestamp:'', ''-----------------------------------''] @
     List.map event_line (printed s) @
     ['''', ''Notice:'',
      ''  '' @ bullet @ '' A's local events appear in A's order; same for B's.'',
      ''  '' @ bullet @ '' Every send appears before its receive.'',
      ''  '' @ bullet @ '' Events with equal timestamps are concurrent.'']"

lemma final_log_eq:
  "final_log =
    [\<lparr>ev_process = ''A'', ev_kind = ''tick'', ev_detail = ''loading config'', ev_stamp = 1\<rparr>,
     \<lparr>ev_process = ''B'', ev_kind = ''tick'', ev_detail = ''warming up'', ev_stamp = 1\<rparr>,
     \<lparr>ev_process = ''A'', ev_kind = ''tick'', ev_detail = ''init complete'', ev_stamp = 2\<rparr>,
     \<lparr>ev_process = ''A'', ev_kind = ''send'', ev_detail = quoted ''hello'' @ '' to B'', ev_stamp = 3\<rparr>,
     \<lparr>ev_process = ''B'', ev_kind = ''recv'', ev_detail = quoted ''hello'' @ '' from A'', ev_stamp = 4\<rparr>,
     \<lparr>ev_process = ''B'', ev_kind = ''send'', ev_detail = quoted ''world'' @ '' to A'', ev_stamp = 5\<rparr>,
     \<lparr>ev_process = ''A'', ev_kind = ''recv'', ev_detail = quoted ''world'' @ '' from B'', ev_stamp = 6\<rparr>,
     \<lparr>ev_process = ''A'', ev_kind = ''tick'', ev_detail = ''shutting down'', ev_stamp = 7\<rparr>]"
  by (simp add: final_log_def entries_A_def entries_B_def word_le_nat_alt)

text \<open>The same text under every schedule.\<close>

lemma messaging_output_lines:
  assumes "reach s" and "finished s"
  shows "take 8 (drop 2 (messaging_output s)) =
    [''  ts=1  A  tick  loading config'', ''  ts=1  B  tick  warming up'', ''  ts=2  A  tick  init complete'',
     ''  ts=3  A  send  '' @ quoted ''hello'' @ '' to B'', ''  ts=4  B  recv  '' @ quoted ''hello'' @ '' from A'',
     ''  ts=5  B  send  '' @ quoted ''world'' @ '' to A'', ''  ts=6  A  recv  '' @ quoted ''world'' @ '' from B'',
     ''  ts=7  A  tick  shutting down'']"
  using finished_printed [OF reach_inv [OF assms(1)] assms(2)]
  by (simp add: messaging_output_def final_log_eq event_line_def pad4_def fmt_u64_def fmt_int_def
      decimal.simps digit_def char_of_def bit_0)

section \<open>The vector store example\<close>

fun row_lines :: "nat \<Rightarrow> versionedValue list \<Rightarrow> string list" where
  "row_lines i [] = []"
| "row_lines i (r # rs) =
     (''    ['' @ fmt_int (int i) @ ''] '' @ quoted (row_value r) @ ''  version='' @ versionStr (row_version r)) #
     row_lines (i + 1) rs"

definition kv_output :: "string list" where
  "kv_output =
     (let db = newStore; clientA = vector_New ''clientA''; clientB = vector_New ''clientB'';
          out = [''Step 1: Client A writes the initial value.''];
          (clientA, initial) = vector_Send clientA;
          db = kv_write ''user:42'' ''Alice'' initial db;
          out = out @ [''  store: '' @ quoted ''Alice'' @ '' version='' @ versionStr initial, ''''];
          out = out @ [''Step 2: Client B catches up via replication.''];
          (clientB, s) = vector_Receive initial clientB;
          out = out @ [''  clientB version='' @ versionStr (vector_Now clientB), ''''];
          out = out @ [''Step 3: Both clients edit concurrently (neither sees the other).''];
          (clientA, aWrite) = vector_Send clientA;
          (clientB, bWrite) = vector_Send clientB;
          db = kv_write ''user:42'' ''Alice (edited by A)'' aWrite db;
          db = kv_write ''user:42'' ''Alice (edited by B)'' bWrite db;
          out = out @ [''  A wrote '' @ quoted ''Alice (edited by A)'' @ ''  version='' @ versionStr aWrite,
                       ''  B wrote '' @ quoted ''Alice (edited by B)'' @ ''  version='' @ versionStr bWrite, ''''];
          out = out @ [''Step 4: Read.''];
          rs = kv_read ''user:42'' db;
          out = out @ [''  store returned '' @ fmt_int (int (length rs)) @ '' row(s):''] @ row_lines 0 rs
      in if length rs > 1
         then out @ ['''', ''CONFLICT DETECTED '' @ em_dash @ '' application must resolve siblings.'',
                     ''(With last-write-wins, one of these writes would have been silently discarded.)'']
         else out)"

text \<open>Both edits are printed, and the conflict is announced.\<close>

lemma kv_output_lines:
  "kv_output =
     [''Step 1: Client A writes the initial value.'',
      ''  store: '' @ quoted ''Alice'' @ '' version={clientA:1}'', '''',
      ''Step 2: Client B catches up via replication.'', ''  clientB version={clientA:1, clientB:1}'', '''',
      ''Step 3: Both clients edit concurrently (neither sees the other).'',
      ''  A wrote '' @ quoted ''Alice (edited by A)'' @ ''  version={clientA:2}'',
      ''  B wrote '' @ quoted ''Alice (edited by B)'' @ ''  version={clientA:1, clientB:2}'', '''',
      ''Step 4: Read.'', ''  store returned 2 row(s):'',
      ''    [0] '' @ quoted ''Alice (edited by A)'' @ ''  version={clientA:2}'',
      ''    [1] '' @ quoted ''Alice (edited by B)'' @ ''  version={clientA:1, clientB:2}'', '''',
      ''CONFLICT DETECTED '' @ em_dash @ '' application must resolve siblings.'',
      ''(With last-write-wins, one of these writes would have been silently discarded.)'']"
proof -
  let ?A = "\<lambda>m. \<lparr>vc_nodeID = ''clientA'', vc_vec = m\<rparr>" and ?B = "\<lambda>m. \<lparr>vc_nodeID = ''clientB'', vc_vec = m\<rparr>"
  let ?a = "\<lambda>m. \<lparr>sn_nodeID = ''clientA'', sn_vec = m\<rparr>" and ?b = "\<lambda>m. \<lparr>sn_nodeID = ''clientB'', sn_vec = m\<rparr>"
  let ?row = "\<lambda>v s. \<lparr>row_value = v, row_version = s\<rparr>"
  let ?a1 = "[(''clientA'', 1)] :: counters" and ?a2 = "[(''clientA'', 2)] :: counters"
  let ?b1 = "[(''clientA'', 1), (''clientB'', 1)] :: counters" and ?b2 = "[(''clientA'', 1), (''clientB'', 2)] :: counters"
  note clock = vector_New_def vector_Send_def vector_Receive_def vector_Now_def snapshotLocked_def copy_loop_def
    mget_def mput_def Let_def
  have c: "vector_Send (vector_New ''clientA'') = (?A ?a1, ?a ?a1)"
    "vector_Receive (?a ?a1) (vector_New ''clientB'') = (?B ?b1, ?b ?b1)"
    "vector_Send (?A ?a1) = (?A ?a2, ?a ?a2)" "vector_Send (?B ?b1) = (?B ?b2, ?b ?b2)" "vector_Now (?B ?b1) = ?b ?b1"
    by (simp_all add: clock)
  have v: "versionStr (?a ?a1) = ''{clientA:1}''" "versionStr (?a ?a2) = ''{clientA:2}''"
    "versionStr (?b ?b1) = ''{clientA:1, clientB:1}''" "versionStr (?b ?b2) = ''{clientA:1, clientB:2}''"
    by (simp_all add: versionStr_def snapshot_Nodes_def snapshot_Get_def mget_def fmt_int_def decimal.simps digit_def
        char_of_def bit_0 Let_def)
  have r: "kv_read ''user:42'' (kv_write ''user:42'' ''Alice (edited by B)'' (?b ?b2)
      (kv_write ''user:42'' ''Alice (edited by A)'' (?a ?a2) (kv_write ''user:42'' ''Alice'' (?a ?a1) newStore))) =
      [?row ''Alice (edited by A)'' (?a ?a2), ?row ''Alice (edited by B)'' (?b ?b2)]"
    by (simp add: newStore_def kv_write_def kv_read_def vector_Compare_def mget_def mhas_def mput_def Let_def)
  have d: "fmt_int 0 = ''0''" "fmt_int 1 = ''1''" "fmt_int 2 = ''2''"
    by (simp_all add: fmt_int_def decimal.simps digit_def char_of_def bit_0)
  show ?thesis by (simp add: kv_output_def c v r d Let_def)
qed

section \<open>The hybrid clock example\<close>

definition hlc_db_output :: "int \<Rightarrow> string list" where
  "hlc_db_output zone =
     (let base = time_Unix 1700000000 0;
          fake1 = NewFake base;
          fake2 = NewFake (time_Add base (30 * Millisecond));
          node1 = hlc_New;
          node2 = hlc_New;
          out = [''Node 1 wall clock: '' @ format_RFC3339Nano zone (fake_Now fake1),
                 ''Node 2 wall clock: '' @ format_RFC3339Nano zone (fake_Now fake2) @ ''  (30ms ahead of Node 1)'', ''''];
          out = out @ [''Round 1: Node 1 ships an update to Node 2.''];
          (node1, msg1) = hlc_Send (fake_NowNanos fake1) node1;
          out = out @ [''  Node 1 sends with HLC = '' @ ts_String msg1];
          (node2, r2) = hlc_Receive (fake_NowNanos fake2) msg1 node2;
          t2 = received r2;
          out = out @ [''  Node 2 receives; HLC  = '' @ ts_String t2];
          out = out @ (if ts_Less msg1 t2
            then [''  '' @ arrow @ '' Node 2's HLC strictly exceeds the message's. Causality preserved.''] else []);
          out = out @ ['''', ''Round 2: Node 2 ships an update to Node 1 (whose wall is BEHIND).''];
          (node2, msg2) = hlc_Send (fake_NowNanos fake2) node2;
          out = out @ [''  Node 2 sends with HLC = '' @ ts_String msg2];
          (node1, r1) = hlc_Receive (fake_NowNanos fake1) msg2 node1;
          t1 = received r1;
          out = out @ [''  Node 1 receives; HLC  = '' @ ts_String t1]
      in out @ (if ts_Less msg2 t1
         then [''  '' @ arrow @ '' Node 1 absorbed Node 2's 'future' WallTime. Causality preserved despite skew.'',
               ''    (Node 1's WallTime jumped from base to base+30ms; logical = '' @
                 fmt_int (int (unat (Logical t1))) @ ''.)'']
         else []))"

text \<open>Both conditions hold and the counter is 2.\<close>

lemma hlc_db_output_lines:
  "drop 3 (hlc_db_output zone) =
     [''Round 1: Node 1 ships an update to Node 2.'',
      ''  Node 1 sends with HLC = 1700000000000000000.0'',
      ''  Node 2 receives; HLC  = 1700000000030000000.0'',
      ''  '' @ arrow @ '' Node 2's HLC strictly exceeds the message's. Causality preserved.'', '''',
      ''Round 2: Node 2 ships an update to Node 1 (whose wall is BEHIND).'',
      ''  Node 2 sends with HLC = 1700000000030000000.1'',
      ''  Node 1 receives; HLC  = 1700000000030000000.2'',
      ''  '' @ arrow @ '' Node 1 absorbed Node 2's 'future' WallTime. Causality preserved despite skew.'',
      ''    (Node 1's WallTime jumped from base to base+30ms; logical = 2.)'']"
proof -
  let ?t1 = "1700000000000000000 :: i64" and ?t2 = "1700000000030000000 :: i64"
  let ?clock = "\<lambda>l c. \<lparr>hlc_state = Timestamp l c, hlc_maxDrift = 0\<rparr>"
  have f: "fake_NowNanos (NewFake (time_Unix 1700000000 0)) = ?t1"
    "fake_NowNanos (NewFake (time_Add (time_Unix 1700000000 0) (30 * Millisecond))) = ?t2"
    by (simp_all add: time_Unix_def time_Add_def fake_defs time_UnixNano_def Millisecond_def Let_def)
  have c: "hlc_Send ?t1 hlc_New = (?clock ?t1 0, Timestamp ?t1 0)"
    "hlc_Receive ?t2 (Timestamp ?t1 0) hlc_New = (?clock ?t2 0, Inr (Timestamp ?t2 0))"
    "hlc_Send ?t2 (?clock ?t2 0) = (?clock ?t2 1, Timestamp ?t2 1)"
    "hlc_Receive ?t1 (Timestamp ?t2 1) (?clock ?t1 0) = (?clock ?t2 2, Inr (Timestamp ?t2 2))"
    by (simp_all add: hlc_defs smax_def word_sless_alt)
  have s: "ts_String (Timestamp ?t1 0) = ''1700000000000000000.0''" "ts_String (Timestamp ?t2 0) = ''1700000000030000000.0''"
    "ts_String (Timestamp ?t2 1) = ''1700000000030000000.1''" "ts_String (Timestamp ?t2 2) = ''1700000000030000000.2''"
    "fmt_int 2 = ''2''"
    by (simp_all add: ts_String_def fmt_int_def decimal.simps digit_def char_of_def bit_0)
  show ?thesis
    by (simp add: hlc_db_output_def f c s received_def ts_Less_def word_sless_alt Let_def)
qed

text \<open>The wall clocks printed first, where the local zone is UTC.\<close>

lemma hlc_db_output_walls:
  "take 2 (hlc_db_output 0) =
     [''Node 1 wall clock: 2023-11-14T22:13:20Z'',
      ''Node 2 wall clock: 2023-11-14T22:13:20.03Z  (30ms ahead of Node 1)'']"
proof -
  have d: "civil_date 19675 = (2023, 11, 14)"
    by (simp add: civil_date_def find_year_numeral year_days_def month_days_def leap_year_def)
  have "format_RFC3339Nano 0 (fake_Now (NewFake (time_Unix 1700000000 0))) = ''2023-11-14T22:13:20Z''"
    "format_RFC3339Nano 0 (fake_Now (NewFake (time_Add (time_Unix 1700000000 0) (30 * Millisecond)))) =
      ''2023-11-14T22:13:20.03Z''"
    by (simp_all add: format_RFC3339Nano_def clock_text_def local_seconds_def nanosecond_def pad0_def zone_text_def d
        fake_defs time_Unix_def time_Add_def Millisecond_def decimal_eval Let_def)
  then show ?thesis by (simp add: hlc_db_output_def Let_def case_prod_beta)
qed

section \<open>The external consistency example\<close>

text \<open>
  \<open>since\<close> is the real time the wait took, and \<open>fmt_err\<close> prints its error, in which case the program ends there.
  The goroutine sets the source after \<open>n\<close> readings, as in \<open>external_B\<close>; \<open>None\<close> is a wait that does not return.
\<close>

definition external_output_A :: "int \<Rightarrow> string list" where
  "external_output_A zone =
     (let src = NewFakeSource external_initial;
          t1 = Latest (tt_Now (fake_source_Now src));
          t2 = Earliest (tt_Now (fake_source_Now src))
      in [''=== Scenario A: no commit-wait ==='', ''T1 picks commit timestamp = '' @ format_clock zone t1,
          ''T2 starts, picks Earliest = '' @ format_clock zone t2] @
         (if time_Before t2 t1
          then [arrow @ '' VIOLATION: T2 is '' @ duration_String (time_Sub t1 t2) @ '' earlier than T1.'',
                ''  An observer who saw T1 commit would see T2 get an EARLIER timestamp.'']
          else []) @ [''''])"

definition external_output_B ::
  "int \<Rightarrow> ('e \<Rightarrow> string) \<Rightarrow> duration \<Rightarrow> nat \<Rightarrow> (nat \<Rightarrow> 'e option) \<Rightarrow>
    string list option" where
  "external_output_B zone fmt_err since n done =
     (let src = NewFakeSource external_initial;
          t1 = Latest (tt_Now (fake_source_Now src));
          out = [''=== Scenario B: with commit-wait ==='', ''T1 picks commit timestamp = '' @ format_clock zone t1,
                 ''T1 calls CommitWait '' @ em_dash @ '' blocking until the clock is provably past t1...''];
          readings = (\<lambda>k. fake_source_Now (if k < n then src else external_later src))
      in case CommitWait readings done t1 of
           None \<Rightarrow> None
         | Some r \<Rightarrow>
             (case cw_err r of
                Some e \<Rightarrow> Some (out @ [''FAIL: '' @ fmt_err e])
              | None \<Rightarrow>
                  let out = out @ [''CommitWait returned after '' @ duration_String since @ '' of real time.''];
                      t2 = Earliest (tt_Now (readings (cw_readings r)));
                      out = out @ [''T2 starts, picks Earliest = '' @ format_clock zone t2]
                  in Some (out @ (if time_After t2 t1
                       then [arrow @ '' OK: T2 is '' @ duration_String (time_Sub t2 t1) @ '' AFTER T1. External consistency holds.'']
                       else []))))"

lemma duration_millis:
  "duration_String (7 * Millisecond) = ''7ms''" "duration_String (23 * Millisecond) = ''23ms''"
  by (simp_all add: duration_String_def Millisecond_def decimal_eval Let_def)

text \<open>Where the local zone is UTC, the first scenario prints this.\<close>

lemma external_output_A_lines:
  "external_output_A 0 =
     [''=== Scenario A: no commit-wait ==='', ''T1 picks commit timestamp = 22:13:20.007000000'',
      ''T2 starts, picks Earliest = 22:13:20.000000000'', arrow @ '' VIOLATION: T2 is 7ms earlier than T1.'',
      ''  An observer who saw T1 commit would see T2 get an EARLIER timestamp.'', '''']"
proof -
  have "format_clock 0 (Latest external_initial) = ''22:13:20.007000000''"
    "format_clock 0 (Earliest external_initial) = ''22:13:20.000000000''"
    by (simp_all add: format_clock_def clock_text_def local_seconds_def nanosecond_def pad0_def external_initial_def
        external_base_def time_Unix_def time_Add_def Millisecond_def decimal_eval Let_def)
  then show ?thesis
    using external_A_violation duration_millis
    by (simp add: external_A_def external_output_A_def NewFakeSource_def tt_Now_def fake_source_Now_def Let_def)
qed

text \<open>An uncancelled wait always ends, and then the program confirms external consistency by 23ms.\<close>

lemma external_output_B_ends:
  "\<exists>out. external_output_B zone fmt_err since n (\<lambda>_. None :: 'e option) = Some out \<and>
    last out = arrow @ '' OK: T2 is '' @ duration_String (23 * Millisecond) @ '' AFTER T1. External consistency holds.''"
proof -
  let ?I = external_initial and ?J = "fake_source_Now (external_later (NewFakeSource external_initial))"
  let ?R = "\<lambda>k. if k < n then ?I else ?J"
  note defs = external_initial_def external_base_def external_later_def NewFakeSource_def fake_source_Now_def
    fake_source_Set_def time_Unix_def time_Add_def Millisecond_def time_After_def
  have R: "fake_source_Now (if k < n then NewFakeSource ?I else external_later (NewFakeSource ?I)) = ?R k" for k
    by (simp add: fake_source_Now_def NewFakeSource_def)
  have I: "fake_source_Now (NewFakeSource ?I) = ?I" by (simp add: fake_source_Now_def NewFakeSource_def)
  have e: "ends_at ?R (\<lambda>_. None :: 'e option) (Latest ?I) n" "\<forall>k < n. \<not> ends_at ?R (\<lambda>_. None :: 'e option) (Latest ?I) k"
    and J: "time_After (Earliest ?J) (Latest ?I)"
    by (simp_all add: ends_at_def defs)
  have d: "time_Sub (Earliest ?J) (Latest ?I) = 23 * Millisecond"
    by (simp add: defs time_Sub_def saturate_def)
  show ?thesis
    using CommitWait_at [OF e] J by (simp add: external_output_B_def R I tt_Now_def d Let_def)
qed

end
