(* ===== verification/Mutex.thy ===== *)
theory Mutex
  imports Prelude
begin

text \<open>
  Methods that run in several goroutines on one object guarded by a \<^verbatim>\<open>sync.Mutex\<close> or a
  \<^verbatim>\<open>sync.RWMutex\<close>. Here a method is not one step: its body is a list of statements, each of which
  reads or writes the shared object once, and the scheduler may switch goroutines between any two
  of them. The locale \<open>mutex_object\<close> shows that, if every body is run between the lock and the
  deferred unlock, the callers cannot tell: each history of calls and returns is one of an object
  whose methods are atomic. This is what lets the theories of the clocks treat a method as one step.
\<close>

section \<open>Method bodies\<close>

text \<open>One access to the shared object \<open>'s\<close>; \<open>'r\<close> are the local variables of the method.\<close>

datatype ('s, 'r) act =
    Read "'s \<Rightarrow> 'r \<Rightarrow> 'r"
  | Write "'r \<Rightarrow> 's \<Rightarrow> 's"

text \<open>
  \<open>Range f\<close> is a \<^verbatim>\<open>range\<close> loop, unrolled over the entries present when the loop is reached;
  \<open>ReturnIf b v\<close> is \<^verbatim>\<open>if b { return v }\<close>, which skips the rest of the body but not the deferred unlock.
\<close>

datatype ('s, 'r) stmt =
    Do "('s, 'r) act"
  | Range "'s \<Rightarrow> 'r \<Rightarrow> ('s, 'r) act list"
  | ReturnIf "'s \<Rightarrow> 'r \<Rightarrow> bool" "'s \<Rightarrow> 'r \<Rightarrow> 'r"

fun act_effect :: "('s, 'r) act \<Rightarrow> 's \<times> 'r \<Rightarrow> 's \<times> 'r" where
  "act_effect (Read f) (s, r) = (s, f s r)"
| "act_effect (Write f) (s, r) = (f r s, r)"

fun stmt_step :: "('s, 'r) stmt \<Rightarrow> ('s, 'r) stmt list \<Rightarrow> 's \<times> 'r \<Rightarrow> ('s, 'r) stmt list \<times> ('s \<times> 'r)" where
  "stmt_step (Do a) rest x = (rest, act_effect a x)"
| "stmt_step (Range f) rest (s, r) = (map Do (f s r) @ rest, (s, r))"
| "stmt_step (ReturnIf b v) rest (s, r) = (if b s r then ([], (s, v s r)) else (rest, (s, r)))"

text \<open>The body run to its end without interruption.\<close>

fun run_body :: "('s, 'r) stmt list \<Rightarrow> 's \<times> 'r \<Rightarrow> 's \<times> 'r" where
  "run_body [] x = x"
| "run_body (Do a # rest) x = run_body rest (act_effect a x)"
| "run_body (Range f # rest) (s, r) = run_body rest (fold act_effect (f s r) (s, r))"
| "run_body (ReturnIf b v # rest) (s, r) = (if b s r then (s, v s r) else run_body rest (s, r))"

lemma run_body_Do: "run_body (map Do acts @ rest) x = run_body rest (fold act_effect acts x)"
  by (induction acts arbitrary: x) simp_all

text \<open>A single step does not change where the body ends.\<close>

lemma run_body_step: "stmt_step i rest x = (code, y) \<Longrightarrow> run_body code y = run_body (i # rest) x"
  by (cases i; cases x) (auto simp: run_body_Do split: if_splits)

text \<open>A body that may run under the read lock only reads.\<close>

fun reads :: "('s, 'r) act \<Rightarrow> bool" where
  "reads (Read f) = True"
| "reads (Write f) = False"

fun only_reads :: "('s, 'r) stmt \<Rightarrow> bool" where
  "only_reads (Do a) = reads a"
| "only_reads (Range f) = (\<forall>s r. list_all reads (f s r))"
| "only_reads (ReturnIf b v) = True"

lemma reads_effect: "reads a \<Longrightarrow> fst (act_effect a x) = fst x"
  by (cases a; cases x) auto

lemma only_reads_step:
  "stmt_step i rest x = (code, y) \<Longrightarrow> only_reads i \<Longrightarrow> list_all only_reads rest \<Longrightarrow>
    fst y = fst x \<and> list_all only_reads code"
  by (cases i; cases x) (auto simp: reads_effect list_all_iff split: if_splits)

lemma reads_effects: "list_all reads acts \<Longrightarrow> fst (fold act_effect acts x) = fst x"
  by (induction acts arbitrary: x) (auto simp: reads_effect)

lemma only_reads_body: "list_all only_reads code \<Longrightarrow> fst (run_body code x) = fst x"
  by (induction code x rule: run_body.induct) (auto simp: reads_effect reads_effects)

section \<open>Goroutines\<close>

datatype lock_mode = Exclusive | Shared

text \<open>
  A goroutine is between calls, blocked on the lock, inside the body with the statements still to
  run, or has released the lock and is about to return.
\<close>

datatype ('call, 's, 'r, 'res) goroutine =
    Idle
  | Waiting 'call
  | Inside 'call "('s, 'r) stmt list" 'r
  | Returning 'call 'res

record ('call, 's, 'r, 'res) system =
  shared :: 's
  writer :: "nat option"
  readers :: "nat set"
  threads :: "nat \<Rightarrow> ('call, 's, 'r, 'res) goroutine"

text \<open>What an observer sees: goroutine \<open>t\<close> calls a method, and a call returns.\<close>

datatype ('call, 'res) call_event = Inv nat 'call | Ret nat 'call 'res

text \<open>
  The steps, with the events they show. \<open>Lock\<close> waits for all others, \<open>RLock\<close> for a writer only.
\<close>

inductive sys_step ::
  "('call \<Rightarrow> lock_mode) \<Rightarrow> ('call \<Rightarrow> ('s, 'r) stmt list) \<Rightarrow> 'r \<Rightarrow> ('r \<Rightarrow> 'res) \<Rightarrow>
    ('call, 's, 'r, 'res) system \<Rightarrow> ('call, 'res) call_event list \<Rightarrow> ('call, 's, 'r, 'res) system \<Rightarrow> bool"
  for mode body reg result
where
  call: "threads \<sigma> t = Idle \<Longrightarrow>
    sys_step mode body reg result \<sigma> [Inv t c] (\<sigma>\<lparr>threads := (threads \<sigma>)(t := Waiting c)\<rparr>)"
| lock: "threads \<sigma> t = Waiting c \<Longrightarrow> mode c = Exclusive \<Longrightarrow> writer \<sigma> = None \<Longrightarrow> readers \<sigma> = {} \<Longrightarrow>
    sys_step mode body reg result \<sigma> []
      (\<sigma>\<lparr>writer := Some t, threads := (threads \<sigma>)(t := Inside c (body c) reg)\<rparr>)"
| rlock: "threads \<sigma> t = Waiting c \<Longrightarrow> mode c = Shared \<Longrightarrow> writer \<sigma> = None \<Longrightarrow>
    sys_step mode body reg result \<sigma> []
      (\<sigma>\<lparr>readers := insert t (readers \<sigma>), threads := (threads \<sigma>)(t := Inside c (body c) reg)\<rparr>)"
| exec: "threads \<sigma> t = Inside c (i # rest) r \<Longrightarrow> stmt_step i rest (shared \<sigma>, r) = (code, s', r') \<Longrightarrow>
    sys_step mode body reg result \<sigma> []
      (\<sigma>\<lparr>shared := s', threads := (threads \<sigma>)(t := Inside c code r')\<rparr>)"
| unlock: "threads \<sigma> t = Inside c [] r \<Longrightarrow> mode c = Exclusive \<Longrightarrow>
    sys_step mode body reg result \<sigma> []
      (\<sigma>\<lparr>writer := None, threads := (threads \<sigma>)(t := Returning c (result r))\<rparr>)"
| runlock: "threads \<sigma> t = Inside c [] r \<Longrightarrow> mode c = Shared \<Longrightarrow>
    sys_step mode body reg result \<sigma> []
      (\<sigma>\<lparr>readers := readers \<sigma> - {t}, threads := (threads \<sigma>)(t := Returning c (result r))\<rparr>)"
| return: "threads \<sigma> t = Returning c v \<Longrightarrow>
    sys_step mode body reg result \<sigma> [Ret t c v] (\<sigma>\<lparr>threads := (threads \<sigma>)(t := Idle)\<rparr>)"


definition sys_start :: "'s \<Rightarrow> ('call, 's, 'r, 'res) system" where
  "sys_start s = \<lparr>shared = s, writer = None, readers = {}, threads = (\<lambda>_. Idle)\<rparr>"

text \<open>
  The same steps as a function: \<open>go\<close> moves goroutine \<open>t\<close>, which calls \<open>next\<close> if it is idle. \<open>None\<close> means
  that it cannot move. \<open>schedule\<close> moves one goroutine after the other.
\<close>

definition go ::
  "('call \<Rightarrow> lock_mode) \<Rightarrow> ('call \<Rightarrow> ('s, 'r) stmt list) \<Rightarrow> 'r \<Rightarrow> ('r \<Rightarrow> 'res) \<Rightarrow>
    nat \<Rightarrow> 'call option \<Rightarrow> ('call, 's, 'r, 'res) system \<Rightarrow>
    (('call, 'res) call_event list \<times> ('call, 's, 'r, 'res) system) option" where
  "go mode body reg result t next \<sigma> =
     (let set = (\<lambda>g. (threads \<sigma>)(t := g))
      in case threads \<sigma> t of
           Idle \<Rightarrow> (case next of None \<Rightarrow> None
             | Some c \<Rightarrow> Some ([Inv t c], \<sigma>\<lparr>threads := set (Waiting c)\<rparr>))
         | Waiting c \<Rightarrow>
             (case mode c of
                Exclusive \<Rightarrow> if writer \<sigma> = None \<and> readers \<sigma> = {}
                  then Some ([], \<sigma>\<lparr>writer := Some t, threads := set (Inside c (body c) reg)\<rparr>) else None
              | Shared \<Rightarrow> if writer \<sigma> = None
                  then Some ([], \<sigma>\<lparr>readers := insert t (readers \<sigma>), threads := set (Inside c (body c) reg)\<rparr>)
                  else None)
         | Inside c code r \<Rightarrow>
             (case code of
                i # rest \<Rightarrow> (case stmt_step i rest (shared \<sigma>, r) of (code, s', r') \<Rightarrow>
                  Some ([], \<sigma>\<lparr>shared := s', threads := set (Inside c code r')\<rparr>))
              | [] \<Rightarrow> (case mode c of
                   Exclusive \<Rightarrow> Some ([], \<sigma>\<lparr>writer := None, threads := set (Returning c (result r))\<rparr>)
                 | Shared \<Rightarrow> Some ([], \<sigma>\<lparr>readers := readers \<sigma> - {t}, threads := set (Returning c (result r))\<rparr>)))
         | Returning c v \<Rightarrow> Some ([Ret t c v], \<sigma>\<lparr>threads := set Idle\<rparr>))"

lemma go_step:
  "go mode body reg result t next \<sigma> = Some (l, \<sigma>') \<Longrightarrow> sys_step mode body reg result \<sigma> l \<sigma>'"
  unfolding go_def Let_def
  by (auto intro: sys_step.intros split: goroutine.splits option.splits lock_mode.splits list.splits
      if_splits prod.splits)

lemma step_go:
  assumes "sys_step mode body reg result \<sigma> l \<sigma>'"
  shows "\<exists>t next. go mode body reg result t next \<sigma> = Some (l, \<sigma>')"
  using assms
proof (cases rule: sys_step.cases)
  case (call t c)
  then have "go mode body reg result t (Some c) \<sigma> = Some (l, \<sigma>')" by (simp add: go_def)
  then show ?thesis by blast
next
  case (lock t c)
  then have "go mode body reg result t None \<sigma> = Some (l, \<sigma>')" by (simp add: go_def)
  then show ?thesis by blast
next
  case (rlock t c)
  then have "go mode body reg result t None \<sigma> = Some (l, \<sigma>')" by (simp add: go_def)
  then show ?thesis by blast
next
  case (exec t c i rest r code s' r')
  then have "go mode body reg result t None \<sigma> = Some (l, \<sigma>')" by (simp add: go_def)
  then show ?thesis by blast
next
  case (unlock t c r)
  then have "go mode body reg result t None \<sigma> = Some (l, \<sigma>')" by (simp add: go_def)
  then show ?thesis by blast
next
  case (runlock t c r)
  then have "go mode body reg result t None \<sigma> = Some (l, \<sigma>')" by (simp add: go_def)
  then show ?thesis by blast
next
  case (return t c v)
  then have "go mode body reg result t None \<sigma> = Some (l, \<sigma>')" by (simp add: go_def)
  then show ?thesis by blast
qed

fun schedule ::
  "('call \<Rightarrow> lock_mode) \<Rightarrow> ('call \<Rightarrow> ('s, 'r) stmt list) \<Rightarrow> 'r \<Rightarrow> ('r \<Rightarrow> 'res) \<Rightarrow>
    (nat \<times> 'call option) list \<Rightarrow> ('call, 's, 'r, 'res) system \<Rightarrow>
    (('call, 'res) call_event list \<times> ('call, 's, 'r, 'res) system) option" where
  "schedule mode body reg result [] \<sigma> = Some ([], \<sigma>)"
| "schedule mode body reg result ((t, next) # ts) \<sigma> =
     (case go mode body reg result t next \<sigma> of None \<Rightarrow> None
      | Some (l, \<sigma>') \<Rightarrow> map_option (map_prod ((@) l) id) (schedule mode body reg result ts \<sigma>'))"

abbreviation turns :: "nat list \<Rightarrow> (nat \<times> 'call option) list" where
  "turns \<equiv> List.map (\<lambda>t. (t, None))"

section \<open>The atomic object\<close>

text \<open>The specification: between its call and its return, a method takes effect in one step.\<close>

datatype ('call, 'res) client = AIdle | APending 'call | ADone 'call 'res

record ('call, 's, 'res) atomic =
  object :: 's
  clients :: "nat \<Rightarrow> ('call, 'res) client"

inductive atomic_step ::
  "('call \<Rightarrow> 's \<Rightarrow> 's \<times> 'res) \<Rightarrow> ('call, 's, 'res) atomic \<Rightarrow> ('call, 'res) call_event list \<Rightarrow>
    ('call, 's, 'res) atomic \<Rightarrow> bool"
  for op
where
  acall: "clients a t = AIdle \<Longrightarrow> atomic_step op a [Inv t c] (a\<lparr>clients := (clients a)(t := APending c)\<rparr>)"
| effect: "clients a t = APending c \<Longrightarrow> op c (object a) = (s', v) \<Longrightarrow>
    atomic_step op a [] (a\<lparr>object := s', clients := (clients a)(t := ADone c v)\<rparr>)"
| areturn: "clients a t = ADone c v \<Longrightarrow> atomic_step op a [Ret t c v] (a\<lparr>clients := (clients a)(t := AIdle)\<rparr>)"

lemma atomic_labels:
  "atomic_step op a [Inv t d] a' \<longleftrightarrow>
     clients a t = AIdle \<and> a' = a\<lparr>clients := (clients a)(t := APending d)\<rparr>"
  "atomic_step op a [Ret t d v] a' \<longleftrightarrow>
     clients a t = ADone d v \<and> a' = a\<lparr>clients := (clients a)(t := AIdle)\<rparr>"
  by (auto elim: atomic_step.cases intro: atomic_step.intros)

definition atomic_start :: "'s \<Rightarrow> ('call, 's, 'res) atomic" where
  "atomic_start s = \<lparr>object = s, clients = (\<lambda>_. AIdle)\<rparr>"

text \<open>Runs of either system and the history they show.\<close>

inductive runs :: "('a \<Rightarrow> 'e list \<Rightarrow> 'a \<Rightarrow> bool) \<Rightarrow> 'a \<Rightarrow> 'e list \<Rightarrow> 'a \<Rightarrow> bool" for step where
  runs_refl: "runs step \<sigma> [] \<sigma>"
| runs_step: "runs step \<sigma> h \<sigma>' \<Longrightarrow> step \<sigma>' l \<sigma>'' \<Longrightarrow> runs step \<sigma> (h @ l) \<sigma>''"

lemma runs_single: "step \<sigma> l \<sigma>' \<Longrightarrow> runs step \<sigma> l \<sigma>'"
  using runs_step [OF runs_refl] by fastforce

lemma runs_append: "runs step \<sigma>' h' \<sigma>'' \<Longrightarrow> runs step \<sigma> h \<sigma>' \<Longrightarrow> runs step \<sigma> (h @ h') \<sigma>''"
  by (induction rule: runs.induct) (auto simp flip: append_assoc intro: runs_step)

lemma schedule_runs:
  "schedule mode body reg result ts \<sigma> = Some (h, \<sigma>') \<Longrightarrow> runs (sys_step mode body reg result) \<sigma> h \<sigma>'"
proof (induction ts arbitrary: \<sigma> h)
  case Nil
  then show ?case by (simp add: runs_refl)
next
  case (Cons x ts)
  obtain t nx where x: "x = (t, nx)" by fastforce
  obtain l \<tau> h' where g: "go mode body reg result t nx \<sigma> = Some (l, \<tau>)"
      and s: "schedule mode body reg result ts \<tau> = Some (h', \<sigma>')" and h: "h = l @ h'"
    using Cons.prems by (auto simp: x split: option.splits)
  show ?case
    unfolding h by (rule runs_append [OF Cons.IH [OF s] runs_single]) (rule go_step [OF g])
qed

lemma schedule_ex:
  "\<exists>\<sigma>'. schedule mode body reg result ts \<sigma> = Some (h, \<sigma>') \<and> P \<sigma>' \<Longrightarrow>
    \<exists>\<sigma>'. runs (sys_step mode body reg result) \<sigma> h \<sigma>' \<and> P \<sigma>'"
  by (elim ex_forward conjE) (simp add: schedule_runs)

section \<open>Guarded methods are atomic\<close>

text \<open>
  The contract of a guarded object: run without interruption, the body of each method computes the
  method's operation (\<open>op\<close>, \<open>reg\<close> the initial local variables), a method under the read lock only
  reads, and the operations keep the object's data invariant \<open>ok\<close>.
\<close>

locale mutex_object =
  fixes mode :: "'call \<Rightarrow> lock_mode"
    and body :: "'call \<Rightarrow> ('s, 'r) stmt list"
    and reg :: 'r
    and result :: "'r \<Rightarrow> 'res"
    and op :: "'call \<Rightarrow> 's \<Rightarrow> 's \<times> 'res"
    and ok :: "'s \<Rightarrow> bool"
  assumes body_op: "ok s \<Longrightarrow> run_body (body c) (s, reg) = (s', r) \<Longrightarrow> op c s = (s', result r)"
    and read_mode: "mode c = Shared \<Longrightarrow> list_all only_reads (body c)"
    and op_ok: "ok s \<Longrightarrow> op c s = (s', v) \<Longrightarrow> ok s'"
begin

abbreviation step ::
  "('call, 's, 'r, 'res) system \<Rightarrow> ('call, 'res) call_event list \<Rightarrow> ('call, 's, 'r, 'res) system \<Rightarrow> bool"
  where "step \<equiv> sys_step mode body reg result"

text \<open>
  The abstraction runs the interrupted bodies to their end: a method takes effect when it gets the
  lock, and what its result will be is settled then.
\<close>

definition abs_client ::
  "'s \<Rightarrow> ('call, 's, 'r, 'res) goroutine \<Rightarrow> ('call, 'res) client" where
  "abs_client s g =
     (case g of Idle \<Rightarrow> AIdle | Waiting c \<Rightarrow> APending c
      | Inside c code r \<Rightarrow> ADone c (result (snd (run_body code (s, r))))
      | Returning c v \<Rightarrow> ADone c v)"

definition abs_object :: "('call, 's, 'r, 'res) system \<Rightarrow> 's" where
  "abs_object \<sigma> =
     (case writer \<sigma> of None \<Rightarrow> shared \<sigma>
      | Some t \<Rightarrow> (case threads \<sigma> t of Inside c code r \<Rightarrow> fst (run_body code (shared \<sigma>, r)) | _ \<Rightarrow> shared \<sigma>))"

definition abstract :: "('call, 's, 'r, 'res) system \<Rightarrow> ('call, 's, 'res) atomic" where
  "abstract \<sigma> = \<lparr>object = abs_object \<sigma>, clients = (\<lambda>t. abs_client (shared \<sigma>) (threads \<sigma> t))\<rparr>"

text \<open>The lock's state agrees with where the goroutines are, so at most one writer is inside.\<close>

definition locked :: "('call, 's, 'r, 'res) system \<Rightarrow> bool" where
  "locked \<sigma> \<longleftrightarrow> ok (abs_object \<sigma>) \<and>
     (\<forall>t. writer \<sigma> = Some t \<longrightarrow> readers \<sigma> = {}) \<and>
     (\<forall>t c code r. threads \<sigma> t = Inside c code r \<longrightarrow>
        (mode c = Exclusive \<longrightarrow> writer \<sigma> = Some t) \<and>
        (mode c = Shared \<longrightarrow> t \<in> readers \<sigma> \<and> list_all only_reads code))"

lemma locked_ok: "locked \<sigma> \<Longrightarrow> ok (abs_object \<sigma>)"
  by (simp add: locked_def)

lemma locked_readers: "locked \<sigma> \<Longrightarrow> writer \<sigma> = Some t \<Longrightarrow> readers \<sigma> = {}"
  unfolding locked_def by blast

lemma locked_Exclusive:
  "locked \<sigma> \<Longrightarrow> threads \<sigma> t = Inside c code r \<Longrightarrow> mode c = Exclusive \<Longrightarrow> writer \<sigma> = Some t"
  unfolding locked_def by blast

lemma locked_Shared:
  assumes "locked \<sigma>" and "threads \<sigma> t = Inside c code r" and "mode c = Shared"
  shows "t \<in> readers \<sigma>" and "list_all only_reads code" and "writer \<sigma> = None"
proof -
  show m: "t \<in> readers \<sigma>" and "list_all only_reads code"
    using assms unfolding locked_def by blast+
  show "writer \<sigma> = None"
    using locked_readers [OF assms(1)] m by (cases "writer \<sigma>") auto
qed

lemma locked_inside:
  assumes "locked \<sigma>" and "threads \<sigma> t = Inside c code r"
  shows "writer \<sigma> = Some t \<or> writer \<sigma> = None \<and> t \<in> readers \<sigma>"
  using locked_Exclusive [OF assms] locked_Shared [OF assms] by (cases "mode c") auto

lemma locked_only: "locked \<sigma> \<Longrightarrow> writer \<sigma> = Some t \<Longrightarrow> threads \<sigma> u = Inside c code r \<Longrightarrow> u = t"
  using locked_inside by fastforce

text \<open>A step inside a body is invisible: the abstraction stays the same.\<close>

lemma exec_invisible:
  assumes l: "locked \<sigma>" and t: "threads \<sigma> t = Inside c (i # rest) r"
    and i: "stmt_step i rest (shared \<sigma>, r) = (code, s', r')"
  defines "\<sigma>' \<equiv> \<sigma>\<lparr>shared := s', threads := (threads \<sigma>)(t := Inside c code r')\<rparr>"
  shows "abstract \<sigma>' = abstract \<sigma> \<and> locked \<sigma>'"
proof (cases "mode c")
  case Exclusive
  note w = locked_Exclusive [OF l t Exclusive]
  have own: "run_body code (s', r') = run_body (i # rest) (shared \<sigma>, r)"
    by (rule run_body_step [OF i])
  have other: "abs_client s' (threads \<sigma> u) = abs_client (shared \<sigma>) (threads \<sigma> u)" if "u \<noteq> t" for u
    using locked_only [OF l w, of u] that by (cases "threads \<sigma> u") (auto simp: abs_client_def)
  have obj: "abs_object \<sigma>' = abs_object \<sigma>"
    using w t own by (simp add: abs_object_def \<sigma>'_def)
  have "clients (abstract \<sigma>') u = clients (abstract \<sigma>) u" for u
    using other [of u] own t by (cases "u = t") (simp_all add: abstract_def \<sigma>'_def abs_client_def)
  then have "abstract \<sigma>' = abstract \<sigma>" using obj by (simp add: abstract_def fun_eq_iff)
  moreover have "locked \<sigma>'"
    unfolding locked_def obj
    using locked_ok [OF l] locked_readers [OF l] locked_only [OF l w] w Exclusive
    by (auto simp: \<sigma>'_def split: if_splits)
  ultimately show ?thesis by blast
next
  case Shared
  note w = locked_Shared [OF l t Shared]
  have r: "s' = shared \<sigma> \<and> list_all only_reads code"
    using only_reads_step [OF i] w(2) by simp
  have own: "run_body code (shared \<sigma>, r') = run_body (i # rest) (shared \<sigma>, r)"
    using run_body_step [OF i] r by simp
  have obj: "abs_object \<sigma>' = abs_object \<sigma>" using w(3) r by (simp add: abs_object_def \<sigma>'_def)
  have "clients (abstract \<sigma>') u = clients (abstract \<sigma>) u" for u
    using own t r by (simp add: abstract_def \<sigma>'_def abs_client_def)
  then have "abstract \<sigma>' = abstract \<sigma>" using obj by (simp add: abstract_def fun_eq_iff)
  moreover have "locked \<sigma>'"
    unfolding locked_def obj
    using locked_ok [OF l] w r Shared locked_Shared(1,2) [OF l] locked_Exclusive [OF l]
    by (auto simp: \<sigma>'_def split: if_splits)
  ultimately show ?thesis by blast
qed

lemma abstract_threads:
  assumes "abs_object (\<sigma>\<lparr>threads := (threads \<sigma>)(t := g)\<rparr>) = abs_object \<sigma>"
  shows "abstract (\<sigma>\<lparr>threads := (threads \<sigma>)(t := g)\<rparr>) =
    (abstract \<sigma>)\<lparr>clients := (clients (abstract \<sigma>))(t := abs_client (shared \<sigma>) g)\<rparr>"
  using assms by (simp add: abstract_def fun_eq_iff)

text \<open>Taking the lock is where the method takes effect.\<close>

lemma lock_effect:
  assumes l: "locked \<sigma>" and t: "threads \<sigma> t = Waiting c" and w: "writer \<sigma> = None"
    and \<sigma>': "threads \<sigma>' = (threads \<sigma>)(t := Inside c (body c) reg)" "shared \<sigma>' = shared \<sigma>"
    and excl: "mode c = Exclusive \<Longrightarrow> writer \<sigma>' = Some t \<and> readers \<sigma>' = {} \<and> readers \<sigma> = {}"
    and shd: "mode c = Shared \<Longrightarrow> writer \<sigma>' = None \<and> readers \<sigma>' = insert t (readers \<sigma>)"
  shows "locked \<sigma>' \<and> atomic_step op (abstract \<sigma>) [] (abstract \<sigma>')"
proof -
  obtain s' r where run: "run_body (body c) (shared \<sigma>, reg) = (s', r)" by fastforce
  have obj: "abs_object \<sigma> = shared \<sigma>" using w by (simp add: abs_object_def)
  then have "ok (shared \<sigma>)" using locked_ok [OF l] by simp
  then have op: "op c (object (abstract \<sigma>)) = (s', result r)" and s': "ok s'"
    using body_op [OF _ run] op_ok by (auto simp: abstract_def obj)
  have obj': "abs_object \<sigma>' = s'"
  proof (cases "mode c")
    case Exclusive
    then show ?thesis using excl run by (simp add: abs_object_def \<sigma>')
  next
    case Shared
    then show ?thesis
      using shd run only_reads_body [OF read_mode, of c "(shared \<sigma>, reg)"] by (simp add: abs_object_def \<sigma>')
  qed
  have "clients (abstract \<sigma>) t = APending c" using t by (simp add: abstract_def abs_client_def)
  note step = atomic_step.effect [where op = op, of "abstract \<sigma>", OF this op]
  have "(abstract \<sigma>)\<lparr>object := s', clients := (clients (abstract \<sigma>))(t := ADone c (result r))\<rparr> =
      abstract \<sigma>'"
    using run obj' by (simp add: abstract_def \<sigma>' abs_client_def fun_eq_iff)
  moreover have "locked \<sigma>'"
  proof (cases "mode c")
    case Exclusive
    then have "threads \<sigma> u \<noteq> Inside c' code' r'" for u c' code' r'
      using excl w locked_inside [OF l, of u c' code' r'] by auto
    then show ?thesis using s' obj' excl Exclusive by (simp add: locked_def \<sigma>')
  next
    case Shared
    then show ?thesis
      using s' obj' shd w read_mode locked_Exclusive [OF l] locked_Shared [OF l]
      by (auto simp: locked_def \<sigma>' split: if_splits)
  qed
  ultimately show ?thesis using step by simp
qed

lemma unlock_invisible:
  assumes l: "locked \<sigma>" and t: "threads \<sigma> t = Inside c [] r"
    and \<sigma>': "threads \<sigma>' = (threads \<sigma>)(t := Returning c (result r))" "shared \<sigma>' = shared \<sigma>"
      "writer \<sigma>' = None" "readers \<sigma>' = readers \<sigma> - {t}"
  shows "abstract \<sigma>' = abstract \<sigma> \<and> locked \<sigma>'"
proof -
  have obj: "abs_object \<sigma> = shared \<sigma>"
    using t locked_inside [OF l t] by (auto simp: abs_object_def)
  have "abstract \<sigma>' = abstract \<sigma>"
    using obj t by (simp add: abstract_def abs_object_def [of \<sigma>'] \<sigma>' abs_client_def fun_eq_iff)
  moreover have "mode c' = Shared \<and> u \<in> readers \<sigma> \<and> list_all only_reads code'"
    if "threads \<sigma> u = Inside c' code' r'" and "u \<noteq> t" for u c' code' r'
  proof (cases "mode c'")
    case Exclusive
    then show ?thesis using locked_only [OF l _ t] locked_Exclusive [OF l that(1)] that(2) by auto
  qed (use that locked_Shared [OF l that(1)] in auto)
  ultimately show ?thesis
    using locked_ok [OF l] obj by (auto simp: locked_def abs_object_def [of \<sigma>'] \<sigma>' split: if_splits)
qed

lemma threads_irrelevant:
  assumes l: "locked \<sigma>" and t: "\<And>c code r. threads \<sigma> t \<noteq> Inside c code r"
    and g: "\<And>c code r. g \<noteq> Inside c code r"
  defines "\<sigma>' \<equiv> \<sigma>\<lparr>threads := (threads \<sigma>)(t := g)\<rparr>"
  shows "abs_object \<sigma>' = abs_object \<sigma> \<and> locked \<sigma>'"
proof -
  have obj: "abs_object \<sigma>' = abs_object \<sigma>"
    using t g by (auto simp: abs_object_def \<sigma>'_def split: option.splits goroutine.splits)
  moreover have "locked \<sigma>'"
    unfolding locked_def obj using l g by (auto simp: locked_def \<sigma>'_def split: if_splits)
  ultimately show ?thesis by blast
qed

text \<open>Each step of the goroutines is a step of the atomic object, or no step.\<close>

lemma simulation:
  assumes "step \<sigma> l \<sigma>'" and lk: "locked \<sigma>"
  shows "locked \<sigma>' \<and> (l = [] \<and> abstract \<sigma>' = abstract \<sigma> \<or> atomic_step op (abstract \<sigma>) l (abstract \<sigma>'))"
  using assms(1)
proof (cases rule: sys_step.cases)
  case (call t c)
  note irr = threads_irrelevant [OF lk, of t "Waiting c"]
  have "clients (abstract \<sigma>) t = AIdle" using call by (simp add: abstract_def abs_client_def)
  then show ?thesis
    using atomic_step.acall [of "abstract \<sigma>" t op c] irr call abstract_threads [of \<sigma> t "Waiting c"]
    by (auto simp: abs_client_def)
next
  case (lock t c)
  then show ?thesis using lock_effect [OF lk lock(3,5), of \<sigma>'] by auto
next
  case (rlock t c)
  then show ?thesis using lock_effect [OF lk rlock(3,5), of \<sigma>'] by auto
next
  case (exec t c i rest r code s' r')
  then show ?thesis using exec_invisible [OF lk exec(3,4)] by auto
next
  case (unlock t c r)
  moreover have "readers \<sigma> = {}"
    using locked_readers [OF lk locked_Exclusive [OF lk unlock(3,4)]] .
  ultimately show ?thesis using unlock_invisible [OF lk unlock(3), of \<sigma>'] by auto
next
  case (runlock t c r)
  then show ?thesis
    using unlock_invisible [OF lk runlock(3), of \<sigma>'] locked_Shared(3) [OF lk runlock(3,4)] by auto
next
  case (return t c v)
  note irr = threads_irrelevant [OF lk, of t Idle]
  have "clients (abstract \<sigma>) t = ADone c v" using return by (simp add: abstract_def abs_client_def)
  then show ?thesis
    using atomic_step.areturn [of "abstract \<sigma>" t c v op] irr return abstract_threads [of \<sigma> t Idle]
    by (auto simp: abs_client_def)
qed

lemma simulation_runs:
  assumes "step \<sigma> l \<sigma>'" and "locked \<sigma>"
  shows "locked \<sigma>' \<and> runs (atomic_step op) (abstract \<sigma>) l (abstract \<sigma>')"
  using simulation [OF assms] runs_refl [of "atomic_step op" "abstract \<sigma>"] by (auto intro: runs_single)

lemma abstract_start: "abstract (sys_start s) = atomic_start s"
  by (simp add: abstract_def abs_object_def sys_start_def atomic_start_def abs_client_def)

lemma locked_start: "ok s \<Longrightarrow> locked (sys_start s)"
  by (simp add: locked_def abs_object_def sys_start_def)

text \<open>Every history of the goroutines is one of the atomic object.\<close>

lemma guarded_run:
  assumes "runs step (sys_start s) h \<sigma>" and "ok s"
  shows "locked \<sigma> \<and> runs (atomic_step op) (atomic_start s) h (abstract \<sigma>)"
  using assms
proof (induction "sys_start s :: ('call, 's, 'r, 'res) system" h \<sigma> rule: runs.induct)
  case runs_refl
  then show ?case by (simp add: abstract_start locked_start runs.runs_refl)
next
  case (runs_step h \<sigma>' l \<sigma>'')
  then have IH: "locked \<sigma>'" "runs (atomic_step op) (atomic_start s) h (abstract \<sigma>')" by auto
  then show ?case
    using simulation_runs [OF runs_step.hyps(3) IH(1)] runs_append [OF _ IH(2)] by blast
qed

text \<open>Mutual exclusion: while a writer is inside, no other goroutine is.\<close>

lemma mutual_exclusion:
  assumes "runs step (sys_start s) h \<sigma>" and "ok s"
    and "threads \<sigma> t = Inside c code r" and "mode c = Exclusive" and "threads \<sigma> u = Inside c' code' r'"
  shows "u = t"
  using guarded_run [OF assms(1,2)] locked_Exclusive [OF _ assms(3,4)] locked_only assms(5) by blast

text \<open>When no writer is inside, the shared object is the atomic one.\<close>

lemma abstract_object_free: "writer \<sigma> = None \<Longrightarrow> object (abstract \<sigma>) = shared \<sigma>"
  by (simp add: abstract_def abs_object_def)

end

end
