(* ===== verification/Call_Stamps.thy ===== *)
theory Call_Stamps
  imports Mutex
begin

text \<open>
  What concurrent callers of an atomic object can rely on when its calls hand out stamps. The locale
  \<open>stamping\<close> asks that each call that is an event returns a stamp above all earlier ones; then, in every
  history, no two calls return the same stamp and calls that follow each other in real time get
  stamps in that order, whatever the other goroutines do in between.
\<close>

section \<open>Stamps handed out to several goroutines\<close>

fun caller :: "('call, 'res) call_event \<Rightarrow> nat" where
  "caller (Inv t c) = t"
| "caller (Ret t c v) = t"

definition calls :: "('call, 'res) call_event list \<Rightarrow> 'call list" where
  "calls h = concat (List.map (\<lambda>e. case e of Inv t c \<Rightarrow> [c] | Ret t c v \<Rightarrow> []) h)"

lemma calls_simps [simp]:
  "calls [] = []" "calls (h @ h') = calls h @ calls h'" "calls (Inv t c # h) = c # calls h"
  "calls (Ret t c v # h) = calls h"
  by (simp_all add: calls_def)

lemma runs_split:
  assumes "runs step \<sigma> h \<sigma>''" and "\<And>\<tau> l \<tau>'. step \<tau> l \<tau>' \<Longrightarrow> length l \<le> 1"
  shows "h = h1 @ h2 \<Longrightarrow> \<exists>\<sigma>'. runs step \<sigma> h1 \<sigma>' \<and> runs step \<sigma>' h2 \<sigma>''"
  using assms(1)
proof (induction arbitrary: h2 rule: runs.induct)
  case (runs_refl \<sigma>)
  then show ?case using runs.runs_refl by fastforce
next
  case (runs_step \<sigma> h \<sigma>' l \<sigma>'')
  have "l = [] \<or> (\<exists>e. l = [e])" using assms(2) [OF runs_step.hyps(2)] by (cases l) auto
  then consider h2' where "h2 = h2' @ l" "h = h1 @ h2'" | "h2 = []" "h1 = h @ l"
    using runs_step.prems by (cases h2 rule: rev_cases) auto
  then show ?case
  proof cases
    case 1
    then show ?thesis using runs_step.IH [OF 1(2)] runs.runs_step [of step _ h2' \<sigma>' l, OF _ runs_step.hyps(2)] by blast
  next
    case 2
    then show ?thesis
      using runs.runs_step [of step, OF runs_step.hyps(1,2)] runs.runs_refl [of step] by blast
  qed
qed

lemma runs_last:
  assumes "runs step \<sigma> (h @ [e]) \<sigma>''" and "\<And>\<tau> l \<tau>'. step \<tau> l \<tau>' \<Longrightarrow> length l \<le> 1"
  shows "\<exists>\<tau> \<tau>'. runs step \<sigma> h \<tau> \<and> step \<tau> [e] \<tau>'"
  using assms(1)
proof (induction \<sigma> "h @ [e]" \<sigma>'' rule: runs.induct)
  case (runs_step \<sigma> g \<sigma>' l \<sigma>'')
  have "l = [] \<or> (\<exists>e. l = [e])" using assms(2) [OF runs_step.hyps(3)] by (cases l) auto
  then show ?case using runs_step by auto
qed simp

lemma atomic_step_label: "atomic_step op a l a' \<Longrightarrow> length l \<le> 1"
  by (cases rule: atomic_step.cases) auto

lemma atomic_split:
  assumes "runs (atomic_step op) a (h1 @ h2) a''"
  shows "\<exists>a'. runs (atomic_step op) a h1 a' \<and> runs (atomic_step op) a' h2 a''"
  by (rule runs_split [OF assms _ refl]) (rule atomic_step_label)

lemma atomic_last:
  assumes "runs (atomic_step op) a (h @ [e]) a''"
  shows "\<exists>b b'. runs (atomic_step op) a h b \<and> atomic_step op b [e] b'"
  by (rule runs_last [OF assms]) (rule atomic_step_label)

definition stamps_of ::
  "('call \<Rightarrow> 'res \<Rightarrow> 'k option) \<Rightarrow> ('call, 'res) call_event list \<Rightarrow> 'k list" where
  "stamps_of stamp h = concat (List.map (\<lambda>e. case e of Inv t c \<Rightarrow> []
     | Ret t c v \<Rightarrow> (case stamp c v of None \<Rightarrow> [] | Some k \<Rightarrow> [k])) h)"

lemma stamps_of_simps [simp]:
  "stamps_of stamp [] = []" "stamps_of stamp (h @ h') = stamps_of stamp h @ stamps_of stamp h'"
  "stamps_of stamp (Inv t c # h) = stamps_of stamp h"
  "stamps_of stamp (Ret t c v # h) =
     (case stamp c v of None \<Rightarrow> stamps_of stamp h | Some k \<Rightarrow> k # stamps_of stamp h)"
  by (simp_all add: stamps_of_def split: option.splits)

text \<open>Calls that follow each other in real time have stamps in that order.\<close>

definition real_time_ordered ::
  "('call \<Rightarrow> 'res \<Rightarrow> 'k::linorder option) \<Rightarrow> ('call, 'res) call_event list \<Rightarrow> bool" where
  "real_time_ordered stamp h \<longleftrightarrow>
     (\<forall>h1 t c v h2 u d h3 w h4 k l. h = h1 @ [Ret t c v] @ h2 @ [Inv u d] @ h3 @ [Ret u d w] @ h4 \<longrightarrow>
        u \<notin> caller ` set h3 \<longrightarrow> stamp c v = Some k \<longrightarrow> stamp d w = Some l \<longrightarrow> k < l)"

text \<open>
  An object whose calls may be events with a stamp. \<open>now\<close> is the latest stamp the object has given;
  \<open>room n s\<close> says that no counter wraps in the next \<open>n\<close> calls, for arguments that \<open>allowed n\<close> accepts.
\<close>

locale stamping =
  fixes op :: "'call \<Rightarrow> 's \<Rightarrow> 's \<times> 'res"
    and now :: "'s \<Rightarrow> 'k::linorder"
    and stamp :: "'call \<Rightarrow> 'res \<Rightarrow> 'k option"
    and room :: "nat \<Rightarrow> 's \<Rightarrow> bool"
    and allowed :: "nat \<Rightarrow> 'call \<Rightarrow> bool"
  assumes op_grows: "room (Suc n) s \<Longrightarrow> allowed (Suc n) c \<Longrightarrow> op c s = (s', v) \<Longrightarrow>
      room n s' \<and> now s \<le> now s' \<and> (\<forall>k. stamp c v = Some k \<longrightarrow> now s < k \<and> k \<le> now s')"
    and allowed_less: "allowed n c \<Longrightarrow> k \<le> n \<Longrightarrow> allowed k c"
begin

abbreviation stamps :: "('call, 'res) call_event list \<Rightarrow> 'k list" where
  "stamps \<equiv> stamps_of stamp"

definition pending_calls :: "('call, 's, 'res) atomic \<Rightarrow> nat set" where
  "pending_calls a = {t. \<exists>c. clients a t = APending c}"

definition budget :: "nat \<Rightarrow> ('call, 'res) call_event list \<Rightarrow> ('call, 's, 'res) atomic \<Rightarrow> bool" where
  "budget n h a \<longleftrightarrow> finite (pending_calls a) \<and> card (pending_calls a) \<le> length (calls h) \<and>
     room (n + card (pending_calls a) - length (calls h)) (object a) \<and>
     (\<forall>t c. clients a t = APending c \<longrightarrow> allowed n c)"

definition fresh :: "('call, 'res) call_event list \<Rightarrow> ('call, 's, 'res) atomic \<Rightarrow> bool" where
  "fresh h a \<longleftrightarrow> distinct (stamps h) \<and> (\<forall>k \<in> set (stamps h). k \<le> now (object a)) \<and>
     (\<forall>t c v k. clients a t = ADone c v \<longrightarrow> stamp c v = Some k \<longrightarrow>
        k \<le> now (object a) \<and> k \<notin> set (stamps h) \<and>
        (\<forall>u d w. u \<noteq> t \<longrightarrow> clients a u = ADone d w \<longrightarrow> stamp d w \<noteq> Some k))"

text \<open>After a return with stamp \<open>k\<close>, calls that begin later can only get larger stamps.\<close>

definition later :: "('call, 'res) call_event list \<Rightarrow> ('call, 's, 'res) atomic \<Rightarrow> bool" where
  "later h a \<longleftrightarrow>
     (\<forall>h1 t c v h2 u d h3 k. h = h1 @ [Ret t c v] @ h2 @ [Inv u d] @ h3 \<longrightarrow>
        u \<notin> caller ` set h3 \<longrightarrow> stamp c v = Some k \<longrightarrow>
        clients a u = APending d \<or>
        (\<exists>w. clients a u = ADone d w \<and> (\<forall>l. stamp d w = Some l \<longrightarrow> k < l)))"

lemma pending_update:
  "pending_calls (a\<lparr>clients := (clients a)(t := g)\<rparr>) =
    (if \<exists>c. g = APending c then insert t (pending_calls a) else pending_calls a - {t})"
  by (auto simp: pending_calls_def)

lemma pending_object [simp]: "pending_calls (a\<lparr>object := s\<rparr>) = pending_calls a"
  by (simp add: pending_calls_def)

lemma step_budget:
  assumes "atomic_step op a l a'" and b: "budget n h a"
    and n: "length (calls (h @ l)) \<le> n" "\<forall>c \<in> set (calls l). allowed n c"
  shows "budget n (h @ l) a' \<and> now (object a) \<le> now (object a') \<and>
    (\<forall>t c v k. l = [] \<longrightarrow> clients a' t = ADone c v \<longrightarrow> clients a t = ADone c v \<or>
       clients a t = APending c \<and> (stamp c v = Some k \<longrightarrow> now (object a) < k \<and> k \<le> now (object a')))"
  using assms(1)
proof (cases rule: atomic_step.cases)
  case (acall t c)
  have "t \<notin> pending_calls a" using acall by (simp add: pending_calls_def)
  then have "card (insert t (pending_calls a)) = Suc (card (pending_calls a))" using b by (simp add: budget_def)
  moreover have "pending_calls a' = insert t (pending_calls a)" using acall by (simp add: pending_update)
  ultimately show ?thesis using acall b n by (auto simp: budget_def)
next
  case (effect t c s' v)
  then have t: "t \<in> pending_calls a" by (auto simp: pending_calls_def)
  then obtain m where m: "card (pending_calls a) = Suc m"
    using b by (metis budget_def card_gt_0_iff empty_iff gr0_conv_Suc)
  have p': "pending_calls a' = pending_calls a - {t}"
    using effect by (simp add: pending_calls_def) auto
  have le: "length (calls h) \<le> n" using n(1) by simp
  have "room (Suc (n - length (calls h) + m)) (object a)"
    using b m le by (simp add: budget_def Suc_diff_le)
  moreover have "allowed (Suc (n - length (calls h) + m)) c"
  proof (rule allowed_less)
    show "allowed n c" using b effect by (auto simp: budget_def)
    have "Suc m \<le> length (calls h)" using b m by (simp add: budget_def)
    then show "Suc (n - length (calls h) + m) \<le> n" using le by linarith
  qed
  ultimately have g: "room (n - length (calls h) + m) s' \<and> now (object a) \<le> now s' \<and>
      (\<forall>k. stamp c v = Some k \<longrightarrow> now (object a) < k \<and> k \<le> now s')"
    using op_grows effect(4) by blast
  have "card (pending_calls a') = m" using p' t m b by (simp add: budget_def)
  then show ?thesis using g effect b m p' le by (auto simp: budget_def)
next
  case (areturn t c v)
  have "t \<notin> pending_calls a" using areturn by (simp add: pending_calls_def)
  then have "pending_calls a' = pending_calls a" using areturn by (simp add: pending_update)
  then show ?thesis using areturn b by (auto simp: budget_def)
qed

text \<open>How a step changes what was handed out.\<close>

lemma step_now:
  "atomic_step op a l a' \<Longrightarrow> budget n h a \<Longrightarrow> length (calls (h @ l)) \<le> n \<Longrightarrow>
    \<forall>c \<in> set (calls l). allowed n c \<Longrightarrow> now (object a) \<le> now (object a')"
  using step_budget by blast

text \<open>A call that takes effect, and one that returns with its stamp.\<close>

lemma effect_fresh:
  assumes f: "fresh h a" and eff: "object a' = s'" "clients a' = (clients a)(t := ADone c v)"
    and up: "now (object a) \<le> now s'" and new: "\<And>k. stamp c v = Some k \<Longrightarrow> now (object a) < k \<and> k \<le> now s'"
  shows "fresh h a'"
proof -
  have old: "k \<le> now (object a)" if "clients a u = ADone d w" "stamp d w = Some k" for u d w k
    using f that by (auto simp: fresh_def)
  have ret: "k \<le> now (object a)" if "k \<in> set (stamps h)" for k
    using f that by (auto simp: fresh_def)
  have held: "k \<le> now s' \<and> k \<notin> set (stamps h) \<and>
      (\<forall>u d w. u \<noteq> t' \<longrightarrow> clients a' u = ADone d w \<longrightarrow> stamp d w \<noteq> Some k)"
    if t': "clients a' t' = ADone c' v'" "stamp c' v' = Some k" for t' c' v' k
  proof (cases "t' = t")
    case True
    then have k: "now (object a) < k" "k \<le> now s'" using new t' eff by auto
    then show ?thesis using True eff ret old by force
  next
    case False
    then have a: "clients a t' = ADone c' v'" using t' eff by simp
    then have "stamp d w \<noteq> Some k" if "u \<noteq> t'" "clients a u = ADone d w" for u d w
      using f t'(2) that unfolding fresh_def by blast
    moreover have "stamp c v \<noteq> Some k" using new old [OF a t'(2)] by force
    moreover have "k \<notin> set (stamps h)" using f a t'(2) unfolding fresh_def by blast
    ultimately show ?thesis using False eff old [OF a t'(2)] up by auto
  qed
  have "distinct (stamps h)" using f by (simp add: fresh_def)
  moreover have "\<forall>k \<in> set (stamps h). k \<le> now s'" using ret up by (auto intro: order_trans)
  ultimately show ?thesis unfolding fresh_def eff(1) using held by (intro conjI allI impI) blast+
qed

lemma return_fresh:
  assumes f: "fresh h a" and eff: "object a' = object a" "clients a' = (clients a)(t := AIdle)"
    and t: "clients a t = ADone c v" and Some: "stamp c v = Some k"
  shows "fresh (h @ [Ret t c v]) a'"
proof -
  have k: "k \<le> now (object a)" "k \<notin> set (stamps h)"
    using f t Some unfolding fresh_def by blast+
  have held: "j \<le> now (object a) \<and> j \<notin> set (stamps (h @ [Ret t c v])) \<and>
      (\<forall>u d w. u \<noteq> u' \<longrightarrow> clients a' u = ADone d w \<longrightarrow> stamp d w \<noteq> Some j)"
    if "clients a' u' = ADone c' v'" "stamp c' v' = Some j" for u' c' v' j
  proof -
    have "clients a u' = ADone c' v'" and "u' \<noteq> t" using that eff by (auto split: if_splits)
    then have "j \<le> now (object a)" and "j \<notin> set (stamps h)" and "j \<noteq> k"
      and "\<forall>u d w. u \<noteq> u' \<longrightarrow> clients a u = ADone d w \<longrightarrow> stamp d w \<noteq> Some j"
      using f that(2) t Some unfolding fresh_def by blast+
    then show ?thesis using eff Some by (auto split: if_splits)
  qed
  have "distinct (stamps (h @ [Ret t c v]))" and "\<forall>j \<in> set (stamps (h @ [Ret t c v])). j \<le> now (object a)"
    using f k eff Some by (auto simp: fresh_def)
  then show ?thesis unfolding fresh_def eff(1) using held by (intro conjI allI impI) blast+
qed

lemma step_fresh:
  assumes st: "atomic_step op a l a'" and b: "budget n h a" and f: "fresh h a"
    and n: "length (calls (h @ l)) \<le> n" "\<forall>c \<in> set (calls l). allowed n c"
  shows "fresh (h @ l) a'"
  using st
proof (cases rule: atomic_step.cases)
  case (acall t c)
  then show ?thesis using f by (auto simp: fresh_def split: if_splits)
next
  case (effect t c s' v)
  have "now (object a) \<le> now s'" using step_now [OF st b n] effect by simp
  moreover have "now (object a) < k \<and> k \<le> now s'" if "stamp c v = Some k" for k
    using step_budget [OF st b n] effect that by (auto dest!: spec [of _ t])
  ultimately have "fresh h a'" by (intro effect_fresh [OF f, of a' s' t c v]) (simp_all add: effect)
  then show ?thesis using effect by simp
next
  case (areturn t c v)
  show ?thesis
  proof (cases "stamp c v")
    case None
    then show ?thesis using f areturn by (auto simp: fresh_def split: if_splits)
  next
    case (Some k)
    then show ?thesis using return_fresh [OF f, of a' t c v k] areturn by simp
  qed
qed

text \<open>An event of another goroutine at the end changes nothing for the call of \<open>u\<close>.\<close>

lemma later_snoc:
  assumes "later h a" and "h @ [e] = h1 @ [Ret t c v] @ h2 @ [Inv u d] @ h3"
    and "u \<notin> caller ` set h3" and "stamp c v = Some k"
  shows "e = Inv u d \<or> caller e \<noteq> u \<and>
    (clients a u = APending d \<or> (\<exists>w. clients a u = ADone d w \<and> (\<forall>j. stamp d w = Some j \<longrightarrow> k < j)))"
proof (cases h3 rule: rev_cases)
  case Nil
  then show ?thesis using assms(2) by simp
next
  case (snoc h3' e')
  then have "h = h1 @ [Ret t c v] @ h2 @ [Inv u d] @ h3'" and "e' = e" using assms(2) by auto
  moreover from this have "caller e \<noteq> u" and "u \<notin> caller ` set h3'" using assms(3) snoc by auto
  ultimately show ?thesis using assms(1,4) unfolding later_def by blast
qed

lemma step_later:
  assumes st: "atomic_step op a l a'" and b: "budget n h a" and f: "fresh h a" and lt: "later h a"
    and n: "length (calls (h @ l)) \<le> n" "\<forall>c \<in> set (calls l). allowed n c"
  shows "later (h @ l) a'"
  unfolding later_def
proof (intro allI impI)
  fix h1 t c v h2 u d h3 k
  assume h: "h @ l = h1 @ [Ret t c v] @ h2 @ [Inv u d] @ h3"
    and u: "u \<notin> caller ` set h3" and k: "stamp c v = Some k"
  have old: "clients a u = APending d \<or>
      (\<exists>w. clients a u = ADone d w \<and> (\<forall>j. stamp d w = Some j \<longrightarrow> k < j))"
    if "h = h1 @ [Ret t c v] @ h2 @ [Inv u d] @ h3'" "u \<notin> caller ` set h3'" for h3'
    using lt that k unfolding later_def by blast
  show "clients a' u = APending d \<or>
      (\<exists>w. clients a' u = ADone d w \<and> (\<forall>j. stamp d w = Some j \<longrightarrow> k < j))"
    using st
  proof (cases rule: atomic_step.cases)
    case (acall t' c')
    then show ?thesis using later_snoc [OF lt, of "Inv t' c'" h1 t c v h2 u d h3 k] h u k by auto
  next
    case (effect t' c' s' v')
    then have h': "h = h1 @ [Ret t c v] @ h2 @ [Inv u d] @ h3" using h by simp
    have "k \<in> set (stamps h)" using k h' by simp
    then have "k \<le> now (object a)" using f by (auto simp: fresh_def)
    then have "k < j" if "stamp c' v' = Some j" for j
      using step_budget [OF st b n] effect that by (auto dest!: spec [of _ t'])
    then show ?thesis using old [OF h' u] effect by auto
  next
    case (areturn t' c' v')
    then show ?thesis using later_snoc [OF lt, of "Ret t' c' v'" h1 t c v h2 u d h3 k] h u k by auto
  qed
qed

lemma atomic_run_stamps:
  assumes "runs (atomic_step op) (atomic_start s) h a" and "room n s"
    and "length (calls h) \<le> n" and "\<forall>c \<in> set (calls h). allowed n c"
  shows "budget n h a \<and> fresh h a \<and> later h a"
  using assms
proof (induction "atomic_start s :: ('call, 's, 'res) atomic" h a rule: runs.induct)
  case runs_refl
  then show ?case
    by (simp add: budget_def fresh_def later_def pending_calls_def atomic_start_def)
next
  case (runs_step h a l a')
  then have I: "budget n h a" "fresh h a" "later h a" by auto
  have n: "length (calls (h @ l)) \<le> n" "\<forall>c \<in> set (calls l). allowed n c" using runs_step by auto
  show ?case
    using step_budget [OF runs_step.hyps(3) I(1) n] step_fresh [OF runs_step.hyps(3) I(1,2) n]
      step_later [OF runs_step.hyps(3) I n] by blast
qed

text \<open>No two calls return the same stamp.\<close>

lemma distinct_stamps:
  assumes "runs (atomic_step op) (atomic_start s) h a" and "room n s"
    and "length (calls h) \<le> n" and "\<forall>c \<in> set (calls h). allowed n c"
  shows "distinct (stamps h)"
  using atomic_run_stamps [OF assms] by (simp add: fresh_def)

text \<open>A call that begins after another has returned gets the larger stamp.\<close>

lemma real_time_order:
  assumes run: "runs (atomic_step op) (atomic_start s) h a" and n: "room n s"
    "length (calls h) \<le> n" "\<forall>c \<in> set (calls h). allowed n c"
  shows "real_time_ordered stamp h"
  unfolding real_time_ordered_def
proof (intro allI impI)
  fix h1 t c v h2 u d h3 w h4 k l
  assume h: "h = h1 @ [Ret t c v] @ h2 @ [Inv u d] @ h3 @ [Ret u d w] @ h4" "u \<notin> caller ` set h3"
    and k: "stamp c v = Some k" "stamp d w = Some l"
  let ?g = "h1 @ [Ret t c v] @ h2 @ [Inv u d] @ h3"
  have "runs (atomic_step op) (atomic_start s) ((?g @ [Ret u d w]) @ h4) a" using run h(1) by simp
  then obtain a1 where "runs (atomic_step op) (atomic_start s) (?g @ [Ret u d w]) a1"
    using atomic_split by blast
  then obtain a2 a3 where run2: "runs (atomic_step op) (atomic_start s) ?g a2"
      and ret: "atomic_step op a2 [Ret u d w] a3"
    using atomic_last by blast
  have "length (calls ?g) \<le> n" and "\<forall>c \<in> set (calls ?g). allowed n c"
    using n(2,3) h(1) by auto
  then have "later ?g a2" using atomic_run_stamps [OF run2 n(1)] by blast
  then have "clients a2 u = APending d \<or>
      (\<exists>w. clients a2 u = ADone d w \<and> (\<forall>l. stamp d w = Some l \<longrightarrow> k < l))"
    using h(2) k(1) unfolding later_def by blast
  moreover have "clients a2 u = ADone d w" using ret by (cases rule: atomic_step.cases) auto
  ultimately show "k < l" using k(2) by auto
qed

end

end
