(* ===== verification/Goroutines.thy ===== *)
theory Goroutines
  imports Call_Stamps Lamport Hlc Vector
begin

text \<open>
  The methods of the Lamport, hybrid and vector clocks statement by statement, as goroutines that
  share a clock execute them under its lock, and the interpretations of \<open>mutex_object\<close> and \<open>stamping\<close> on
  them: the clocks behave as if each method were one step, and hand out increasing stamps.
\<close>

section \<open>Lamport clocks\<close>

datatype lamport_call = LTick | LSend | LReceive u64 | LNow | LReset u64

record lamport_locals =
  l_counter :: u64
  l_return :: "u64 option"

text \<open>\<^verbatim>\<open>c.counter++\<close> is a read and a write of the field; \<^verbatim>\<open>return c.counter\<close> reads it again.\<close>

definition lamport_load :: "(lamport, lamport_locals) stmt" where
  "lamport_load = Do (Read (\<lambda>s r. r\<lparr>l_counter := counter s\<rparr>))"

definition lamport_return :: "(lamport, lamport_locals) stmt" where
  "lamport_return = Do (Read (\<lambda>s r. r\<lparr>l_return := Some (counter s)\<rparr>))"

fun lamport_body :: "lamport_call \<Rightarrow> (lamport, lamport_locals) stmt list" where
  "lamport_body LTick =
     [lamport_load, Do (Write (\<lambda>r s. s\<lparr>counter := l_counter r + 1\<rparr>)), lamport_return]"
| "lamport_body LSend =
     [lamport_load, Do (Write (\<lambda>r s. s\<lparr>counter := l_counter r + 1\<rparr>)), lamport_return]"
| "lamport_body (LReceive remote) =
     [lamport_load, Do (Write (\<lambda>r s. s\<lparr>counter := max (l_counter r) remote + 1\<rparr>)), lamport_return]"
| "lamport_body LNow = [lamport_return]"
| "lamport_body (LReset to) = [Do (Write (\<lambda>r s. s\<lparr>counter := to\<rparr>))]"

text \<open>Every method calls \<^verbatim>\<open>c.mu.Lock()\<close>.\<close>

definition lamport_mode :: "lamport_call \<Rightarrow> lock_mode" where
  "lamport_mode c = Exclusive"

fun lamport_op :: "lamport_call \<Rightarrow> lamport \<Rightarrow> lamport \<times> u64 option" where
  "lamport_op LTick c = map_prod id Some (lamport_Tick c)"
| "lamport_op LSend c = map_prod id Some (lamport_Send c)"
| "lamport_op (LReceive m) c = map_prod id Some (lamport_Receive m c)"
| "lamport_op LNow c = (c, Some (lamport_Now c))"
| "lamport_op (LReset to) c = (lamport_Reset to c, None)"

abbreviation lamport_system ::
  "(lamport_call, lamport, lamport_locals, u64 option) system \<Rightarrow> (lamport_call, u64 option) call_event list
    \<Rightarrow> (lamport_call, lamport, lamport_locals, u64 option) system \<Rightarrow> bool" where
  "lamport_system \<equiv> sys_step lamport_mode lamport_body \<lparr>l_counter = 0, l_return = None\<rparr> l_return"

interpretation lamport_mutex: mutex_object lamport_mode lamport_body
  "\<lparr>l_counter = 0, l_return = None\<rparr>" l_return lamport_op "\<lambda>_. True"
proof (unfold_locales, goal_cases)
  case (1 s c s' r)
  then show ?case
    by (cases c) (auto simp: lamport_load_def lamport_return_def lamport_defs Let_def)
qed (simp_all add: lamport_mode_def)

fun lamport_stamp :: "lamport_call \<Rightarrow> u64 option \<Rightarrow> u64 option" where
  "lamport_stamp LNow v = None"
| "lamport_stamp (LReset to) v = None"
| "lamport_stamp c v = v"

text \<open>No counter wraps within \<open>n\<close> calls if \<open>n\<close> events fit above the counter and every message.\<close>

fun lamport_allowed :: "nat \<Rightarrow> lamport_call \<Rightarrow> bool" where
  "lamport_allowed n (LReceive m) \<longleftrightarrow> unat m + n < 2 ^ 64"
| "lamport_allowed n (LReset to) \<longleftrightarrow> False"
| "lamport_allowed n c \<longleftrightarrow> True"

interpretation lamport_stamps: stamping lamport_op lamport_Now lamport_stamp
  "\<lambda>n s. unat (lamport_Now s) + n < 2 ^ 64" lamport_allowed
proof (unfold_locales, goal_cases)
  case (1 n s c s' v)
  then have lim: "unat (lamport_Now s) < lamport_limit" by simp
  show ?case
  proof (cases c)
    case (LReceive m)
    then obtain u where u: "lamport_Receive m s = (s', u)" "v = Some u" using 1 by (auto simp: map_prod_def split: prod.splits)
    have "unat m < lamport_limit" using 1 LReceive by simp
    then show ?thesis
      using lamport_Receive_Now [OF u(1) lim] 1 u LReceive by (auto simp: word_le_nat_alt word_less_nat_alt)
  qed (use 1 lim lamport_Tick_Now [of s s'] in
      \<open>auto simp: lamport_Send_Tick map_prod_def word_le_nat_alt word_less_nat_alt split: prod.splits\<close>)
next
  case (2 n c k)
  then show ?case by (cases c) auto
qed

text \<open>
  C18. Goroutines that share a Lamport clock cannot tell its methods from atomic ones: every history of
  calls and returns, under any schedule of their statements, is one of the atomic clock. As long as no
  counter can wrap and nobody calls \<^verbatim>\<open>Reset\<close>, no two events get the same timestamp, and an event that
  begins after another has returned gets the larger one.
\<close>

theorem lamport_concurrent_stamps:
  assumes "runs lamport_system (sys_start c) h \<sigma>"
    and "unat (lamport_Now c) + length (calls h) < 2 ^ 64"
    and "\<forall>k \<in> set (calls h). lamport_allowed (length (calls h)) k"
  shows "(\<exists>a. runs (atomic_step lamport_op) (atomic_start c) h a) \<and>
    distinct (stamps_of lamport_stamp h) \<and> real_time_ordered lamport_stamp h"
proof -
  have run: "runs (atomic_step lamport_op) (atomic_start c) h (lamport_mutex.abstract \<sigma>)"
    using lamport_mutex.guarded_run [OF assms(1)] by blast
  show ?thesis
    using run lamport_stamps.distinct_stamps [OF run assms(2) le_refl assms(3)]
      lamport_stamps.real_time_order [OF run assms(2) le_refl assms(3)] by blast
qed

text \<open>Two goroutines: a tick and a receive overlap, then the first one sends.\<close>

definition lamport_demo_schedule :: "(nat \<times> lamport_call option) list" where
  "lamport_demo_schedule =
     [(0, Some LTick), (1, Some (LReceive 5))] @ turns [0, 0, 0, 0, 0, 1, 1, 1, 1, 1, 1, 0] @
     [(0, Some LSend)] @ turns [0, 0, 0, 0, 0, 0]"

abbreviation lamport_demo_history :: "(lamport_call, u64 option) call_event list" where
  "lamport_demo_history \<equiv>
     [Inv 0 LTick, Inv 1 (LReceive 5), Ret 1 (LReceive 5) (Some 6), Ret 0 LTick (Some 1), Inv 0 LSend,
      Ret 0 LSend (Some 7)]"

lemma lamport_demo_run: "\<exists>\<sigma>. runs lamport_system (sys_start lamport_New) lamport_demo_history \<sigma>"
proof -
  have "\<exists>\<sigma>. runs lamport_system (sys_start lamport_New) lamport_demo_history \<sigma> \<and> True"
    by (rule schedule_ex [of _ _ _ _ lamport_demo_schedule])
       (simp add: lamport_demo_schedule_def sys_start_def go_def lamport_mode_def lamport_load_def
          lamport_return_def lamport_New_def max_def)
  then show ?thesis by simp
qed

theorem lamport_concurrent_stamps_witness:
  "stamps_of lamport_stamp lamport_demo_history = [6, 1, 7] \<and> distinct [6, 1, 7 :: u64] \<and>
   real_time_ordered lamport_stamp lamport_demo_history"
proof -
  obtain \<sigma> where run: "runs lamport_system (sys_start lamport_New) lamport_demo_history \<sigma>"
    using lamport_demo_run by blast
  have "unat (lamport_Now lamport_New) + length (calls lamport_demo_history) < 2 ^ 64"
    and "\<forall>k \<in> set (calls lamport_demo_history). lamport_allowed (length (calls lamport_demo_history)) k"
    by (simp_all add: lamport_defs)
  from lamport_concurrent_stamps [OF run this] show ?thesis by simp
qed

text \<open>
  The lock is needed: if the ticks only took a read lock, two of them could interleave and return the
  same timestamp, and one increment would be lost.
\<close>

lemma lamport_unguarded_tick:
  "\<exists>\<sigma>. runs (sys_step (\<lambda>_. Shared) lamport_body \<lparr>l_counter = 0, l_return = None\<rparr> l_return)
       (sys_start lamport_New) [Inv 0 LTick, Inv 1 LTick, Ret 0 LTick (Some 1), Ret 1 LTick (Some 1)] \<sigma> \<and>
     lamport_Now (shared \<sigma>) = 1"
  by (rule schedule_ex [of _ _ _ _
        "[(0, Some LTick), (1, Some LTick)] @ turns [0, 1, 0, 1, 0, 1, 0, 0, 0, 1, 1, 1]"])
     (simp add: sys_start_def go_def lamport_load_def lamport_return_def lamport_New_def lamport_Now_def)

section \<open>Hybrid clocks\<close>

text \<open>
  The first argument of a call is what \<^verbatim>\<open>c.wall.NowNanos()\<close> will answer it; the readings of
  different calls are unrelated. \<open>return ... err\<close> is \<open>Inl\<close>.
\<close>

datatype hlc_call = HlcNow i64 | HlcSend i64 | HlcReceive i64 timestamp | HlcCurrent

record hlc_locals =
  h_newL :: i64
  h_newC :: u32
  h_return :: "hlc_error + timestamp"

text \<open>The body of \<^verbatim>\<open>advanceLocked\<close>, and the end that it shares with \<^verbatim>\<open>Receive\<close>.\<close>

definition hlc_commit :: "(hlc_clock, hlc_locals) stmt list" where
  "hlc_commit =
     [Do (Write (\<lambda>r s. s\<lparr>hlc_state := Timestamp (h_newL r) (h_newC r)\<rparr>)),
      Do (Read (\<lambda>s r. r\<lparr>h_return := Inr (hlc_state s)\<rparr>))]"

definition hlc_advance_body :: "i64 \<Rightarrow> (hlc_clock, hlc_locals) stmt list" where
  "hlc_advance_body pt =
     [Do (Read (\<lambda>s r. r\<lparr>h_newL := WallTime (hlc_state s)\<rparr>)),
      Do (Read (\<lambda>s r. r\<lparr>h_newL := smax pt (h_newL r)\<rparr>)),
      Do (Read (\<lambda>s r. r\<lparr>h_newC :=
        (if h_newL r = WallTime (hlc_state s) then Logical (hlc_state s) + 1 else 0)\<rparr>))] @ hlc_commit"

fun hlc_body :: "hlc_call \<Rightarrow> (hlc_clock, hlc_locals) stmt list" where
  "hlc_body (HlcNow pt) = hlc_advance_body pt"
| "hlc_body (HlcSend pt) = hlc_advance_body pt"
| "hlc_body (HlcReceive pt remote) =
     [ReturnIf (\<lambda>s r. 0 <s hlc_maxDrift s \<and> pt + hlc_maxDrift s <s WallTime remote)
        (\<lambda>s r. r\<lparr>h_return := Inl (ErrMaxDriftExceeded (WallTime remote) pt (hlc_maxDrift s))\<rparr>),
      Do (Read (\<lambda>s r. r\<lparr>h_newL := WallTime (hlc_state s)\<rparr>)),
      Do (Read (\<lambda>s r. r\<lparr>h_newL := smax (WallTime remote) (h_newL r)\<rparr>)),
      Do (Read (\<lambda>s r. r\<lparr>h_newL := smax pt (h_newL r)\<rparr>)),
      Do (Read (\<lambda>s r. r\<lparr>h_newC :=
        (if h_newL r = WallTime (hlc_state s) \<and> h_newL r = WallTime remote
         then max (Logical (hlc_state s)) (Logical remote) + 1
         else if h_newL r = WallTime (hlc_state s) then Logical (hlc_state s) + 1
         else if h_newL r = WallTime remote then Logical remote + 1
         else 0)\<rparr>))] @ hlc_commit"
| "hlc_body HlcCurrent = [Do (Read (\<lambda>s r. r\<lparr>h_return := Inr (hlc_state s)\<rparr>))]"

definition hlc_mode :: "hlc_call \<Rightarrow> lock_mode" where
  "hlc_mode c = Exclusive"

fun hlc_method :: "hlc_call \<Rightarrow> hlc_clock \<Rightarrow> hlc_clock \<times> (hlc_error + timestamp)" where
  "hlc_method (HlcNow pt) c = map_prod id Inr (hlc_Now pt c)"
| "hlc_method (HlcSend pt) c = map_prod id Inr (hlc_Send pt c)"
| "hlc_method (HlcReceive pt m) c = hlc_Receive pt m c"
| "hlc_method HlcCurrent c = (c, Inr (hlc_Current c))"

definition hlc_reg :: hlc_locals where
  "hlc_reg = \<lparr>h_newL = 0, h_newC = 0, h_return = Inr (Timestamp 0 0)\<rparr>"

abbreviation hlc_system ::
  "(hlc_call, hlc_clock, hlc_locals, hlc_error + timestamp) system \<Rightarrow>
    (hlc_call, hlc_error + timestamp) call_event list \<Rightarrow>
    (hlc_call, hlc_clock, hlc_locals, hlc_error + timestamp) system \<Rightarrow> bool" where
  "hlc_system \<equiv> sys_step hlc_mode hlc_body hlc_reg h_return"

interpretation hlc_mutex: mutex_object hlc_mode hlc_body hlc_reg h_return hlc_method "\<lambda>_. True"
proof (unfold_locales, goal_cases)
  case (1 s c s' r)
  then show ?case
  proof (cases c)
    case (HlcReceive pt m)
    then show ?thesis using 1 by (auto simp: hlc_commit_def hlc_defs split: if_splits)
  qed (auto simp: hlc_advance_body_def hlc_commit_def hlc_defs)
qed (simp_all add: hlc_mode_def)

fun hlc_stamp :: "hlc_call \<Rightarrow> hlc_error + timestamp \<Rightarrow> timestamp option" where
  "hlc_stamp HlcCurrent v = None"
| "hlc_stamp c (Inr t) = Some t"
| "hlc_stamp c (Inl e) = None"

fun hlc_allowed :: "nat \<Rightarrow> hlc_call \<Rightarrow> bool" where
  "hlc_allowed n (HlcReceive pt m) \<longleftrightarrow> unat (Logical m) + n < 2 ^ 32"
| "hlc_allowed n c \<longleftrightarrow> True"

interpretation hlc_stamps: stamping hlc_method hlc_Current hlc_stamp
  "\<lambda>n s. unat (Logical (hlc_Current s)) + n < 2 ^ 32" hlc_allowed
proof (unfold_locales, goal_cases)
  case (1 n s c s' v)
  then have lim: "unat (Logical (hlc_Current s)) < logical_limit" by simp
  have local: ?case if "hlc_Now pt s = (s', t)" "v = Inr t" for pt t
    using hlc_Now_props [OF that(1) lim] that(2) 1
    by (cases c) (auto simp: less_timestamp_def less_eq_timestamp_def)
  show ?case
  proof (cases c)
    case (HlcReceive pt m)
    then have r: "hlc_Receive pt m s = (s', v)" using 1 by simp
    have "unat (Logical m) < logical_limit" using 1 HlcReceive by simp
    then show ?thesis
      using hlc_Receive_props [of pt m s s', OF _ lim] hlc_Receive_reject [of pt m s s'] r 1 HlcReceive
      by (cases v) (auto simp: less_timestamp_def less_eq_timestamp_def)
  qed (use 1 local in \<open>auto simp: hlc_Send_Now map_prod_def split: prod.splits\<close>)
next
  case (2 n c k)
  then show ?case by (cases c) auto
qed

text \<open>
  C21. Goroutines that share a hybrid clock see atomic methods too, whatever the wall clock answers to
  each of them. No two events get the same timestamp and events that follow each other in real time
  get increasing ones, even when the wall clock jumps backward between them; a rejected message is
  no event.
\<close>

theorem hlc_concurrent_stamps:
  assumes "runs hlc_system (sys_start c) h \<sigma>"
    and "unat (Logical (hlc_Current c)) + length (calls h) < 2 ^ 32"
    and "\<forall>k \<in> set (calls h). hlc_allowed (length (calls h)) k"
  shows "(\<exists>a. runs (atomic_step hlc_method) (atomic_start c) h a) \<and>
    distinct (stamps_of hlc_stamp h) \<and> real_time_ordered hlc_stamp h"
proof -
  have run: "runs (atomic_step hlc_method) (atomic_start c) h (hlc_mutex.abstract \<sigma>)"
    using hlc_mutex.guarded_run [OF assms(1)] by blast
  show ?thesis
    using run hlc_stamps.distinct_stamps [OF run assms(2) le_refl assms(3)]
      hlc_stamps.real_time_order [OF run assms(2) le_refl assms(3)] by blast
qed

text \<open>A reading of 20 and a rejected message overlap, then the wall clock has gone back to 10.\<close>

definition hlc_demo_schedule :: "(nat \<times> hlc_call option) list" where
  "hlc_demo_schedule =
     [(0, Some (HlcNow 20)), (1, Some (HlcReceive 20 (Timestamp 90 0)))] @
     turns [0, 0, 0, 0, 0, 0, 0, 1, 1, 1, 0, 1] @ [(0, Some (HlcSend 10))] @ turns [0, 0, 0, 0, 0, 0, 0, 0]"

abbreviation hlc_demo_history :: "(hlc_call, hlc_error + timestamp) call_event list" where
  "hlc_demo_history \<equiv>
     [Inv 0 (HlcNow 20), Inv 1 (HlcReceive 20 (Timestamp 90 0)), Ret 0 (HlcNow 20) (Inr (Timestamp 20 0)),
      Ret 1 (HlcReceive 20 (Timestamp 90 0)) (Inl (ErrMaxDriftExceeded 90 20 50)),
      Inv 0 (HlcSend 10), Ret 0 (HlcSend 10) (Inr (Timestamp 20 1))]"

lemma hlc_demo_run: "\<exists>\<sigma>. runs hlc_system (sys_start (hlc_NewWithMaxDrift 50)) hlc_demo_history \<sigma>"
proof -
  have "\<exists>\<sigma>. runs hlc_system (sys_start (hlc_NewWithMaxDrift 50)) hlc_demo_history \<sigma> \<and> True"
    by (rule schedule_ex [of _ _ _ _ hlc_demo_schedule])
       (simp add: hlc_demo_schedule_def sys_start_def go_def hlc_mode_def hlc_advance_body_def
          hlc_commit_def hlc_reg_def hlc_NewWithMaxDrift_def smax_def word_sless_alt)
  then show ?thesis by simp
qed

theorem hlc_concurrent_stamps_witness:
  "stamps_of hlc_stamp hlc_demo_history = [Timestamp 20 0, Timestamp 20 1] \<and>
   real_time_ordered hlc_stamp hlc_demo_history"
proof -
  obtain \<sigma> where run: "runs hlc_system (sys_start (hlc_NewWithMaxDrift 50)) hlc_demo_history \<sigma>"
    using hlc_demo_run by blast
  have "unat (Logical (hlc_Current (hlc_NewWithMaxDrift 50))) + length (calls hlc_demo_history) < 2 ^ 32"
    and "\<forall>k \<in> set (calls hlc_demo_history). hlc_allowed (length (calls hlc_demo_history)) k"
    by (simp_all add: hlc_defs)
  from hlc_concurrent_stamps [OF run this] show ?thesis by simp
qed

section \<open>Vector clocks\<close>

datatype vector_call = VTick | VSend | VReceive snapshot | VNow

record vector_locals =
  v_entry :: u64
  v_cp :: counters
  v_return :: snapshot

text \<open>\<^verbatim>\<open>c.vec[c.nodeID]++\<close>\<close>

definition vector_incr :: "(vclock, vector_locals) stmt list" where
  "vector_incr =
     [Do (Read (\<lambda>s r. r\<lparr>v_entry := cget (vc_vec s) (vc_nodeID s)\<rparr>)),
      Do (Write (\<lambda>r s. s\<lparr>vc_vec := mput (vc_nodeID s) (v_entry r + 1) (vc_vec s)\<rparr>))]"

text \<open>\<^verbatim>\<open>snapshotLocked\<close> copies one entry after the other.\<close>

definition vector_copy :: "(vclock, vector_locals) stmt list" where
  "vector_copy =
     [Do (Read (\<lambda>s r. r\<lparr>v_cp := []\<rparr>)),
      Range (\<lambda>s r. List.map (\<lambda>(k, v). Read (\<lambda>s r. r\<lparr>v_cp := mput k (cget (vc_vec s) k) (v_cp r)\<rparr>)) (vc_vec s)),
      Do (Read (\<lambda>s r. r\<lparr>v_return := \<lparr>sn_nodeID = vc_nodeID s, sn_vec = v_cp r\<rparr>\<rparr>))]"

text \<open>The merge loop of \<^verbatim>\<open>Receive\<close> reads and then writes each entry.\<close>

definition vector_merge :: "snapshot \<Rightarrow> (vclock, vector_locals) stmt" where
  "vector_merge remote = Range (\<lambda>s r. concat (List.map (\<lambda>(node, rv).
     [Read (\<lambda>s r. r\<lparr>v_entry := cget (vc_vec s) node\<rparr>),
      Write (\<lambda>r s. if rv > v_entry r then s\<lparr>vc_vec := mput node rv (vc_vec s)\<rparr> else s)]) (sn_vec remote)))"

fun vector_body :: "vector_call \<Rightarrow> (vclock, vector_locals) stmt list" where
  "vector_body VTick = vector_incr @ vector_copy"
| "vector_body VSend = vector_incr @ vector_copy"
| "vector_body (VReceive remote) = [vector_merge remote] @ vector_incr @ vector_copy"
| "vector_body VNow = vector_copy"

text \<open>\<^verbatim>\<open>Now\<close> takes the read lock.\<close>

fun vector_mode :: "vector_call \<Rightarrow> lock_mode" where
  "vector_mode VNow = Shared"
| "vector_mode c = Exclusive"

fun vector_op :: "vector_call \<Rightarrow> vclock \<Rightarrow> vclock \<times> snapshot" where
  "vector_op VTick c = vector_Tick c"
| "vector_op VSend c = vector_Send c"
| "vector_op (VReceive m) c = vector_Receive m c"
| "vector_op VNow c = (c, vector_Now c)"

definition vector_reg :: vector_locals where
  "vector_reg = \<lparr>v_entry = 0, v_cp = [], v_return = \<lparr>sn_nodeID = [], sn_vec = []\<rparr>\<rparr>"

abbreviation vector_system ::
  "(vector_call, vclock, vector_locals, snapshot) system \<Rightarrow> (vector_call, snapshot) call_event list \<Rightarrow>
    (vector_call, vclock, vector_locals, snapshot) system \<Rightarrow> bool" where
  "vector_system \<equiv> sys_step vector_mode vector_body vector_reg v_return"

text \<open>The loops, run without interruption, are the loops of the operations.\<close>

lemma vector_copy_run:
  assumes "wf_clock s"
  shows "fst (run_body vector_copy (s, r)) = s" and "v_return (snd (run_body vector_copy (s, r))) = snapshotLocked s"
proof -
  have loop: "fold act_effect (List.map (\<lambda>(k, v). Read (\<lambda>s r. r\<lparr>v_cp := mput k (cget (vc_vec s) k) (v_cp r)\<rparr>)) m) (s, r) =
      (s, r\<lparr>v_cp := copy_loop m (v_cp r)\<rparr>)" if "\<forall>(k, v) \<in> set m. cget (vc_vec s) k = v" for m r
    using that by (induction m arbitrary: r) (auto simp: copy_loop_def)
  have "\<forall>(k, v) \<in> set (vc_vec s). cget (vc_vec s) k = v"
    using assms by (auto simp: wf_clock_def mget_in)
  then show "fst (run_body vector_copy (s, r)) = s"
    and "v_return (snd (run_body vector_copy (s, r))) = snapshotLocked s"
    by (simp_all add: vector_copy_def loop snapshotLocked_def)
qed

lemma vector_merge_run:
  "\<exists>e. fold act_effect (concat (List.map (\<lambda>(node, rv).
     [Read (\<lambda>s r. r\<lparr>v_entry := cget (vc_vec s) node\<rparr>),
      Write (\<lambda>r s. if rv > v_entry r then s\<lparr>vc_vec := mput node rv (vc_vec s)\<rparr> else s)]) m)) (s, r) =
     (s\<lparr>vc_vec := max_loop m (vc_vec s)\<rparr>, r\<lparr>v_entry := e\<rparr>)"
proof (induction m arbitrary: s r)
  case Nil
  then show ?case by (intro exI [of _ "v_entry r"]) simp
next
  case (Cons x m)
  obtain node rv where x: "x = (node, rv)" by fastforce
  show ?case
    using Cons.IH [of "if rv > cget (vc_vec s) node then s\<lparr>vc_vec := mput node rv (vc_vec s)\<rparr> else s"
        "r\<lparr>v_entry := cget (vc_vec s) node\<rparr>"]
    by (auto simp: x)
qed

interpretation vector_mutex: mutex_object vector_mode vector_body vector_reg v_return vector_op wf_clock
proof (unfold_locales, goal_cases)
  case (1 s c s' r)
  have incr: "run_body (vector_incr @ rest) (s, r) = run_body rest
      (s\<lparr>vc_vec := mput (vc_nodeID s) (cget (vc_vec s) (vc_nodeID s) + 1) (vc_vec s)\<rparr>,
       r\<lparr>v_entry := cget (vc_vec s) (vc_nodeID s)\<rparr>)" for rest s r
    by (simp add: vector_incr_def)
  have copy: "run_body vector_copy (s, r) = (s', r') \<Longrightarrow> wf_clock s \<Longrightarrow> s' = s \<and> v_return r' = snapshotLocked s"
    for s r s' r'
    using vector_copy_run [of s r] by simp
  show ?case
  proof (cases c)
    case (VReceive m)
    let ?v = "max_loop (sn_vec m) (vc_vec s)"
    obtain e where "run_body (vector_merge m # vector_incr @ vector_copy) (s, vector_reg) =
        run_body (vector_incr @ vector_copy) (s\<lparr>vc_vec := ?v\<rparr>, vector_reg\<lparr>v_entry := e\<rparr>)"
      using vector_merge_run [of "sn_vec m" s vector_reg] by (auto simp: vector_merge_def)
    then have "run_body vector_copy (s\<lparr>vc_vec := mput (vc_nodeID s) (cget ?v (vc_nodeID s) + 1) ?v\<rparr>,
        vector_reg\<lparr>v_entry := cget ?v (vc_nodeID s)\<rparr>) = (s', r)"
      using 1(2) VReceive by (simp add: incr)
    from copy [OF this] show ?thesis
      using 1(1) VReceive by (simp add: wf_clock_def vector_Receive_def Let_def flip: max_loop_def)
  next
    case VNow
    then show ?thesis using copy [of s vector_reg s' r] 1 by (simp add: vector_Now_def)
  qed (use 1 in \<open>auto simp: incr wf_clock_def vector_Tick_def vector_Send_def Let_def dest!: copy\<close>)
next
  case (2 c)
  then show ?case
    by (cases c) (auto simp: vector_copy_def list_all_iff)
next
  case (3 s c s' v)
  then show ?case
    by (cases c) (auto simp: vector_Tick_def vector_Send_def vector_Receive_def Let_def wf_clock_def
        simp flip: max_loop_def)
qed

text \<open>An event's stamp is its process's own entry.\<close>

fun vector_stamp :: "vector_call \<Rightarrow> snapshot \<Rightarrow> u64 option" where
  "vector_stamp VNow v = None"
| "vector_stamp c v = Some (snapshot_Get v (snapshot_NodeID v))"

fun vector_allowed :: "string \<Rightarrow> nat \<Rightarrow> vector_call \<Rightarrow> bool" where
  "vector_allowed p n (VReceive m) \<longleftrightarrow> wf_snapshot m \<and> unat (snapshot_Get m p) + n < 2 ^ 64"
| "vector_allowed p n c \<longleftrightarrow> True"

definition vector_own :: "string \<Rightarrow> vclock \<Rightarrow> u64" where
  "vector_own p c = snapshot_Get (vector_Now c) p"

definition vector_room :: "string \<Rightarrow> nat \<Rightarrow> vclock \<Rightarrow> bool" where
  "vector_room p n c \<longleftrightarrow> wf_clock c \<and> vector_NodeID c = p \<and> unat (vector_own p c) + n < 2 ^ 64"

interpretation vector_stamps: stamping vector_op "vector_own p" vector_stamp "vector_room p" "vector_allowed p"
  for p
proof (unfold_locales, goal_cases)
  case (1 n s c s' v)
  then have wf: "wf_clock s" and p: "vc_nodeID s = p"
    and lim: "unat (cget (vc_vec s) p) + 1 < 2 ^ 64" "unat (cget (vc_vec s) p) + Suc n < 2 ^ 64"
    by (auto simp: vector_room_def vector_NodeID_def vector_own_def snapshot_Get_def vector_Now_def)
  note defs = vector_room_def vector_NodeID_def vector_own_def snapshot_Get_def snapshot_NodeID_def
    vector_Now_def snapshotLocked_def
  have tick: ?case if t: "vector_Tick s = (s', v)" and nv: "c \<noteq> VNow"
  proof -
    note t' = vector_Tick_props [OF t wf]
    have "cget (vc_vec s') p = cget (vc_vec s) p + 1" using t'(4) [of p] p by simp
    then show ?thesis using t' wf p lim nv
      by (cases c) (auto simp: defs wf_clock_def go_arith word_less_nat_alt word_le_nat_alt)
  qed
  show ?case
  proof (cases c)
    case (VReceive m)
    have r: "vector_Receive m s = (s', v)" and m: "wf_snapshot m" "unat (cget (sn_vec m) p) + Suc n < 2 ^ 64"
      using 1 VReceive by (auto simp: snapshot_Get_def)
    note r' = vector_Receive_props [OF r wf m(1)]
    have "unat (cget (vc_vec s') p) = max (unat (cget (vc_vec s) p)) (unat (cget (sn_vec m) p)) + 1"
      using r'(4) [of p] p lim m(2) by (simp add: unat_max unat_plus_one)
    then show ?thesis using r' wf p VReceive lim m(2)
      by (auto simp: defs wf_clock_def word_less_nat_alt word_le_nat_alt)
  next
    case VNow
    then show ?thesis using 1 by (auto simp: vector_room_def)
  qed (use 1 tick in \<open>auto simp: vector_Send_Tick\<close>)
next
  case (2 n c k)
  then show ?case by (cases c) auto
qed

text \<open>
  C5. Goroutines that share a vector clock see atomic methods: every history of calls and returns, under
  any schedule of the single reads and writes of map entries, is one of the atomic clock. In particular
  no snapshot is torn, although \<^verbatim>\<open>snapshotLocked\<close> and the merge of \<^verbatim>\<open>Receive\<close> are loops and \<^verbatim>\<open>Now\<close> only takes
  the read lock; and while a writing method is inside, no other goroutine is.
\<close>

theorem vector_linearizable:
  assumes "runs vector_system (sys_start c) h \<sigma>" and "wf_clock c"
  shows "(\<exists>a. runs (atomic_step vector_op) (atomic_start c) h a \<and>
       (writer \<sigma> = None \<longrightarrow> object a = shared \<sigma>)) \<and>
     (\<forall>t call code r u call' code' r'. threads \<sigma> t = Inside call code r \<longrightarrow> call \<noteq> VNow \<longrightarrow>
       threads \<sigma> u = Inside call' code' r' \<longrightarrow> u = t)"
proof -
  have excl: "u = t" if "threads \<sigma> t = Inside call code r" "call \<noteq> VNow" "threads \<sigma> u = Inside call' code' r'"
    for t call code r u call' code' r'
  proof -
    have "vector_mode call = Exclusive" using that(2) by (cases call) auto
    then show ?thesis using vector_mutex.mutual_exclusion [OF assms that(1) _ that(3)] by blast
  qed
  moreover have "runs (atomic_step vector_op) (atomic_start c) h (vector_mutex.abstract \<sigma>)"
    using vector_mutex.guarded_run [OF assms] by blast
  moreover have "writer \<sigma> = None \<longrightarrow> object (vector_mutex.abstract \<sigma>) = shared \<sigma>"
    using vector_mutex.abstract_object_free by blast
  ultimately have "\<exists>a. runs (atomic_step vector_op) (atomic_start c) h a \<and>
      (writer \<sigma> = None \<longrightarrow> object a = shared \<sigma>)" by (intro exI conjI)
  then show ?thesis using excl by (intro conjI allI impI) assumption+
qed

text \<open>A reader holds the lock while a receive is waiting; then the receive runs.\<close>

definition vector_demo_schedule :: "(nat \<times> vector_call option) list" where
  "vector_demo_schedule =
     [(0, Some VNow)] @ turns [0, 0] @
     [(1, Some (VReceive \<lparr>sn_nodeID = ''b'', sn_vec = [(''b'', 4)]\<rparr>))] @
     turns [0, 0, 0, 0, 0, 1, 1, 1, 1, 1, 1, 1, 1, 1, 1, 1, 1, 1]"

abbreviation vector_demo_history :: "(vector_call, snapshot) call_event list" where
  "vector_demo_history \<equiv>
     [Inv 0 VNow, Inv 1 (VReceive \<lparr>sn_nodeID = ''b'', sn_vec = [(''b'', 4)]\<rparr>),
      Ret 0 VNow \<lparr>sn_nodeID = ''a'', sn_vec = [(''a'', 2)]\<rparr>,
      Ret 1 (VReceive \<lparr>sn_nodeID = ''b'', sn_vec = [(''b'', 4)]\<rparr>)
        \<lparr>sn_nodeID = ''a'', sn_vec = [(''a'', 3), (''b'', 4)]\<rparr>]"

lemma vector_demo_run:
  "\<exists>\<sigma>. runs vector_system (sys_start (vector_NewFromMap ''a'' [(''a'', 2)])) vector_demo_history \<sigma> \<and>
    vc_vec (shared \<sigma>) = [(''a'', 3), (''b'', 4)] \<and> writer \<sigma> = None"
  by (rule schedule_ex [of _ _ _ _ vector_demo_schedule])
     (simp add: vector_demo_schedule_def sys_start_def go_def vector_incr_def vector_copy_def
        vector_merge_def vector_reg_def vector_NewFromMap_def copy_loop_def mput_def mget_def)

theorem vector_linearizable_witness:
  "\<exists>a. runs (atomic_step vector_op) (atomic_start (vector_NewFromMap ''a'' [(''a'', 2)])) vector_demo_history a \<and>
    vc_vec (object a) = [(''a'', 3), (''b'', 4)]"
proof -
  have wf: "wf_clock (vector_NewFromMap ''a'' [(''a'', 2)])"
    by (simp add: vector_NewFromMap_def wf_clock_def wf_map_def keys_def)
  obtain \<sigma> where run: "runs vector_system (sys_start (vector_NewFromMap ''a'' [(''a'', 2)])) vector_demo_history \<sigma>"
      and \<sigma>: "vc_vec (shared \<sigma>) = [(''a'', 3), (''b'', 4)]" "writer \<sigma> = None"
    using vector_demo_run by blast
  from vector_linearizable [OF run wf] show ?thesis using \<sigma> by metis
qed

text \<open>The own entries that concurrent events get are distinct and grow in real time.\<close>

lemma vector_concurrent_stamps:
  assumes "runs vector_system (sys_start c) h \<sigma>" and "vector_room p (length (calls h)) c"
    and "\<forall>k \<in> set (calls h). vector_allowed p (length (calls h)) k"
  shows "distinct (stamps_of vector_stamp h) \<and> real_time_ordered vector_stamp h"
proof -
  have "wf_clock c" using assms(2) by (simp add: vector_room_def)
  then have run: "runs (atomic_step vector_op) (atomic_start c) h (vector_mutex.abstract \<sigma>)"
    using vector_mutex.guarded_run [OF assms(1)] by blast
  show ?thesis
    using vector_stamps.distinct_stamps [OF run assms(2) le_refl assms(3)]
      vector_stamps.real_time_order [OF run assms(2) le_refl assms(3)] by blast
qed

end
