(* ===== verification/Goroutines_Time.thy ===== *)
theory Goroutines_Time
  imports Mutex Ntp
begin

text \<open>
  The guarded objects of the time packages as goroutines share them: \<^verbatim>\<open>wallclock.Fake\<close> and
  \<^verbatim>\<open>truetime.FakeSource\<close>, which a test moves while the code under test reads them, and \<^verbatim>\<open>NTPSource\<close>, whose
  background loop stores the outcome of a query field by field while \<^verbatim>\<open>Now\<close> reads the fields.
\<close>

section \<open>The fake wall clock\<close>

datatype fake_call = FkNow | FkNowNanos | FkSet gotime | FkAdvance duration | FkStep duration | FkReverse duration

datatype fake_result = FkUnit | FkTime gotime | FkNanos i64

record fake_locals =
  fk_now :: gotime
  fk_return :: fake_result

text \<open>\<^verbatim>\<open>f.now = f.now.Add(d)\<close> reads and then writes the field.\<close>

definition fake_add_body :: "duration \<Rightarrow> (fake, fake_locals) stmt list" where
  "fake_add_body d =
     [Do (Read (\<lambda>s r. r\<lparr>fk_now := fake_now s\<rparr>)), Do (Write (\<lambda>r s. s\<lparr>fake_now := time_Add (fk_now r) d\<rparr>))]"

fun fake_body :: "fake_call \<Rightarrow> (fake, fake_locals) stmt list" where
  "fake_body FkNow = [Do (Read (\<lambda>s r. r\<lparr>fk_return := FkTime (fake_now s)\<rparr>))]"
| "fake_body FkNowNanos = [Do (Read (\<lambda>s r. r\<lparr>fk_return := FkNanos (time_UnixNano (fake_now s))\<rparr>))]"
| "fake_body (FkSet t) = [Do (Write (\<lambda>r s. s\<lparr>fake_now := t\<rparr>))]"
| "fake_body (FkAdvance d) = fake_add_body d"
| "fake_body (FkStep d) = fake_add_body d"
| "fake_body (FkReverse d) = fake_add_body (- d)"

fun fake_op :: "fake_call \<Rightarrow> fake \<Rightarrow> fake \<times> fake_result" where
  "fake_op FkNow f = (f, FkTime (fake_Now f))"
| "fake_op FkNowNanos f = (f, FkNanos (fake_NowNanos f))"
| "fake_op (FkSet t) f = (fake_Set t f, FkUnit)"
| "fake_op (FkAdvance d) f = (fake_Advance d f, FkUnit)"
| "fake_op (FkStep d) f = (fake_Step d f, FkUnit)"
| "fake_op (FkReverse d) f = (fake_Reverse d f, FkUnit)"

interpretation fake_mutex: mutex_object "\<lambda>_. Exclusive" fake_body
  "\<lparr>fk_now = zero_time, fk_return = FkUnit\<rparr>" fk_return fake_op "\<lambda>_. True"
proof (unfold_locales, goal_cases)
  case (1 s c s' r)
  then show ?case by (cases c) (auto simp: fake_add_body_def fake_defs)
qed simp_all

section \<open>The fake source\<close>

datatype source_call = FsSet interval | FsAdvance duration | FsNow

record source_locals =
  fs_earliest :: gotime
  fs_latest :: gotime
  fs_return :: "interval option"

fun source_body :: "source_call \<Rightarrow> (fake_source, source_locals) stmt list" where
  "source_body (FsSet i) = [Do (Write (\<lambda>r s. s\<lparr>fs_interval := i\<rparr>))]"
| "source_body (FsAdvance d) =
     [Do (Read (\<lambda>s r. r\<lparr>fs_earliest := time_Add (Earliest (fs_interval s)) d\<rparr>)),
      Do (Read (\<lambda>s r. r\<lparr>fs_latest := time_Add (Latest (fs_interval s)) d\<rparr>)),
      Do (Write (\<lambda>r s. s\<lparr>fs_interval := \<lparr>Earliest = fs_earliest r, Latest = fs_latest r\<rparr>\<rparr>))]"
| "source_body FsNow = [Do (Read (\<lambda>s r. r\<lparr>fs_return := Some (fs_interval s)\<rparr>))]"

fun source_op :: "source_call \<Rightarrow> fake_source \<Rightarrow> fake_source \<times> interval option" where
  "source_op (FsSet i) f = (fake_source_Set i f, None)"
| "source_op (FsAdvance d) f = (fake_source_Advance d f, None)"
| "source_op FsNow f = (f, Some (fake_source_Now f))"

interpretation source_mutex: mutex_object "\<lambda>_. Exclusive" source_body
  "\<lparr>fs_earliest = zero_time, fs_latest = zero_time, fs_return = None\<rparr>" fs_return source_op "\<lambda>_. True"
proof (unfold_locales, goal_cases)
  case (1 s c s' r)
  then show ?case
    by (cases c) (auto simp: fake_source_Set_def fake_source_Advance_def fake_source_Now_def)
qed simp_all

section \<open>The NTP source\<close>

text \<open>
  \<open>NStore\<close> is the end of \<^verbatim>\<open>query\<close>, the three assignments under the lock; the values were computed before.
  \<open>NNow now\<close> copies the three fields under the read lock; \<open>now\<close> is what \<^verbatim>\<open>time.Now()\<close> will return after it.
\<close>

datatype ntp_call = NStore duration duration gotime | NNow gotime | NLastDispersion

datatype ntp_result = NUnit | NInterval interval | NDispersion duration

record ntp_locals =
  n_offset :: duration
  n_disp :: duration
  n_last :: gotime
  n_return :: ntp_result

text \<open>What \<^verbatim>\<open>Now\<close> computes of its three local copies; it touches nothing shared.\<close>

definition ntp_compute :: "gotime \<Rightarrow> duration \<Rightarrow> duration \<Rightarrow> gotime \<Rightarrow> interval" where
  "ntp_compute now offset disp queried =
     (let elapsed = time_Sub now queried;
          elapsed = (if elapsed <s 0 then 0 else elapsed);
          extra = i64_div (elapsed * driftPPM) 1000000;
          mid = time_Add now offset;
          un = disp + extra
      in \<lparr>Earliest = time_Add mid (- un), Latest = time_Add mid un\<rparr>)"

fun ntp_body :: "ntp_call \<Rightarrow> (ntp_source, ntp_locals) stmt list" where
  "ntp_body (NStore offset disp t4) =
     [Do (Write (\<lambda>r s. s\<lparr>lastOffset := offset\<rparr>)),
      Do (Write (\<lambda>r s. s\<lparr>lastDispersion := disp\<rparr>)),
      Do (Write (\<lambda>r s. s\<lparr>lastQuery := t4\<rparr>))]"
| "ntp_body (NNow now) =
     [Do (Read (\<lambda>s r. r\<lparr>n_offset := lastOffset s\<rparr>)),
      Do (Read (\<lambda>s r. r\<lparr>n_disp := lastDispersion s\<rparr>)),
      Do (Read (\<lambda>s r. r\<lparr>n_last := lastQuery s\<rparr>)),
      Do (Read (\<lambda>s r. r\<lparr>n_return := NInterval (ntp_compute now (n_offset r) (n_disp r) (n_last r))\<rparr>))]"
| "ntp_body NLastDispersion = [Do (Read (\<lambda>s r. r\<lparr>n_return := NDispersion (lastDispersion s)\<rparr>))]"

fun ntp_mode :: "ntp_call \<Rightarrow> lock_mode" where
  "ntp_mode (NStore offset disp t4) = Exclusive"
| "ntp_mode (NNow now) = Shared"
| "ntp_mode NLastDispersion = Shared"

definition ntp_store :: "duration \<Rightarrow> duration \<Rightarrow> gotime \<Rightarrow> ntp_source \<Rightarrow> ntp_source" where
  "ntp_store offset disp t4 s = s\<lparr>lastOffset := offset, lastDispersion := disp, lastQuery := t4\<rparr>"

fun ntp_op :: "ntp_call \<Rightarrow> ntp_source \<Rightarrow> ntp_source \<times> ntp_result" where
  "ntp_op (NStore offset disp t4) s = (ntp_store offset disp t4 s, NUnit)"
| "ntp_op (NNow now) s = (s, NInterval (ntp_Now now s))"
| "ntp_op NLastDispersion s = (s, NDispersion (LastDispersion s))"

definition ntp_reg :: ntp_locals where
  "ntp_reg = \<lparr>n_offset = 0, n_disp = 0, n_last = zero_time, n_return = NUnit\<rparr>"

abbreviation ntp_system ::
  "(ntp_call, ntp_source, ntp_locals, ntp_result) system \<Rightarrow> (ntp_call, ntp_result) call_event list \<Rightarrow>
    (ntp_call, ntp_source, ntp_locals, ntp_result) system \<Rightarrow> bool" where
  "ntp_system \<equiv> sys_step ntp_mode ntp_body ntp_reg n_return"

lemma ntp_Now_compute: "ntp_Now now s = ntp_compute now (lastOffset s) (lastDispersion s) (lastQuery s)"
  by (simp add: ntp_Now_def ntp_compute_def Let_def)

interpretation ntp_mutex: mutex_object ntp_mode ntp_body ntp_reg n_return ntp_op "\<lambda>_. True"
proof (unfold_locales, goal_cases)
  case (1 s c s' r)
  then show ?case
    by (cases c) (auto simp: ntp_reg_def ntp_store_def ntp_Now_compute LastDispersion_def)
next
  case (2 c)
  then show ?case by (cases c) auto
qed simp

text \<open>A query that succeeds ends in such a store, and one that fails stores nothing.\<close>

lemma ntp_query_store:
  "ntp_query (NetError e) s = (s, Some e)"
  "\<exists>offset disp. ntp_query (Reply t1 data t4) s = (ntp_store offset disp t4 s, None :: 'e option)"
proof -
  show "ntp_query (NetError e) s = (s, Some e)" by (simp add: ntp_query_def)
  show "\<exists>offset disp. ntp_query (Reply t1 data t4) s = (ntp_store offset disp t4 s, None :: 'e option)"
    unfolding ntp_query_def ntp_store_def Let_def exchange.case by (intro exI) (rule refl)
qed

text \<open>
  The fields \<^verbatim>\<open>Now\<close> combines all come from one query: the interval it returns is computed from the initial
  state or from the three values of one \<open>NStore\<close> that some goroutine has called before.
\<close>

definition ntp_states :: "ntp_source \<Rightarrow> (ntp_call, ntp_result) call_event list \<Rightarrow> ntp_source set" where
  "ntp_states s h = {s} \<union> {s'. \<exists>t offset disp t4. Inv t (NStore offset disp t4) \<in> set h \<and>
     s' = ntp_store offset disp t4 s}"

definition ntp_reads :: "ntp_source \<Rightarrow> (ntp_call, ntp_result) call_event list \<Rightarrow> gotime \<Rightarrow> ntp_result \<Rightarrow> bool" where
  "ntp_reads s h now v \<longleftrightarrow> (\<exists>s' \<in> ntp_states s h. v = NInterval (ntp_Now now s'))"

lemma ntp_states_append: "ntp_states s h \<subseteq> ntp_states s (h @ l)"
  by (auto simp: ntp_states_def)

lemma ntp_reads_append: "ntp_reads s h now v \<Longrightarrow> ntp_reads s (h @ l) now v"
  unfolding ntp_reads_def using ntp_states_append by blast

lemma ntp_states_store:
  assumes "Inv t (NStore offset disp t4) \<in> set h" and "s' \<in> ntp_states s h"
  shows "ntp_store offset disp t4 s' \<in> ntp_states s h"
proof -
  have "ntp_store offset disp t4 s' = ntp_store offset disp t4 s"
    using assms(2) by (auto simp: ntp_states_def ntp_store_def)
  then show ?thesis using assms(1) unfolding ntp_states_def by blast
qed

lemma ntp_atomic_states:
  assumes "runs (atomic_step ntp_op) (atomic_start s) h a"
  shows "object a \<in> ntp_states s h \<and>
    (\<forall>t offset disp t4. clients a t = APending (NStore offset disp t4) \<longrightarrow> Inv t (NStore offset disp t4) \<in> set h) \<and>
    (\<forall>t now v. clients a t = ADone (NNow now) v \<or> Ret t (NNow now) v \<in> set h \<longrightarrow> ntp_reads s h now v)"
  using assms
proof (induction "atomic_start s :: (ntp_call, ntp_source, ntp_result) atomic" h a rule: runs.induct)
  case runs_refl
  then show ?case by (simp add: atomic_start_def ntp_states_def)
next
  case (runs_step h a l a')
  note more = ntp_states_append [of s h l]
  from runs_step.hyps(3) show ?case
  proof (cases rule: atomic_step.cases)
    case (acall t c)
    then show ?thesis using runs_step.hyps(2) more by (auto split: if_splits intro: ntp_reads_append)
  next
    case (effect t c s' v)
    then have h: "h @ l = h" by simp
    have "s' \<in> ntp_states s h"
      using effect runs_step.hyps(2) by (cases c) (auto intro!: ntp_states_store)
    moreover have "ntp_reads s h now v" if "c = NNow now" for now
      using effect runs_step.hyps(2) that by (auto simp: ntp_reads_def)
    ultimately show ?thesis using runs_step.hyps(2) effect unfolding h by auto
  next
    case (areturn t c v)
    then show ?thesis using runs_step.hyps(2) more by (auto split: if_splits intro: ntp_reads_append)
  qed
qed

text \<open>
  C38. Under every schedule of callers of \<^verbatim>\<open>Now\<close> and of goroutines that store query results, each interval
  \<^verbatim>\<open>Now\<close> returns is the one of a single query: offset, dispersion and query time are never mixed from two
  queries, although \<^verbatim>\<open>query\<close> writes and \<^verbatim>\<open>Now\<close> reads them one by one.
\<close>

theorem ntp_readings_consistent:
  assumes "runs ntp_system (sys_start s) h \<sigma>" and "Ret t (NNow now) v \<in> set h"
  shows "v = NInterval (ntp_Now now s) \<or>
    (\<exists>u offset disp t4. Inv u (NStore offset disp t4) \<in> set h \<and>
       v = NInterval (ntp_Now now (s\<lparr>lastOffset := offset, lastDispersion := disp, lastQuery := t4\<rparr>)))"
proof -
  have "runs (atomic_step ntp_op) (atomic_start s) h (ntp_mutex.abstract \<sigma>)"
    using ntp_mutex.guarded_run [OF assms(1)] by blast
  from ntp_atomic_states [OF this] obtain s' where "s' \<in> ntp_states s h" and "v = NInterval (ntp_Now now s')"
    using assms(2) unfolding ntp_reads_def by blast
  then show ?thesis by (auto simp: ntp_states_def ntp_store_def)
qed

text \<open>A reading is called in the middle of a store and waits for its end.\<close>

definition ntp_demo_source :: ntp_source where
  "ntp_demo_source = \<lparr>server = ''ntp'', queryInterval = 1, lastOffset = 0, lastDispersion = 0,
     lastQuery = \<lparr>wall_ns = 0, mono_ns = None\<rparr>\<rparr>"

abbreviation ntp_demo_now :: gotime where
  "ntp_demo_now \<equiv> \<lparr>wall_ns = 100, mono_ns = None\<rparr>"

abbreviation ntp_demo_interval :: interval where
  "ntp_demo_interval \<equiv> \<lparr>Earliest = \<lparr>wall_ns = 105, mono_ns = None\<rparr>, Latest = \<lparr>wall_ns = 109, mono_ns = None\<rparr>\<rparr>"

lemma ntp_demo_run:
  "\<exists>\<sigma>. runs ntp_system (sys_start ntp_demo_source)
     [Inv 0 (NStore 7 2 ntp_demo_now), Inv 1 (NNow ntp_demo_now), Ret 0 (NStore 7 2 ntp_demo_now) NUnit,
      Ret 1 (NNow ntp_demo_now) (NInterval ntp_demo_interval)] \<sigma> \<and> True"
  by (rule schedule_ex [of _ _ _ _ "[(0, Some (NStore 7 2 ntp_demo_now))] @ turns [0, 0] @
        [(1, Some (NNow ntp_demo_now))] @ turns [0, 0, 0, 0, 1, 1, 1, 1, 1, 1, 1]"])
     (simp add: sys_start_def go_def ntp_reg_def ntp_demo_source_def ntp_compute_def time_Sub_def
        time_Add_def saturate_def i64_div_def driftPPM_def Let_def)

theorem ntp_readings_consistent_witness:
  "\<exists>offset disp t4. NInterval ntp_demo_interval = NInterval (ntp_Now ntp_demo_now
     (ntp_demo_source\<lparr>lastOffset := offset, lastDispersion := disp, lastQuery := t4\<rparr>))"
proof -
  let ?h = "[Inv 0 (NStore 7 2 ntp_demo_now), Inv 1 (NNow ntp_demo_now), Ret 0 (NStore 7 2 ntp_demo_now) NUnit,
      Ret 1 (NNow ntp_demo_now) (NInterval ntp_demo_interval)]"
  obtain \<sigma> where run: "runs ntp_system (sys_start ntp_demo_source) ?h \<sigma>" using ntp_demo_run by blast
  have "Ret 1 (NNow ntp_demo_now) (NInterval ntp_demo_interval) \<in> set ?h" by simp
  from ntp_readings_consistent [OF run this] show ?thesis
  proof
    assume "NInterval ntp_demo_interval = NInterval (ntp_Now ntp_demo_now ntp_demo_source)"
    then show ?thesis
      by (intro exI [of _ "lastOffset ntp_demo_source"] exI [of _ "lastDispersion ntp_demo_source"]
          exI [of _ "lastQuery ntp_demo_source"]) simp
  qed auto
qed

end
