(* ===== verification/Progress.thy ===== *)
theory Progress
  imports Goroutines
begin

text \<open>
  Goroutines that share a clock neither block each other for ever nor lose an update. If nobody makes
  another call, every schedule comes to an end, and only when all calls have returned: here for any bodies, since
  the system of \<open>Mutex\<close> locks and unlocks around them; \<open>Locking\<close> has the lock calls of the methods themselves.
  And then the clock has counted every call once, as long as its counter does not wrap and nobody hands it
  timestamps ahead of what it has handed out.
\<close>

section \<open>No deadlock\<close>

text \<open>Runs of a system without new calls.\<close>

definition completes ::
  "(('call, 's, 'r, 'res) system \<Rightarrow> ('call, 'res) call_event list \<Rightarrow> ('call, 's, 'r, 'res) system \<Rightarrow> bool) \<Rightarrow>
    ('call, 's, 'r, 'res) system \<Rightarrow> bool" where
  "completes step \<sigma> \<longleftrightarrow>
     (\<nexists>f. f 0 = \<sigma> \<and> (\<forall>i. \<exists>l. calls l = [] \<and> step (f i) l (f (Suc i)))) \<and>
     ((\<exists>l \<sigma>'. calls l = [] \<and> step \<sigma> l \<sigma>') \<longleftrightarrow> (\<exists>t. threads \<sigma> t \<noteq> Idle))"

text \<open>What is left to do: phases of the calls, loops to unroll, statements to run.\<close>

fun phase :: "('call, 's, 'r, 'res) goroutine \<Rightarrow> nat" where
  "phase Idle = 0"
| "phase (Returning c v) = 1"
| "phase (Inside c code r) = 2"
| "phase (Waiting c) = 3"

fun is_range :: "('s, 'r) stmt \<Rightarrow> bool" where
  "is_range (Range f) = True"
| "is_range _ = False"

fun loops_left :: "('call, 's, 'r, 'res) goroutine \<Rightarrow> nat" where
  "loops_left (Inside c code r) = length (filter is_range code)"
| "loops_left _ = 0"

fun stmts_left :: "('call, 's, 'r, 'res) goroutine \<Rightarrow> nat" where
  "stmts_left (Inside c code r) = length code"
| "stmts_left _ = 0"

definition work :: "nat set \<Rightarrow> ('call, 's, 'r, 'res) system \<Rightarrow> nat \<times> nat \<times> nat" where
  "work A \<sigma> = (\<Sum>t\<in>A. phase (threads \<sigma> t), \<Sum>t\<in>A. loops_left (threads \<sigma> t), \<Sum>t\<in>A. stmts_left (threads \<sigma> t))"

lemma sum_update:
  fixes f :: "'a \<Rightarrow> nat"
  assumes "finite A" "t \<in> A"
  shows "(\<Sum>u\<in>A. f ((g(t := x)) u)) + f (g t) = (\<Sum>u\<in>A. f (g u)) + f x"
proof -
  have "(\<Sum>u\<in>A. f ((g(t := x)) u)) = f x + (\<Sum>u\<in>A - {t}. f (g u))"
    using assms by (simp add: sum.remove)
  moreover have "(\<Sum>u\<in>A. f (g u)) = f (g t) + (\<Sum>u\<in>A - {t}. f (g u))"
    using assms by (simp add: sum.remove)
  ultimately show ?thesis by simp
qed

text \<open>One statement: a loop is unrolled into single accesses, anything else gets shorter.\<close>

lemma stmt_work:
  assumes "stmt_step i rest x = (code, y)"
  shows "length (filter is_range code) < length (filter is_range (i # rest)) \<or>
    length (filter is_range code) = length (filter is_range (i # rest)) \<and> length code < length (i # rest)"
proof (cases i)
  case (Range f)
  have "filter is_range (map Do acts) = []" for acts :: "('a, 'b) act list" by (induction acts) auto
  then show ?thesis using assms Range by (cases x) auto
next
  case (ReturnIf b v)
  then show ?thesis using assms by (cases x; cases "filter is_range rest") (auto split: if_splits)
qed (use assms in \<open>cases x; auto\<close>)

lemma quiet_work:
  assumes "sys_step mode body reg result \<sigma> l \<sigma>'" "calls l = []"
    and A: "finite A" "\<forall>t. threads \<sigma> t \<noteq> Idle \<longrightarrow> t \<in> A"
  shows "(work A \<sigma>', work A \<sigma>) \<in> less_than <*lex*> less_than <*lex*> less_than \<and>
    (\<forall>t. threads \<sigma>' t \<noteq> Idle \<longrightarrow> t \<in> A)"
proof -
  have phase_less: ?thesis
    if "threads \<sigma>' = (threads \<sigma>)(t := g)" "phase g < phase (threads \<sigma> t)" for t g
  proof -
    have "t \<in> A" using that A(2) by (cases "threads \<sigma> t") auto
    then show ?thesis using that A sum_update [OF A(1), of t phase "threads \<sigma>" g]
      by (auto simp: work_def)
  qed
  show ?thesis
    using assms(1)
  proof (cases rule: sys_step.cases)
    case (call t c)
    then show ?thesis using assms(2) by simp
  next
    case (exec t c i rest r code s' r')
    let ?g = "Inside c code r'"
    have t: "t \<in> A" using exec A(2) by simp
    have th: "threads \<sigma>' = (threads \<sigma>)(t := ?g)" using exec by simp
    show ?thesis
      using stmt_work [OF exec(4)] exec(3) t A sum_update [OF A(1) t, of phase "threads \<sigma>" ?g]
        sum_update [OF A(1) t, of loops_left "threads \<sigma>" ?g] sum_update [OF A(1) t, of stmts_left "threads \<sigma>" ?g]
      by (auto simp: work_def th)
  qed (use phase_less in simp_all)
qed

text \<open>Whoever holds the lock is inside.\<close>

definition holders_inside :: "('call \<Rightarrow> lock_mode) \<Rightarrow> ('call, 's, 'r, 'res) system \<Rightarrow> bool" where
  "holders_inside mode \<sigma> \<longleftrightarrow>
     (\<forall>t. writer \<sigma> = Some t \<longrightarrow> (\<exists>c code r. threads \<sigma> t = Inside c code r \<and> mode c = Exclusive)) \<and>
     (\<forall>t \<in> readers \<sigma>. \<exists>c code r. threads \<sigma> t = Inside c code r \<and> mode c = Shared)"

lemma step_holders:
  assumes "sys_step mode body reg result \<sigma> l \<sigma>'" "holders_inside mode \<sigma>"
  shows "holders_inside mode \<sigma>'"
  using assms by (cases rule: sys_step.cases) (fastforce simp: holders_inside_def)+

lemma run_holders:
  fixes \<sigma> :: "('call, 's, 'r, 'res) system"
  assumes "runs (sys_step mode body reg result) (sys_start s) h \<sigma>"
  shows "holders_inside mode \<sigma> \<and> finite {t. threads \<sigma> t \<noteq> Idle}"
  using assms
proof (induction "sys_start s :: ('call, 's, 'r, 'res) system" h \<sigma> rule: runs.induct)
  case runs_refl
  then show ?case by (simp add: holders_inside_def sys_start_def)
next
  case (runs_step h \<sigma> l \<sigma>')
  have "\<exists>t. {t. threads \<sigma>' t \<noteq> Idle} \<subseteq> insert t {t. threads \<sigma> t \<noteq> Idle}"
    using runs_step.hyps(3) by (cases rule: sys_step.cases) auto
  then show ?case using runs_step step_holders by (metis finite_insert finite_subset)
qed

lemma quiet_progress:
  assumes "holders_inside mode \<sigma>" "threads \<sigma> t \<noteq> Idle"
  shows "\<exists>l \<sigma>'. calls l = [] \<and> sys_step mode body reg result \<sigma> l \<sigma>'"
proof (cases "\<exists>t c code r. threads \<sigma> t = Inside c code r")
  case True
  then obtain t c code r where t: "threads \<sigma> t = Inside c code r" by blast
  show ?thesis
  proof (cases code)
    case Nil
    then show ?thesis
      using t sys_step.unlock [of \<sigma> t c r mode] sys_step.runlock [of \<sigma> t c r mode]
      by (cases "mode c") (metis calls_simps(1))+
  next
    case (Cons i rest)
    obtain code' s' r' where "stmt_step i rest (shared \<sigma>, r) = (code', s', r')" by (metis prod_cases3)
    then show ?thesis using t Cons sys_step.exec [of \<sigma> t c i rest r] by (metis calls_simps(1))
  qed
next
  case False
  then have free: "writer \<sigma> = None" "readers \<sigma> = {}"
    using assms(1) by (auto simp: holders_inside_def)
  show ?thesis
  proof (cases "threads \<sigma> t")
    case (Waiting c)
    then show ?thesis
      using free sys_step.lock [of \<sigma> t c mode] sys_step.rlock [of \<sigma> t c mode]
      by (cases "mode c") (metis calls_simps(1))+
  next
    case (Returning c v)
    then have "sys_step mode body reg result \<sigma> [Ret t c v] (\<sigma>\<lparr>threads := (threads \<sigma>)(t := Idle)\<rparr>)"
      by (rule sys_step.return)
    then show ?thesis by (metis calls_simps(1,4))
  qed (use assms False in auto)
qed

text \<open>Without new calls a system cannot run for ever if some measure decreases in every step.\<close>

lemma no_endless_run:
  assumes "wf R" and "I \<sigma>"
    and step: "\<And>\<sigma> l \<sigma>'. I \<sigma> \<Longrightarrow> calls l = [] \<Longrightarrow> step \<sigma> l \<sigma>' \<Longrightarrow> I \<sigma>' \<and> (m \<sigma>', m \<sigma>) \<in> R"
  shows "\<nexists>f. f 0 = \<sigma> \<and> (\<forall>i. \<exists>l. calls l = [] \<and> step (f i) l (f (Suc i)))"
proof
  assume "\<exists>f. f 0 = \<sigma> \<and> (\<forall>i. \<exists>l. calls l = [] \<and> step (f i) l (f (Suc i)))"
  then obtain f where f: "f 0 = \<sigma>" "\<And>i. \<exists>l. calls l = [] \<and> step (f i) l (f (Suc i))" by blast
  have I: "I (f i)" for i
  proof (induction i)
    case (Suc i)
    then show ?case using f(2) [of i] step by blast
  qed (simp add: f(1) assms(2))
  have "(m (f (Suc i)), m (f i)) \<in> R" for i using f(2) [of i] step [OF I] by blast
  with \<open>wf R\<close> show False by (elim wf_no_infinite_down_chainE [where f = "\<lambda>i. m (f i)"]) blast
qed

lemma run_completes:
  assumes "runs (sys_step mode body reg result) (sys_start s) h \<sigma>"
  shows "completes (sys_step mode body reg result) \<sigma>"
  unfolding completes_def
proof (intro conjI iffI)
  define A where "A = {t. threads \<sigma> t \<noteq> Idle}"
  have A: "finite A" using run_holders [OF assms] by (simp add: A_def)
  show "\<nexists>f. f 0 = \<sigma> \<and> (\<forall>i. \<exists>l. calls l = [] \<and> sys_step mode body reg result (f i) l (f (Suc i)))"
  proof (rule no_endless_run [where m = "work A" and I = "\<lambda>\<sigma>. \<forall>t. threads \<sigma> t \<noteq> Idle \<longrightarrow> t \<in> A"])
    show "wf (less_than <*lex*> less_than <*lex*> less_than)" by (intro wf_lex_prod wf_less_than)
    show "\<forall>t. threads \<sigma> t \<noteq> Idle \<longrightarrow> t \<in> A" by (simp add: A_def)
  next
    fix \<sigma> l \<sigma>'
    assume active: "\<forall>t. threads \<sigma> t \<noteq> Idle \<longrightarrow> t \<in> A" and l: "calls l = []"
      and st: "sys_step mode body reg result \<sigma> l \<sigma>'"
    from quiet_work [OF st l A active]
    show "(\<forall>t. threads \<sigma>' t \<noteq> Idle \<longrightarrow> t \<in> A) \<and>
        (work A \<sigma>', work A \<sigma>) \<in> less_than <*lex*> less_than <*lex*> less_than" by (rule conj_commute [THEN iffD1])
  qed
next
  assume "\<exists>l \<sigma>'. calls l = [] \<and> sys_step mode body reg result \<sigma> l \<sigma>'"
  then obtain l \<sigma>' where l: "calls l = []" and st: "sys_step mode body reg result \<sigma> l \<sigma>'" by blast
  from st show "\<exists>t. threads \<sigma> t \<noteq> Idle"
  proof (cases rule: sys_step.cases)
    case (call t c)
    then show ?thesis using l by simp
  qed (metis goroutine.distinct)+
next
  assume "\<exists>t. threads \<sigma> t \<noteq> Idle"
  then obtain t where "threads \<sigma> t \<noteq> Idle" by blast
  with run_holders [OF assms, THEN conjunct1]
  show "\<exists>l \<sigma>'. calls l = [] \<and> sys_step mode body reg result \<sigma> l \<sigma>'" by (rule quiet_progress)
qed

section \<open>No lost update\<close>

text \<open>
  An object that counts its calls: \<open>count\<close> grows by \<open>weight c\<close> when a call \<open>c\<close> that is \<open>counted\<close> in the state takes
  effect and the sum \<open>fits\<close>. What is counted once is counted later, and so is a call that passes on what an earlier
  call has \<open>told\<close>. Then, once all calls have returned, the count is the sum of the weights of all calls.
\<close>

locale counting =
  fixes op :: "'call \<Rightarrow> 's \<Rightarrow> 's \<times> 'res"
    and ok :: "'s \<Rightarrow> bool"
    and count :: "'s \<Rightarrow> 'n::comm_monoid_add"
    and weight :: "'call \<Rightarrow> 'n"
    and fits :: "'n \<Rightarrow> bool"
    and counted :: "'s \<Rightarrow> 'call \<Rightarrow> bool"
    and told :: "'res \<Rightarrow> 'call \<Rightarrow> bool"
  assumes op_count: "ok s \<Longrightarrow> counted s c \<Longrightarrow> fits (count s + weight c) \<Longrightarrow> op c s = (s', v) \<Longrightarrow>
      count s' = count s + weight c \<and> ok s'"
    and counted_later: "ok s \<Longrightarrow> counted s c \<Longrightarrow> fits (count s + weight c) \<Longrightarrow> op c s = (s', v) \<Longrightarrow>
      counted s d \<or> told v d \<Longrightarrow> counted s' d"
begin

text \<open>The calls of a history are counted in its initial state, or were told by calls that have returned before.\<close>

definition accountable :: "'s \<Rightarrow> ('call, 'res) call_event list \<Rightarrow> bool" where
  "accountable s h \<longleftrightarrow> (\<forall>h1 t c h2. h = h1 @ Inv t c # h2 \<longrightarrow>
     counted s c \<or> (\<exists>u d v. Ret u d v \<in> set h1 \<and> told v c))"

fun pending_weight :: "('call, 'res) client \<Rightarrow> 'n" where
  "pending_weight (APending c) = weight c"
| "pending_weight _ = 0"

definition active :: "('call, 's, 'res) atomic \<Rightarrow> nat set" where
  "active a = {t. clients a t \<noteq> AIdle}"

definition total :: "'s \<Rightarrow> ('call, 'res) call_event list \<Rightarrow> 'n" where
  "total s h = count s + sum_list (List.map weight (calls h))"

definition accounted :: "'s \<Rightarrow> ('call, 'res) call_event list \<Rightarrow> ('call, 's, 'res) atomic \<Rightarrow> bool" where
  "accounted s h a \<longleftrightarrow> ok (object a) \<and> finite (active a) \<and>
     (\<forall>t c. clients a t = APending c \<longrightarrow> counted (object a) c) \<and>
     (\<forall>t c v d. clients a t = ADone c v \<or> Ret t c v \<in> set h \<longrightarrow> told v d \<longrightarrow> counted (object a) d) \<and>
     (\<forall>d. counted s d \<longrightarrow> counted (object a) d) \<and>
     count (object a) + (\<Sum>t\<in>active a. pending_weight (clients a t)) = total s h"

lemma sum_active:
  assumes "finite (active a)"
  shows "(\<Sum>t\<in>active a. pending_weight (clients a t)) =
    pending_weight (clients a t) + (\<Sum>u\<in>active a - {t}. pending_weight (clients a u))"
proof (cases "t \<in> active a")
  case True
  then show ?thesis using assms by (rule sum.remove [rotated])
next
  case False
  then have "pending_weight (clients a t) = 0" by (simp add: active_def)
  then show ?thesis using False by simp
qed

lemma sum_changed:
  assumes "finite (active a)" "clients a' = (clients a)(t := g)"
  shows "finite (active a')"
    and "(\<Sum>u\<in>active a'. pending_weight (clients a' u)) =
      pending_weight g + (\<Sum>u\<in>active a - {t}. pending_weight (clients a u))"
proof -
  have "active a' \<subseteq> insert t (active a)" using assms(2) by (auto simp: active_def)
  then show f: "finite (active a')" using assms(1) by (meson finite_insert finite_subset)
  have "active a' - {t} = active a - {t}" using assms(2) by (auto simp: active_def)
  moreover have "(\<Sum>u\<in>active a - {t}. pending_weight (clients a' u)) =
      (\<Sum>u\<in>active a - {t}. pending_weight (clients a u))"
    using assms(2) by (intro sum.cong) auto
  ultimately show "(\<Sum>u\<in>active a'. pending_weight (clients a' u)) =
      pending_weight g + (\<Sum>u\<in>active a - {t}. pending_weight (clients a u))"
    using sum_active [OF f, of t] assms(2) by simp
qed

lemma step_accounted:
  assumes "atomic_step op a l a'" and acc: "accounted s h a"
    and new: "\<And>t c. l = [Inv t c] \<Longrightarrow> counted (object a) c"
    and fit: "\<And>x y. x + y = total s (h @ l) \<Longrightarrow> fits x"
  shows "accounted s (h @ l) a'"
proof -
  have fin: "finite (active a)" using acc by (simp add: accounted_def)
  note before = sum_active [OF fin]
  show ?thesis
    using assms(1)
  proof (cases rule: atomic_step.cases)
    case (acall t c)
    then show ?thesis
      using acc new [of t c] before [of t] sum_changed [OF fin, of a' t "APending c"]
      by (auto simp: accounted_def total_def ac_simps)
  next
    case (effect t c s' v)
    then have c: "ok (object a)" "counted (object a) c" using acc by (auto simp: accounted_def)
    have "(count (object a) + weight c) + (\<Sum>u\<in>active a - {t}. pending_weight (clients a u)) = total s (h @ l)"
      using acc effect before [of t] by (simp add: accounted_def ac_simps)
    then have "fits (count (object a) + weight c)" by (rule fit)
    note op = op_count [OF c this effect(4)] counted_later [OF c this effect(4)]
    have "count s' + (\<Sum>u\<in>active a'. pending_weight (clients a' u)) = total s h"
      using effect acc op(1) before [of t] sum_changed(2) [OF fin, of a' t "ADone c v"]
      by (simp add: accounted_def ac_simps)
    then show ?thesis
      using effect acc op sum_changed(1) [OF fin, of a' t "ADone c v"] unfolding accounted_def by auto
  next
    case (areturn t c v)
    then show ?thesis
      using acc before [of t] sum_changed [OF fin, of a' t AIdle]
      by (auto simp: accounted_def total_def)
  qed
qed

lemma run_accounted:
  assumes "runs (atomic_step op) (atomic_start s) h a" "ok s" "accountable s h"
    and "\<And>x y. x + y = total s h \<Longrightarrow> fits x"
  shows "accounted s h a"
  using assms
proof (induction "atomic_start s :: ('call, 's, 'res) atomic" h a rule: runs.induct)
  case runs_refl
  then show ?case by (simp add: accounted_def atomic_start_def active_def total_def)
next
  case (runs_step h a l a')
  have "accountable s h" using runs_step.prems(2) by (fastforce simp: accountable_def)
  moreover have "fits x" if "x + y = total s h" for x y
  proof (rule runs_step.prems(3))
    show "x + (y + sum_list (List.map weight (calls l))) = total s (h @ l)"
      using that by (simp add: total_def add.assoc [symmetric])
  qed
  ultimately have acc: "accounted s h a" using runs_step.hyps(2) runs_step.prems(1) by blast
  have "counted (object a) c" if "l = [Inv t c]" for t c
  proof -
    have "counted s c \<or> (\<exists>u d v. Ret u d v \<in> set h \<and> told v c)"
      using runs_step.prems(2) that by (auto simp: accountable_def)
    then show ?thesis using acc unfolding accounted_def by blast
  qed
  from step_accounted [OF runs_step.hyps(3) acc this runs_step.prems(3)] show ?case .
qed

lemma final_count:
  assumes "runs (atomic_step op) (atomic_start s) h a" "ok s" "accountable s h"
    and "\<And>x y. x + y = total s h \<Longrightarrow> fits x" and "\<And>t. clients a t = AIdle"
  shows "count (object a) = count s + sum_list (List.map weight (calls h))"
proof -
  have "active a = {}" using assms(5) by (simp add: active_def)
  then show ?thesis using run_accounted [OF assms(1-4)] by (simp add: accounted_def total_def)
qed

end

context mutex_object
begin

lemma quiescent:
  assumes "runs step (sys_start s) h \<sigma>" "ok s" "\<And>t. threads \<sigma> t = Idle"
  shows "runs (atomic_step op) (atomic_start s) h (abstract \<sigma>)" "clients (abstract \<sigma>) t = AIdle"
    "object (abstract \<sigma>) = shared \<sigma>"
proof -
  show "runs (atomic_step op) (atomic_start s) h (abstract \<sigma>)" using guarded_run [OF assms(1,2)] by blast
  show "clients (abstract \<sigma>) t = AIdle" using assms(3) by (simp add: abstract_def abs_client_def)
  have "writer \<sigma> = None"
    using run_holders [OF assms(1)] assms(3) by (cases "writer \<sigma>") (auto simp: holders_inside_def)
  then show "object (abstract \<sigma>) = shared \<sigma>" by (rule abstract_object_free)
qed

end

section \<open>The clocks\<close>

fun vector_weight :: "vector_call \<Rightarrow> nat" where
  "vector_weight VNow = 0"
| "vector_weight c = 1"

text \<open>A received snapshot that knows of the clock \<open>p\<close> at most \<open>n\<close> of its events.\<close>

fun vector_knows_upto :: "string \<Rightarrow> u64 \<Rightarrow> vector_call \<Rightarrow> bool" where
  "vector_knows_upto p n (VReceive m) \<longleftrightarrow> wf_snapshot m \<and> snapshot_Get m p \<le> n"
| "vector_knows_upto p n c \<longleftrightarrow> True"

interpretation vector_count: counting vector_op "\<lambda>c. wf_clock c \<and> vector_NodeID c = p" "\<lambda>c. unat (vector_own p c)"
  vector_weight "\<lambda>n. n < 2 ^ 64" "\<lambda>c. vector_knows_upto p (vector_own p c)" "\<lambda>v. vector_knows_upto p (snapshot_Get v p)"
  for p
proof -
  note defs = vector_NodeID_def vector_own_def snapshot_Get_def vector_Now_def snapshotLocked_def
  have step: "unat (vector_own p s') = unat (vector_own p s) + vector_weight c \<and> wf_clock s' \<and> vector_NodeID s' = p \<and>
      snapshot_Get v p = vector_own p s'"
    if wf: "wf_clock s" and p: "vector_NodeID s = p" and kn: "vector_knows_upto p (vector_own p s) c"
      and fits: "unat (vector_own p s) + vector_weight c < 2 ^ 64" and op: "vector_op c s = (s', v)" for s c s' v
  proof -
    have tick: ?thesis if t: "vector_Tick s = (s', v)" and c: "c = VTick \<or> c = VSend"
      using vector_Tick_props [OF t wf] p wf fits c by (auto simp: defs wf_clock_def unat_plus_one)
    show ?thesis
    proof (cases c)
      case (VReceive m)
      have r: "vector_Receive m s = (s', v)" and m: "wf_snapshot m" "cget (sn_vec m) p \<le> cget (vc_vec s) p"
        using op kn VReceive wf by (auto simp: defs wf_clock_def)
      then show ?thesis
        using vector_Receive_props [OF r wf m(1)] p wf fits VReceive
        by (auto simp: defs wf_clock_def max_absorb1 unat_plus_one)
    next
      case VNow
      then show ?thesis using wf p op by (auto simp: defs)
    qed (use op tick in \<open>auto simp: vector_Send_Tick\<close>)
  qed
  have mono: "vector_knows_upto p n d \<Longrightarrow> n \<le> n' \<Longrightarrow> vector_knows_upto p n' d" for n n' d
    by (cases d) (auto intro: order_trans)
  show "counting vector_op (\<lambda>c. wf_clock c \<and> vector_NodeID c = p) (\<lambda>c. unat (vector_own p c)) vector_weight
      (\<lambda>n. n < 2 ^ 64) (\<lambda>c. vector_knows_upto p (vector_own p c)) (\<lambda>v. vector_knows_upto p (snapshot_Get v p))"
  proof (unfold_locales, goal_cases)
    case (1 s c s' v)
    then show ?case using step [of s c s' v] by blast
  next
    case (2 s c s' v d)
    then have "unat (vector_own p s) \<le> unat (vector_own p s')" "snapshot_Get v p = vector_own p s'"
      using step [of s c s' v] by auto
    then show ?case using 2(5) mono [of _ d "vector_own p s'"] by (auto simp: word_le_nat_alt)
  qed
qed

lemma vector_weight_sum:
  "sum_list (List.map vector_weight cs) = length (filter (\<lambda>k. k \<noteq> VNow) cs)"
proof (induction cs)
  case (Cons c cs)
  then show ?case by (cases c) simp_all
qed simp

fun lamport_weight :: "lamport_call \<Rightarrow> nat" where
  "lamport_weight LNow = 0"
| "lamport_weight (LReset to) = 0"
| "lamport_weight c = 1"

text \<open>A call that is no \<^verbatim>\<open>Reset\<close> and receives no timestamp above \<open>n\<close>.\<close>

fun lamport_knows_upto :: "u64 \<Rightarrow> lamport_call \<Rightarrow> bool" where
  "lamport_knows_upto n (LReceive m) \<longleftrightarrow> m \<le> n"
| "lamport_knows_upto n (LReset to) \<longleftrightarrow> False"
| "lamport_knows_upto n c \<longleftrightarrow> True"

interpretation lamport_count: counting lamport_op "\<lambda>_. True" "\<lambda>c. unat (lamport_Now c)" lamport_weight
  "\<lambda>n. n < 2 ^ 64" "\<lambda>c. lamport_knows_upto (lamport_Now c)" "\<lambda>v d. \<exists>n. v = Some n \<and> lamport_knows_upto n d"
proof -
  have step: "unat (lamport_Now s') = unat (lamport_Now s) + lamport_weight c \<and> (\<forall>n. v = Some n \<longrightarrow> n = lamport_Now s')"
    if "lamport_knows_upto (lamport_Now s) c" "unat (lamport_Now s) + lamport_weight c < 2 ^ 64" "lamport_op c s = (s', v)"
    for s c s' v
    using that by (cases c) (auto simp: lamport_defs Let_def unat_plus_one max_absorb1)
  have mono: "lamport_knows_upto n d \<Longrightarrow> n \<le> n' \<Longrightarrow> lamport_knows_upto n' d" for n n' d
    by (cases d) (auto intro: order_trans)
  show "counting lamport_op (\<lambda>_. True) (\<lambda>c. unat (lamport_Now c)) lamport_weight (\<lambda>n. n < 2 ^ 64)
      (\<lambda>c. lamport_knows_upto (lamport_Now c)) (\<lambda>v d. \<exists>n. v = Some n \<and> lamport_knows_upto n d)"
  proof (unfold_locales, goal_cases)
    case (1 s c s' v)
    then show ?case using step [of s c s' v] by blast
  next
    case (2 s c s' v d)
    then have "lamport_Now s \<le> lamport_Now s'" "\<forall>n. v = Some n \<longrightarrow> n = lamport_Now s'"
      using step [of s c s' v] by (auto simp: word_le_nat_alt)
    then show ?case using 2(5) mono [of _ d "lamport_Now s'"] by auto
  qed
qed

text \<open>No goroutine waits for ever on any clock, whatever they call.\<close>

lemma clock_calls_complete:
  "runs lamport_system (sys_start cl) hl \<sigma>l \<Longrightarrow> completes lamport_system \<sigma>l"
  "runs hlc_system (sys_start ch) hh \<sigma>h \<Longrightarrow> completes hlc_system \<sigma>h"
  "runs vector_system (sys_start cv) hv \<sigma>v \<Longrightarrow> completes vector_system \<sigma>v"
  by (rule run_completes, assumption)+

lemma weights_fit: "n + length (calls h) < 2 ^ 64 \<Longrightarrow> (\<And>c. weight c \<le> (1 :: nat)) \<Longrightarrow>
    x + y = n + sum_list (List.map weight (calls h)) \<Longrightarrow> x < 2 ^ 64"
proof -
  assume n: "n + length (calls h) < 2 ^ 64" and w: "\<And>c. weight c \<le> (1 :: nat)"
    and x: "x + y = n + sum_list (List.map weight (calls h))"
  have "sum_list (List.map weight (calls h)) \<le> length (calls h)"
    using sum_list_mono [of "calls h" weight "\<lambda>_. 1"] w by (simp add: sum_list_triv)
  then show ?thesis using n x by linarith
qed

text \<open>
  Events that share a Lamport clock each add one, as long as what they receive is not ahead of what the clock
  has handed out.
\<close>

lemma lamport_no_lost_update:
  assumes "runs lamport_system (sys_start c) h \<sigma>" and "\<forall>t. threads \<sigma> t = Idle"
    and "lamport_count.accountable c h" and "unat (lamport_Now c) + length (calls h) < 2 ^ 64"
  shows "unat (lamport_Now (shared \<sigma>)) = unat (lamport_Now c) + sum_list (List.map lamport_weight (calls h))"
proof -
  have w: "lamport_weight k \<le> 1" for k by (cases k) simp_all
  have fit: "x < 2 ^ 64" if "x + y = lamport_count.total c h" for x y
    by (rule weights_fit [OF assms(4) w]) (use that in \<open>simp add: lamport_count.total_def\<close>)
  show ?thesis
    using lamport_count.final_count [OF lamport_mutex.quiescent(1) [OF assms(1)] _ assms(3) fit]
      lamport_mutex.quiescent(2,3) [OF assms(1)] assms(2) by simp
qed

text \<open>The same for the own entry of a vector clock.\<close>

lemma vector_entry_counts:
  assumes "runs vector_system (sys_start c) h \<sigma>" and wf: "wf_clock c" and "\<forall>t. threads \<sigma> t = Idle"
    and "vector_NodeID c = p" and "vector_count.accountable p c h" and "unat (vector_own p c) + length (calls h) < 2 ^ 64"
  shows "unat (vector_own p (shared \<sigma>)) = unat (vector_own p c) + length (filter (\<lambda>k. k \<noteq> VNow) (calls h))"
proof -
  have w: "vector_weight k \<le> 1" for k by (cases k) simp_all
  have fit: "x < 2 ^ 64" if "x + y = vector_count.total p c h" for x y
    by (rule weights_fit [OF assms(6) w]) (use that in \<open>simp add: vector_count.total_def\<close>)
  show ?thesis
    using vector_count.final_count [OF vector_mutex.quiescent(1) [OF assms(1,2)] _ assms(5) fit]
      vector_mutex.quiescent(2,3) [OF assms(1,2)] assms(3,4) wf by (simp add: vector_weight_sum)
qed

section \<open>Properties\<close>

text \<open>
  What a received snapshot says of the clock \<open>p\<close> stems from that clock: it knows at most the events that the clock
  started with, or those that a snapshot knows which a call on the clock has returned before.
\<close>

definition vector_stems ::
  "string \<Rightarrow> vclock \<Rightarrow> (vector_call, snapshot) call_event list \<Rightarrow> snapshot \<Rightarrow> bool" where
  "vector_stems p c h m \<longleftrightarrow> wf_snapshot m \<and>
     (snapshot_Get m p \<le> snapshot_Get (vector_Now c) p \<or>
      (\<exists>t call v. Ret t call v \<in> set h \<and> snapshot_Get m p \<le> snapshot_Get v p))"

lemma vector_accountable:
  assumes "\<And>h1 t m h2. h = h1 @ Inv t (VReceive m) # h2 \<Longrightarrow> vector_stems p c h1 m"
  shows "vector_count.accountable p c h"
  unfolding vector_count.accountable_def
proof (intro allI impI)
  fix h1 t k h2
  assume h: "h = h1 @ Inv t k # h2"
  show "vector_knows_upto p (vector_own p c) k \<or>
      (\<exists>u d v. Ret u d v \<in> set h1 \<and> vector_knows_upto p (snapshot_Get v p) k)"
  proof (cases k)
    case (VReceive m)
    then show ?thesis using assms [of h1 t m h2] h by (auto simp: vector_stems_def vector_own_def)
  qed simp_all
qed

text \<open>
  C7. No update is lost: when all calls have returned, the clock's own entry has grown by exactly the number of
  \<^verbatim>\<open>Tick\<close>, \<^verbatim>\<open>Send\<close> and \<^verbatim>\<open>Receive\<close> calls, however the goroutines were scheduled. The conditions are that
  the entry stays below \<open>2 ^ 64\<close> and that received snapshots know of this clock only what stems from it: a
  reply to an earlier message does, a forged entry would raise the clock by more.
\<close>

theorem vector_no_lost_update:
  assumes "runs vector_system (sys_start c) h \<sigma>" and "wf_clock c" and "vector_NodeID c = p"
    and "\<forall>t. threads \<sigma> t = Idle"
    and "\<And>h1 t m h2. h = h1 @ Inv t (VReceive m) # h2 \<Longrightarrow> vector_stems p c h1 m"
    and "unat (snapshot_Get (vector_Now c) p) + length (calls h) < 2 ^ 64"
  shows "unat (snapshot_Get (vector_Now (shared \<sigma>)) p) =
    unat (snapshot_Get (vector_Now c) p) + length (filter (\<lambda>k. k \<noteq> VNow) (calls h))"
  using vector_entry_counts [OF assms(1,2,4,3) vector_accountable] assms(5,6) by (simp add: vector_own_def)

text \<open>A tick returns, and a reply to it is received while another goroutine sends.\<close>

definition vector_reply_schedule :: "(nat \<times> vector_call option) list" where
  "vector_reply_schedule =
     [(0, Some VTick)] @ turns [0, 0, 0, 0, 0, 0, 0, 0, 0] @
     [(0, Some (VReceive \<lparr>sn_nodeID = ''b'', sn_vec = [(''b'', 4), (''a'', 3)]\<rparr>)), (1, Some VSend)] @
     turns [1, 1, 1, 1, 1, 1, 1, 1, 0, 0, 0, 0, 0, 0, 0, 0, 0, 0, 0, 0, 0, 0, 0, 1]"

abbreviation vector_reply_history :: "(vector_call, snapshot) call_event list" where
  "vector_reply_history \<equiv>
     [Inv 0 VTick, Ret 0 VTick \<lparr>sn_nodeID = ''a'', sn_vec = [(''a'', 3)]\<rparr>,
      Inv 0 (VReceive \<lparr>sn_nodeID = ''b'', sn_vec = [(''b'', 4), (''a'', 3)]\<rparr>), Inv 1 VSend,
      Ret 0 (VReceive \<lparr>sn_nodeID = ''b'', sn_vec = [(''b'', 4), (''a'', 3)]\<rparr>)
        \<lparr>sn_nodeID = ''a'', sn_vec = [(''a'', 5), (''b'', 4)]\<rparr>,
      Ret 1 VSend \<lparr>sn_nodeID = ''a'', sn_vec = [(''a'', 4)]\<rparr>]"

lemma vector_reply_run:
  "\<exists>\<sigma>. runs vector_system (sys_start (vector_NewFromMap ''a'' [(''a'', 2)])) vector_reply_history \<sigma> \<and>
    (\<forall>t. threads \<sigma> t = Idle)"
  by (rule schedule_ex [of _ _ _ _ vector_reply_schedule])
     (simp add: vector_reply_schedule_def sys_start_def go_def vector_incr_def vector_copy_def
        vector_merge_def vector_reg_def vector_NewFromMap_def copy_loop_def mput_def mget_def)

lemma vector_reply_stems:
  "vector_reply_history = h1 @ Inv t (VReceive m) # h2 \<Longrightarrow> vector_stems ''a'' c h1 m"
  by (auto simp: Cons_eq_append_conv vector_stems_def wf_snapshot_def wf_map_def keys_def snapshot_Get_def mget_def)

theorem vector_no_lost_update_witness:
  "\<exists>\<sigma>. runs vector_system (sys_start (vector_NewFromMap ''a'' [(''a'', 2)])) vector_reply_history \<sigma> \<and>
    unat (snapshot_Get (vector_Now (shared \<sigma>)) ''a'') = 5"
proof -
  let ?c = "vector_NewFromMap ''a'' [(''a'', 2)]"
  have wf: "wf_clock ?c" "vector_NodeID ?c = ''a''" and start: "snapshot_Get (vector_Now ?c) ''a'' = 2"
    by (simp_all add: vector_NewFromMap_def wf_clock_def wf_map_def keys_def vector_NodeID_def
        vector_Now_def snapshotLocked_def snapshot_Get_def copy_loop_def mput_def mget_def)
  obtain \<sigma> where run: "runs vector_system (sys_start ?c) vector_reply_history \<sigma>" "\<forall>t. threads \<sigma> t = Idle"
    using vector_reply_run by blast
  have "unat (snapshot_Get (vector_Now (shared \<sigma>)) ''a'') = 5"
    using vector_no_lost_update [OF run(1) wf run(2) vector_reply_stems] by (simp add: start)
  with run(1) show ?thesis by blast
qed

end
