(* ===== verification/Locking.thy ===== *)
theory Locking
  imports Progress
begin

text \<open>
  The lock calls of the methods as statements of their bodies. In \<open>Mutex\<close> the system takes the lock before a body
  and releases it behind; here a method is the list of everything it does, with \<^verbatim>\<open>Lock()\<close>, \<^verbatim>\<open>defer Unlock()\<close> and
  their read forms where the source has them, so that a method may forget to unlock, lock twice or unlock what it does
  not hold. The locale \<open>guarded_code\<close> is the discipline the library's methods follow; it gives that such a
  system has only the histories of \<open>Mutex\<close>, and that no goroutine waits for ever.
\<close>

section \<open>Programs with lock calls\<close>

text \<open>
  \<open>AwaitReaders\<close> is the second half of \<^verbatim>\<open>RWMutex.Lock\<close>: the writer has announced itself, so that new readers are
  held back, and waits until the readers that are inside have left.
\<close>

datatype ('s, 'r) code =
    Lock lock_mode
  | AwaitReaders
  | DeferUnlock lock_mode
  | Unlock lock_mode
  | Run "('s, 'r) stmt"

text \<open>\<^verbatim>\<open>return\<close> in the middle of a body skips the rest of it; what was deferred still runs.\<close>

fun code_step :: "('s, 'r) stmt \<Rightarrow> ('s, 'r) code list \<Rightarrow> 's \<times> 'r \<Rightarrow> ('s, 'r) code list \<times> ('s \<times> 'r)" where
  "code_step (Do a) rest x = (rest, act_effect a x)"
| "code_step (Range f) rest (s, r) = (map (\<lambda>a. Run (Do a)) (f s r) @ rest, (s, r))"
| "code_step (ReturnIf b v) rest (s, r) = (if b s r then ([], (s, v s r)) else (rest, (s, r)))"

lemma code_step_Run:
  "code_step i (map Run rest) x = (case stmt_step i rest x of (code, y) \<Rightarrow> (map Run code, y))"
  by (cases i; cases x) (auto simp: comp_def)

text \<open>A goroutine between calls, or in a call with the code still to run, its locals and its deferred unlocks.\<close>

datatype ('call, 's, 'r) routine =
    Ready
  | Busy 'call "('s, 'r) code list" 'r "lock_mode list"

text \<open>
  The lock: held by a writer, announced by a writer, and the number of readers inside. It does not know
  which goroutine holds it, as \<^verbatim>\<open>sync.RWMutex\<close> does not.
\<close>

record ('call, 's, 'r) lsystem =
  data :: 's
  held :: bool
  announced :: bool
  inside :: nat
  routines :: "nat \<Rightarrow> ('call, 's, 'r) routine"

definition put_routine ::
  "nat \<Rightarrow> ('call, 's, 'r) routine \<Rightarrow> ('call, 's, 'r) lsystem \<Rightarrow> ('call, 's, 'r) lsystem" where
  "put_routine t g ls = ls\<lparr>routines := (routines ls)(t := g)\<rparr>"

lemma put_routine_simps [simp]:
  "routines (put_routine t g ls) = (routines ls)(t := g)" "data (put_routine t g ls) = data ls"
  "held (put_routine t g ls) = held ls" "announced (put_routine t g ls) = announced ls"
  "inside (put_routine t g ls) = inside ls"
  by (simp_all add: put_routine_def)

text \<open>
  Releasing a lock that is not held is a fatal error of the runtime: \<open>None\<close>, and the goroutine never moves again.
\<close>

fun release :: "lock_mode \<Rightarrow> ('call, 's, 'r) lsystem \<Rightarrow> ('call, 's, 'r) lsystem option" where
  "release Exclusive ls = (if held ls then Some (ls\<lparr>held := False\<rparr>) else None)"
| "release Shared ls = (if inside ls = 0 then None else Some (ls\<lparr>inside := inside ls - 1\<rparr>))"

inductive lock_step ::
  "('call \<Rightarrow> ('s, 'r) code list) \<Rightarrow> 'r \<Rightarrow> ('r \<Rightarrow> 'res) \<Rightarrow>
    ('call, 's, 'r) lsystem \<Rightarrow> ('call, 'res) call_event list \<Rightarrow> ('call, 's, 'r) lsystem \<Rightarrow> bool"
  for code reg result
where
  invoke: "routines ls t = Ready \<Longrightarrow>
    lock_step code reg result ls [Inv t c] (put_routine t (Busy c (code c) reg []) ls)"
| announce: "routines ls t = Busy c (Lock Exclusive # rest) r ds \<Longrightarrow> \<not> held ls \<Longrightarrow> \<not> announced ls \<Longrightarrow>
    lock_step code reg result ls [] (put_routine t (Busy c (AwaitReaders # rest) r ds) (ls\<lparr>announced := True\<rparr>))"
| enter: "routines ls t = Busy c (AwaitReaders # rest) r ds \<Longrightarrow> inside ls = 0 \<Longrightarrow>
    lock_step code reg result ls []
      (put_routine t (Busy c rest r ds) (ls\<lparr>held := True, announced := False\<rparr>))"
| enter_shared: "routines ls t = Busy c (Lock Shared # rest) r ds \<Longrightarrow> \<not> held ls \<Longrightarrow> \<not> announced ls \<Longrightarrow>
    lock_step code reg result ls [] (put_routine t (Busy c rest r ds) (ls\<lparr>inside := Suc (inside ls)\<rparr>))"
| defer_unlock: "routines ls t = Busy c (DeferUnlock m # rest) r ds \<Longrightarrow>
    lock_step code reg result ls [] (put_routine t (Busy c rest r (m # ds)) ls)"
| unlock_now: "routines ls t = Busy c (Unlock m # rest) r ds \<Longrightarrow> release m ls = Some ls' \<Longrightarrow>
    lock_step code reg result ls [] (put_routine t (Busy c rest r ds) ls')"
| statement: "routines ls t = Busy c (Run i # rest) r ds \<Longrightarrow> code_step i rest (data ls, r) = (rest', s', r') \<Longrightarrow>
    lock_step code reg result ls [] (put_routine t (Busy c rest' r' ds) (ls\<lparr>data := s'\<rparr>))"
| deferred: "routines ls t = Busy c [] r (m # ds) \<Longrightarrow> release m ls = Some ls' \<Longrightarrow>
    lock_step code reg result ls [] (put_routine t (Busy c [] r ds) ls')"
| return_call: "routines ls t = Busy c [] r [] \<Longrightarrow>
    lock_step code reg result ls [Ret t c (result r)] (put_routine t Ready ls)"

definition lock_start :: "'s \<Rightarrow> ('call, 's, 'r) lsystem" where
  "lock_start s = \<lparr>data = s, held = False, announced = False, inside = 0, routines = (\<lambda>_. Ready)\<rparr>"

text \<open>The same steps as a function of the goroutine that moves, to run schedules.\<close>

definition lock_go ::
  "('call \<Rightarrow> ('s, 'r) code list) \<Rightarrow> 'r \<Rightarrow> ('r \<Rightarrow> 'res) \<Rightarrow> nat \<Rightarrow> 'call option \<Rightarrow> ('call, 's, 'r) lsystem \<Rightarrow>
    (('call, 'res) call_event list \<times> ('call, 's, 'r) lsystem) option" where
  "lock_go code reg result t next ls =
     (let free = \<not> held ls \<and> \<not> announced ls
      in case routines ls t of
           Ready \<Rightarrow> (case next of None \<Rightarrow> None
             | Some c \<Rightarrow> Some ([Inv t c], put_routine t (Busy c (code c) reg []) ls))
         | Busy c todo r ds \<Rightarrow>
             (case todo of
                [] \<Rightarrow> (case ds of
                   [] \<Rightarrow> Some ([Ret t c (result r)], put_routine t Ready ls)
                 | m # ds \<Rightarrow> map_option (\<lambda>ls. ([], put_routine t (Busy c [] r ds) ls)) (release m ls))
              | Lock Exclusive # rest \<Rightarrow>
                  if free then Some ([], put_routine t (Busy c (AwaitReaders # rest) r ds) (ls\<lparr>announced := True\<rparr>))
                  else None
              | Lock Shared # rest \<Rightarrow>
                  if free then Some ([], put_routine t (Busy c rest r ds) (ls\<lparr>inside := Suc (inside ls)\<rparr>)) else None
              | AwaitReaders # rest \<Rightarrow>
                  if inside ls = 0
                  then Some ([], put_routine t (Busy c rest r ds) (ls\<lparr>held := True, announced := False\<rparr>)) else None
              | DeferUnlock m # rest \<Rightarrow> Some ([], put_routine t (Busy c rest r (m # ds)) ls)
              | Unlock m # rest \<Rightarrow> map_option (\<lambda>ls. ([], put_routine t (Busy c rest r ds) ls)) (release m ls)
              | Run i # rest \<Rightarrow> (case code_step i rest (data ls, r) of (rest', s', r') \<Rightarrow>
                  Some ([], put_routine t (Busy c rest' r' ds) (ls\<lparr>data := s'\<rparr>)))))"

lemma lock_go_step: "lock_go code reg result t next ls = Some (l, ls') \<Longrightarrow> lock_step code reg result ls l ls'"
  unfolding lock_go_def Let_def
  by (auto intro: lock_step.intros split: routine.splits option.splits list.splits code.splits lock_mode.splits
      if_splits prod.splits)

fun lock_schedule ::
  "('call \<Rightarrow> ('s, 'r) code list) \<Rightarrow> 'r \<Rightarrow> ('r \<Rightarrow> 'res) \<Rightarrow> (nat \<times> 'call option) list \<Rightarrow> ('call, 's, 'r) lsystem \<Rightarrow>
    (('call, 'res) call_event list \<times> ('call, 's, 'r) lsystem) option" where
  "lock_schedule code reg result [] ls = Some ([], ls)"
| "lock_schedule code reg result ((t, next) # ts) ls =
     (case lock_go code reg result t next ls of None \<Rightarrow> None
      | Some (l, ls') \<Rightarrow> map_option (map_prod ((@) l) id) (lock_schedule code reg result ts ls'))"

lemma lock_schedule_runs:
  "lock_schedule code reg result ts ls = Some (h, ls') \<Longrightarrow> runs (lock_step code reg result) ls h ls'"
proof (induction ts arbitrary: ls h)
  case Nil
  then show ?case by (simp add: runs_refl)
next
  case (Cons x ts)
  obtain t nx where x: "x = (t, nx)" by fastforce
  obtain l ms h' where g: "lock_go code reg result t nx ls = Some (l, ms)"
      and s: "lock_schedule code reg result ts ms = Some (h', ls')" and h: "h = l @ h'"
    using Cons.prems by (auto simp: x split: option.splits)
  show ?case
    unfolding h by (rule runs_append [OF Cons.IH [OF s] runs_single]) (rule lock_go_step [OF g])
qed

lemma lock_schedule_ex:
  "\<exists>ls'. lock_schedule code reg result ts ls = Some (h, ls') \<and> P ls' \<Longrightarrow>
    \<exists>ls'. runs (lock_step code reg result) ls h ls' \<and> P ls'"
  by (elim ex_forward conjE) (simp add: lock_schedule_runs)

section \<open>Every continuation ends\<close>

text \<open>
  Whatever the code is, each step without a new call unrolls a loop or uses up some of what is left to do; so
  only the waiting for a lock can keep a call from returning.
\<close>

fun is_loop :: "('s, 'r) code \<Rightarrow> bool" where
  "is_loop (Run i) = is_range i"
| "is_loop _ = False"

fun code_size :: "('s, 'r) code \<Rightarrow> nat" where
  "code_size (Lock m) = 2"
| "code_size (DeferUnlock m) = 2"
| "code_size _ = 1"

fun loops_todo :: "('call, 's, 'r) routine \<Rightarrow> nat" where
  "loops_todo (Busy c todo r ds) = length (filter is_loop todo)"
| "loops_todo Ready = 0"

fun code_todo :: "('call, 's, 'r) routine \<Rightarrow> nat" where
  "code_todo (Busy c todo r ds) = Suc (sum_list (map code_size todo) + length ds)"
| "code_todo Ready = 0"

definition work_left :: "nat set \<Rightarrow> ('call, 's, 'r) lsystem \<Rightarrow> nat \<times> nat" where
  "work_left A ls = (\<Sum>t\<in>A. loops_todo (routines ls t), \<Sum>t\<in>A. code_todo (routines ls t))"

definition all_in :: "nat set \<Rightarrow> ('call, 's, 'r) lsystem \<Rightarrow> bool" where
  "all_in A ls \<longleftrightarrow> finite A \<and> (\<forall>t. routines ls t \<noteq> Ready \<longrightarrow> t \<in> A)"

lemma release_routines: "release m ls = Some ls' \<Longrightarrow> routines ls' = routines ls \<and> data ls' = data ls"
  by (cases m) (auto split: if_splits)

lemma routine_work:
  assumes "all_in A ls" and "routines ls t \<noteq> Ready" and "routines ls' = (routines ls)(t := g)"
    and "loops_todo g < loops_todo (routines ls t) \<or>
      loops_todo g \<le> loops_todo (routines ls t) \<and> code_todo g < code_todo (routines ls t)"
  shows "all_in A ls' \<and> (work_left A ls', work_left A ls) \<in> less_than <*lex*> less_than"
proof -
  have A: "finite A" "t \<in> A" using assms(1,2) by (auto simp: all_in_def)
  show ?thesis
    using assms sum_update [OF A, of loops_todo "routines ls" g] sum_update [OF A, of code_todo "routines ls" g]
    by (auto simp: all_in_def work_left_def)
qed

lemma code_step_work:
  assumes "code_step i rest x = (rest', y)"
  shows "length (filter is_loop rest') < length (filter is_loop (Run i # rest)) \<or>
    length (filter is_loop rest') \<le> length (filter is_loop (Run i # rest)) \<and>
    sum_list (map code_size rest') < sum_list (map code_size (Run i # rest))"
proof (cases i)
  case (Range f)
  have "filter is_loop (map (\<lambda>a. Run (Do a)) acts) = []" for acts :: "('a, 'b) act list" by (induction acts) auto
  then show ?thesis using assms Range by (cases x) auto
qed (use assms in \<open>cases x; auto split: if_splits\<close>)+

lemma lock_quiet_work:
  assumes "lock_step code reg result ls l ls'" and "calls l = []" and A: "all_in A ls"
  shows "all_in A ls' \<and> (work_left A ls', work_left A ls) \<in> less_than <*lex*> less_than"
  using assms(1)
proof (cases rule: lock_step.cases)
  case (statement t c i rest r ds rest' s' r')
  show ?thesis
    by (rule routine_work [OF A, of t _ "Busy c rest' r' ds"])
      (use statement code_step_work [OF statement(4)] in auto)
next
  case (announce t c rest r ds)
  then show ?thesis by (intro routine_work [OF A, of t _ "Busy c (AwaitReaders # rest) r ds"]) simp_all
next
  case (enter t c rest r ds)
  then show ?thesis by (intro routine_work [OF A, of t _ "Busy c rest r ds"]) simp_all
next
  case (enter_shared t c rest r ds)
  then show ?thesis by (intro routine_work [OF A, of t _ "Busy c rest r ds"]) simp_all
next
  case (defer_unlock t c m rest r ds)
  then show ?thesis by (intro routine_work [OF A, of t _ "Busy c rest r (m # ds)"]) simp_all
next
  case (unlock_now t c m rest r ds ls1)
  then show ?thesis
    using release_routines [OF unlock_now(4)] by (intro routine_work [OF A, of t _ "Busy c rest r ds"]) simp_all
next
  case (deferred t c r m ds ls1)
  then show ?thesis
    using release_routines [OF deferred(4)] by (intro routine_work [OF A, of t _ "Busy c [] r ds"]) simp_all
next
  case (return_call t c r)
  then show ?thesis by (intro routine_work [OF A, of t _ Ready]) simp_all
qed (use assms(2) in simp)

text \<open>Runs of a system without new calls, as in \<open>completes\<close>.\<close>

definition calls_end ::
  "(('call, 's, 'r) lsystem \<Rightarrow> ('call, 'res) call_event list \<Rightarrow> ('call, 's, 'r) lsystem \<Rightarrow> bool) \<Rightarrow>
    ('call, 's, 'r) lsystem \<Rightarrow> bool" where
  "calls_end step ls \<longleftrightarrow>
     (\<nexists>f. f 0 = ls \<and> (\<forall>i. \<exists>l. calls l = [] \<and> step (f i) l (f (Suc i)))) \<and>
     ((\<exists>l ls'. calls l = [] \<and> step ls l ls') \<longleftrightarrow> (\<exists>t. routines ls t \<noteq> Ready))"

lemma lock_no_endless_run:
  assumes "all_in A ls"
  shows "\<nexists>f. f 0 = ls \<and> (\<forall>i. \<exists>l. calls l = [] \<and> lock_step code reg result (f i) l (f (Suc i)))"
proof (rule no_endless_run [where R = "less_than <*lex*> less_than" and m = "work_left A" and I = "all_in A"])
  show "wf (less_than <*lex*> less_than)" by (intro wf_lex_prod wf_less_than)
qed (fact assms, rule lock_quiet_work)

lemma lock_quiet_busy:
  assumes "lock_step code reg result ls l ls'" and "calls l = []"
  shows "\<exists>t. routines ls t \<noteq> Ready"
  using assms(1)
proof (cases rule: lock_step.cases)
  case (invoke t c)
  then show ?thesis using assms(2) by simp
qed (metis routine.distinct(1))+

section \<open>The discipline\<close>

text \<open>In the system of \<open>Mutex\<close> the lock's state says exactly who is inside.\<close>

definition insiders ::
  "('call \<Rightarrow> lock_mode) \<Rightarrow> lock_mode \<Rightarrow> (nat \<Rightarrow> ('call, 's, 'r, 'res) goroutine) \<Rightarrow> nat set" where
  "insiders mode m th = {t. \<exists>c code r. th t = Inside c code r \<and> mode c = m}"

lemma insiders_update [simp]:
  "insiders mode m (th(t := Inside c code r)) =
     (if mode c = m then insert t (insiders mode m th) else insiders mode m th - {t})"
  "insiders mode m (th(t := Idle)) = insiders mode m th - {t}"
  "insiders mode m (th(t := Waiting c)) = insiders mode m th - {t}"
  "insiders mode m (th(t := Returning c v)) = insiders mode m th - {t}"
  by (auto simp: insiders_def)

lemma insiders_outside:
  "(\<And>c code r. th t \<noteq> Inside c code r) \<Longrightarrow> t \<notin> insiders mode m th"
  "th t = Inside c code r \<Longrightarrow> t \<in> insiders mode m th \<longleftrightarrow> mode c = m"
  by (simp_all add: insiders_def)

definition lock_exact :: "('call \<Rightarrow> lock_mode) \<Rightarrow> ('call, 's, 'r, 'res) system \<Rightarrow> bool" where
  "lock_exact mode \<sigma> \<longleftrightarrow> finite (readers \<sigma>) \<and> (writer \<sigma> \<noteq> None \<longrightarrow> readers \<sigma> = {}) \<and>
     insiders mode Exclusive (threads \<sigma>) = (case writer \<sigma> of None \<Rightarrow> {} | Some t \<Rightarrow> {t}) \<and>
     insiders mode Shared (threads \<sigma>) = readers \<sigma>"

lemma exact_start: "lock_exact mode (sys_start s)"
  by (simp add: lock_exact_def sys_start_def insiders_def)

lemma exact_inside:
  assumes "lock_exact mode \<sigma>" and "threads \<sigma> t = Inside c code r"
  shows "mode c = Exclusive \<Longrightarrow> writer \<sigma> = Some t" and "mode c = Shared \<Longrightarrow> t \<in> readers \<sigma>"
  using assms insiders_outside(2) [where th = "threads \<sigma>" and t = t, OF assms(2), of mode Exclusive]
    insiders_outside(2) [where th = "threads \<sigma>" and t = t, OF assms(2), of mode Shared] by (auto simp: lock_exact_def split: option.splits)

lemma exact_step:
  assumes "sys_step mode body reg result \<sigma> l \<sigma>'" and ex: "lock_exact mode \<sigma>"
  shows "lock_exact mode \<sigma>'"
  using assms(1)
proof (cases rule: sys_step.cases)
  case (call t c)
  then have "t \<notin> insiders mode m (threads \<sigma>)" for m by (simp add: insiders_outside(1))
  from this [of Exclusive] this [of Shared] show ?thesis
    using call ex by (auto simp: lock_exact_def split: option.splits)
next
  case (lock t c)
  then show ?thesis using ex by (simp add: lock_exact_def)
next
  case (rlock t c)
  then show ?thesis using ex by (simp add: lock_exact_def)
next
  case (exec t c i rest r code s' r')
  then have "t \<in> insiders mode m (threads \<sigma>) \<longleftrightarrow> mode c = m" for m
    by (simp add: insiders_outside(2) [where th = "threads \<sigma>" and t = t])
  from this [of Exclusive] this [of Shared] show ?thesis
    using exec ex by (auto simp: lock_exact_def split: option.splits)
next
  case (unlock t c r)
  note w = exact_inside(1) [OF ex unlock(3,4)]
  then show ?thesis using unlock ex by (auto simp: lock_exact_def)
next
  case (runlock t c r)
  note w = exact_inside(2) [OF ex runlock(3,4)]
  then have "writer \<sigma> = None" using ex by (auto simp: lock_exact_def)
  then show ?thesis using runlock ex by (simp add: lock_exact_def)
next
  case (return t c v)
  then have "t \<notin> insiders mode m (threads \<sigma>)" for m by (simp add: insiders_outside(1))
  from this [of Exclusive] this [of Shared] show ?thesis
    using return ex by (auto simp: lock_exact_def split: option.splits)
qed

text \<open>
  A method follows the discipline if it first takes the lock and defers its release, and does nothing else with it.
  \<open>tracks\<close>: where a goroutine is in such a method, and where in the system of \<open>Mutex\<close>.
\<close>

locale guarded_code =
  fixes code :: "'call \<Rightarrow> ('s, 'r) code list"
    and mode :: "'call \<Rightarrow> lock_mode"
    and body :: "'call \<Rightarrow> ('s, 'r) stmt list"
    and reg :: 'r
    and result :: "'r \<Rightarrow> 'res"
  assumes disciplined: "code c = Lock (mode c) # DeferUnlock (mode c) # map Run (body c)"
begin

abbreviation code_steps ::
  "('call, 's, 'r) lsystem \<Rightarrow> ('call, 'res) call_event list \<Rightarrow> ('call, 's, 'r) lsystem \<Rightarrow> bool" where
  "code_steps \<equiv> lock_step code reg result"

abbreviation body_steps ::
  "('call, 's, 'r, 'res) system \<Rightarrow> ('call, 'res) call_event list \<Rightarrow> ('call, 's, 'r, 'res) system \<Rightarrow> bool" where
  "body_steps \<equiv> sys_step mode body reg result"

inductive tracks :: "('call, 's, 'r) routine \<Rightarrow> ('call, 's, 'r, 'res) goroutine \<Rightarrow> bool" where
  ready: "tracks Ready Idle"
| before_lock: "tracks (Busy c (code c) reg []) (Waiting c)"
| awaiting: "mode c = Exclusive \<Longrightarrow>
    tracks (Busy c (AwaitReaders # DeferUnlock Exclusive # map Run (body c)) reg []) (Waiting c)"
| before_defer: "tracks (Busy c (DeferUnlock (mode c) # map Run (body c)) reg []) (Inside c (body c) reg)"
| in_body: "tracks (Busy c (map Run stmts) r [mode c]) (Inside c stmts r)"
| unlocked: "tracks (Busy c [] r []) (Returning c (result r))"

inductive_cases tracks_Ready: "tracks Ready g"
inductive_cases tracks_Busy: "tracks (Busy c todo r ds) g"

definition awaits :: "('call, 's, 'r) lsystem \<Rightarrow> nat set" where
  "awaits ls = {t. \<exists>c rest r ds. routines ls t = Busy c (AwaitReaders # rest) r ds}"

definition tracked :: "('call, 's, 'r) lsystem \<Rightarrow> ('call, 's, 'r, 'res) system \<Rightarrow> bool" where
  "tracked ls \<sigma> \<longleftrightarrow> lock_exact mode \<sigma> \<and> data ls = shared \<sigma> \<and> (\<forall>t. tracks (routines ls t) (threads \<sigma> t)) \<and>
     (held ls \<longleftrightarrow> writer \<sigma> \<noteq> None) \<and> inside ls = card (readers \<sigma>) \<and>
     (announced ls \<longleftrightarrow> awaits ls \<noteq> {}) \<and> (\<forall>t \<in> awaits ls. \<forall>u \<in> awaits ls. t = u) \<and>
     (awaits ls \<noteq> {} \<longrightarrow> writer \<sigma> = None)"

lemma tracked_start: "tracked (lock_start s) (sys_start s)"
  by (simp add: tracked_def exact_start) (simp add: lock_start_def sys_start_def awaits_def ready)

text \<open>What the head of the code says about the goroutine.\<close>

lemma tracks_head:
  assumes "tracks (Busy c todo r ds) g"
  shows "todo = Lock m # rest \<Longrightarrow> g = Waiting c \<and> m = mode c \<and> rest = DeferUnlock m # map Run (body c) \<and> r = reg \<and> ds = []"
    and "todo = AwaitReaders # rest \<Longrightarrow> g = Waiting c \<and> mode c = Exclusive \<and>
      rest = DeferUnlock Exclusive # map Run (body c) \<and> r = reg \<and> ds = []"
    and "todo = DeferUnlock m # rest \<Longrightarrow> g = Inside c (body c) r \<and> m = mode c \<and> rest = map Run (body c) \<and> r = reg \<and> ds = []"
    and "todo \<noteq> Unlock m # rest"
    and "todo = Run i # rest \<Longrightarrow> \<exists>stmts. g = Inside c (i # stmts) r \<and> rest = map Run stmts \<and> ds = [mode c]"
    and "todo = [] \<Longrightarrow> g = Inside c [] r \<and> ds = [mode c] \<or> g = Returning c (result r) \<and> ds = []"
  using assms by (auto elim!: tracks_Busy simp: disciplined Cons_eq_map_conv map_eq_Cons_conv)

text \<open>One step of the code is one step of the bodies under the lock, or none.\<close>

lemma awaits_put:
  "awaits (put_routine t g ls) =
     (if \<exists>c rest r ds. g = Busy c (AwaitReaders # rest) r ds then insert t (awaits ls) else awaits ls - {t})"
  by (auto simp: awaits_def)

lemma awaits_fields [simp]:
  "awaits (ls\<lparr>announced := x\<rparr>) = awaits ls" "awaits (ls\<lparr>held := y\<rparr>) = awaits ls"
  "awaits (ls\<lparr>inside := z\<rparr>) = awaits ls" "awaits (ls\<lparr>data := w\<rparr>) = awaits ls"
  by (simp_all add: awaits_def)

lemma awaits_not: "routines ls t = Busy c todo r ds \<Longrightarrow> (\<And>rest. todo \<noteq> AwaitReaders # rest) \<Longrightarrow> t \<notin> awaits ls"
  by (auto simp: awaits_def)

lemma tracked_update:
  assumes tr: "tracked ls \<sigma>" and "lock_exact mode \<sigma>'" and "data ls' = shared \<sigma>'"
    and "routines ls' = (routines ls)(t := g)" "threads \<sigma>' = (threads \<sigma>)(t := g')" "tracks g g'"
    and "held ls' \<longleftrightarrow> writer \<sigma>' \<noteq> None" "inside ls' = card (readers \<sigma>')" "announced ls' = announced ls"
    and "awaits ls' = awaits ls" "writer \<sigma> = None \<Longrightarrow> writer \<sigma>' = None"
  shows "tracked ls' \<sigma>'"
  using assms by (simp add: tracked_def)

lemma deferred_step:
  assumes tr: "tracked ls \<sigma>" and t: "routines ls t = Busy c [] r (m # ds)" and rel: "release m ls = Some ls1"
  shows "\<exists>\<sigma>'. body_steps \<sigma> [] \<sigma>' \<and> tracked (put_routine t (Busy c [] r ds) ls1) \<sigma>'"
proof -
  have ex: "lock_exact mode \<sigma>" and at: "tracks (Busy c [] r (m # ds)) (threads \<sigma> t)" using tr t by (metis tracked_def)+
  have same: "data ls = shared \<sigma>" "inside ls = card (readers \<sigma>)" "held ls \<longleftrightarrow> writer \<sigma> \<noteq> None"
    using tr by (simp_all add: tracked_def)
  have h: "threads \<sigma> t = Inside c [] r" "m = mode c" "ds = []" using tracks_head(6) [OF at refl] by auto
  have "awaits (put_routine t (Busy c [] r ds) ls1) = awaits ls"
    using awaits_not [OF t] rel by (cases m) (auto simp: awaits_put split: if_splits)
  note update = tracked_update [OF tr, where t = t and ls' = "put_routine t (Busy c [] r ds) ls1", OF _ _ _ _ _ _ _ _ this]
  show ?thesis
  proof (cases m)
    case Exclusive
    let ?\<sigma> = "\<sigma>\<lparr>writer := None, threads := (threads \<sigma>)(t := Returning c (result r))\<rparr>"
    have st: "body_steps \<sigma> [] ?\<sigma>" using sys_step.unlock [of \<sigma> t c r mode] h Exclusive by simp
    have "tracked (put_routine t (Busy c [] r ds) ls1) ?\<sigma>"
      by (rule update [OF exact_step [OF st ex]])
        (use same rel unlocked [of c r] h(3) Exclusive ex in \<open>auto simp: lock_exact_def split: if_splits\<close>)
    then show ?thesis using st by blast
  next
    case Shared
    let ?\<sigma> = "\<sigma>\<lparr>readers := readers \<sigma> - {t}, threads := (threads \<sigma>)(t := Returning c (result r))\<rparr>"
    have st: "body_steps \<sigma> [] ?\<sigma>" using sys_step.runlock [of \<sigma> t c r mode] h Shared by simp
    have "t \<in> readers \<sigma>" "finite (readers \<sigma>)"
      using exact_inside(2) [OF ex h(1)] h(2) Shared ex by (simp_all add: lock_exact_def)
    then have "tracked (put_routine t (Busy c [] r ds) ls1) ?\<sigma>"
      by (intro update [OF exact_step [OF st ex]])
        (use same rel unlocked [of c r] h(3) Shared in \<open>auto split: if_splits\<close>)
    then show ?thesis using st by blast
  qed
qed

lemma enter_step:
  assumes tr: "tracked ls \<sigma>" and t: "routines ls t = Busy c (AwaitReaders # rest) r ds" and "inside ls = 0"
  shows "\<exists>\<sigma>'. body_steps \<sigma> [] \<sigma>' \<and>
    tracked (put_routine t (Busy c rest r ds) (ls\<lparr>held := True, announced := False\<rparr>)) \<sigma>'"
proof -
  have ex: "lock_exact mode \<sigma>" and at: "tracks (Busy c (AwaitReaders # rest) r ds) (threads \<sigma> t)"
    using tr t by (metis tracked_def)+
  have h: "threads \<sigma> t = Waiting c" "mode c = Exclusive" "rest = DeferUnlock Exclusive # map Run (body c)" "r = reg" "ds = []"
    using tracks_head(2) [OF at refl] by auto
  have "t \<in> awaits ls" using t by (auto simp: awaits_def)
  then have free: "writer \<sigma> = None" "readers \<sigma> = {}" and one: "awaits ls = {t}"
    using tr assms(3) ex by (auto simp: tracked_def lock_exact_def)
  let ?\<sigma> = "\<sigma>\<lparr>writer := Some t, threads := (threads \<sigma>)(t := Inside c (body c) reg)\<rparr>"
  have st: "body_steps \<sigma> [] ?\<sigma>" by (rule sys_step.lock [of \<sigma> t c mode, OF h(1,2) free])
  have "tracked (put_routine t (Busy c rest r ds) (ls\<lparr>held := True, announced := False\<rparr>)) ?\<sigma>"
    using tr exact_step [OF st ex] before_defer [of c] one h assms(3)
    by (auto simp: tracked_def awaits_put free)
  then show ?thesis using st by blast
qed

lemma enter_shared_step:
  assumes tr: "tracked ls \<sigma>" and t: "routines ls t = Busy c (Lock Shared # rest) r ds"
    and "\<not> held ls" "\<not> announced ls"
  shows "\<exists>\<sigma>'. body_steps \<sigma> [] \<sigma>' \<and> tracked (put_routine t (Busy c rest r ds) (ls\<lparr>inside := Suc (inside ls)\<rparr>)) \<sigma>'"
proof -
  have ex: "lock_exact mode \<sigma>" and at: "tracks (Busy c (Lock Shared # rest) r ds) (threads \<sigma> t)"
    using tr t by (metis tracked_def)+
  have h: "threads \<sigma> t = Waiting c" "mode c = Shared" "rest = DeferUnlock Shared # map Run (body c)" "r = reg" "ds = []"
    using tracks_head(1) [OF at refl] by auto
  have free: "writer \<sigma> = None" using tr assms(3) by (auto simp: tracked_def)
  have "t \<notin> insiders mode Shared (threads \<sigma>)" by (rule insiders_outside(1)) (simp add: h)
  then have new: "t \<notin> readers \<sigma>" "finite (readers \<sigma>)" using ex by (simp_all add: lock_exact_def)
  let ?\<sigma> = "\<sigma>\<lparr>readers := insert t (readers \<sigma>), threads := (threads \<sigma>)(t := Inside c (body c) reg)\<rparr>"
  have st: "body_steps \<sigma> [] ?\<sigma>" by (rule sys_step.rlock [of \<sigma> t c mode, OF h(1,2) free])
  have "tracked (put_routine t (Busy c rest r ds) (ls\<lparr>inside := Suc (inside ls)\<rparr>)) ?\<sigma>"
    using tr assms(3,4) exact_step [OF st ex] before_defer [of c] new h
    by (auto simp: tracked_def awaits_put free)
  then show ?thesis using st by blast
qed

lemma statement_step:
  assumes tr: "tracked ls \<sigma>" and t: "routines ls t = Busy c (Run i # rest) r ds"
    and i: "code_step i rest (data ls, r) = (rest', s', r')"
  shows "\<exists>\<sigma>'. body_steps \<sigma> [] \<sigma>' \<and> tracked (put_routine t (Busy c rest' r' ds) (ls\<lparr>data := s'\<rparr>)) \<sigma>'"
proof -
  have ex: "lock_exact mode \<sigma>" and at: "tracks (Busy c (Run i # rest) r ds) (threads \<sigma> t)"
    using tr t by (metis tracked_def)+
  obtain stmts where h: "threads \<sigma> t = Inside c (i # stmts) r" "rest = map Run stmts" "ds = [mode c]"
    using tracks_head(5) [OF at refl] by auto
  obtain stmts' where s: "stmt_step i stmts (data ls, r) = (stmts', s', r')" "rest' = map Run stmts'"
    using i by (auto simp: h(2) code_step_Run split: prod.splits)
  let ?\<sigma> = "\<sigma>\<lparr>shared := s', threads := (threads \<sigma>)(t := Inside c stmts' r')\<rparr>"
  have "stmt_step i stmts (shared \<sigma>, r) = (stmts', s', r')" using s(1) tr by (simp add: tracked_def)
  then have st: "body_steps \<sigma> [] ?\<sigma>" by (rule sys_step.exec [of \<sigma> t, OF h(1)])
  have "awaits (put_routine t (Busy c rest' r' ds) (ls\<lparr>data := s'\<rparr>)) = awaits ls"
    using s(2) awaits_not [OF t] by (auto simp: awaits_put)
  then have "tracked (put_routine t (Busy c rest' r' ds) (ls\<lparr>data := s'\<rparr>)) ?\<sigma>"
    using tr exact_step [OF st ex] in_body [of c stmts' r'] s(2) h(3) by (auto simp: tracked_def)
  then show ?thesis using st by blast
qed

lemma tracked_step:
  assumes "code_steps ls l ls'" and tr: "tracked ls \<sigma>"
  shows "\<exists>\<sigma>'. (l = [] \<and> \<sigma>' = \<sigma> \<or> body_steps \<sigma> l \<sigma>') \<and> tracked ls' \<sigma>'"
proof -
  have ex: "lock_exact mode \<sigma>" and at: "\<And>t. tracks (routines ls t) (threads \<sigma> t)"
    using tr by (simp_all add: tracked_def)
  have at': "tracks (Busy c todo r ds) (threads \<sigma> t)" if "routines ls t = Busy c todo r ds" for t c todo r ds
    using at [of t] that by simp
  note head = tracks_head [OF at']
  show ?thesis
    using assms(1)
  proof (cases rule: lock_step.cases)
    case (invoke t c)
    then have "threads \<sigma> t = Idle" using at [of t] by (auto elim: tracks_Ready)
    then have st: "body_steps \<sigma> [Inv t c] (\<sigma>\<lparr>threads := (threads \<sigma>)(t := Waiting c)\<rparr>)" by (rule sys_step.call)
    have "t \<notin> awaits ls" using invoke by (simp add: awaits_def)
    then have "tracked ls' (\<sigma>\<lparr>threads := (threads \<sigma>)(t := Waiting c)\<rparr>)"
      using tr invoke exact_step [OF st ex] before_lock [of c]
      by (auto simp: tracked_def awaits_put disciplined)
    then show ?thesis using st invoke by blast
  next
    case (announce t c rest r ds)
    have h: "threads \<sigma> t = Waiting c" "mode c = Exclusive" "rest = DeferUnlock Exclusive # map Run (body c)" "r = reg" "ds = []"
      using head(1) [OF announce(3) refl] by auto
    then have "tracked ls' \<sigma>"
      using tr announce awaiting [of c] by (auto simp: tracked_def awaits_put)
    then show ?thesis using announce by blast
  next
    case (enter t c rest r ds)
    then show ?thesis using enter_step [OF tr enter(3,4)] by blast
  next
    case (enter_shared t c rest r ds)
    then show ?thesis using enter_shared_step [OF tr enter_shared(3-5)] by blast
  next
    case (defer_unlock t c m rest r ds)
    have h: "threads \<sigma> t = Inside c (body c) r" "m = mode c" "rest = map Run (body c)" "r = reg" "ds = []"
      using head(3) [OF defer_unlock(3) refl] by auto
    have "awaits ls' = awaits ls"
      using defer_unlock h(3) awaits_not [OF defer_unlock(3)] by (auto simp: awaits_put)
    then have "tracked ls' \<sigma>"
      using tr defer_unlock in_body [of c "body c" reg] h by (auto simp: tracked_def)
    then show ?thesis using defer_unlock by blast
  next
    case (unlock_now t c m rest r ds ls1)
    then show ?thesis using head(4) [OF unlock_now(3)] by blast
  next
    case (statement t c i rest r ds rest' s' r')
    then show ?thesis using statement_step [OF tr statement(3,4)] by blast
  next
    case (deferred t c r m ds ls1)
    then show ?thesis using deferred_step [OF tr deferred(3,4)] by blast
  next
    case (return_call t c r)
    have h: "threads \<sigma> t = Returning c (result r)" using head(6) [OF return_call(3) refl] by auto
    then have st: "body_steps \<sigma> [Ret t c (result r)] (\<sigma>\<lparr>threads := (threads \<sigma>)(t := Idle)\<rparr>)"
      by (rule sys_step.return)
    have "awaits ls' = awaits ls" using return_call awaits_not [OF return_call(3)] by (auto simp: awaits_put)
    then have "tracked ls' (\<sigma>\<lparr>threads := (threads \<sigma>)(t := Idle)\<rparr>)"
      using tr return_call exact_step [OF st ex] ready by (auto simp: tracked_def)
    then show ?thesis using st return_call by blast
  qed
qed

lemma run_tracked:
  assumes "runs code_steps (lock_start s) h ls"
  shows "\<exists>\<sigma>. runs body_steps (sys_start s) h \<sigma> \<and> tracked ls \<sigma>"
  using assms
proof (induction "lock_start s :: ('call, 's, 'r) lsystem" h ls rule: runs.induct)
  case runs_refl
  show ?case by (intro exI [of _ "sys_start s"] conjI runs.runs_refl tracked_start)
next
  case (runs_step h ls l ls')
  then obtain \<sigma> where \<sigma>: "runs body_steps (sys_start s) h \<sigma>" "tracked ls \<sigma>" by blast
  from tracked_step [OF runs_step.hyps(3) \<sigma>(2)] obtain \<sigma>' where
    "l = [] \<and> \<sigma>' = \<sigma> \<or> body_steps \<sigma> l \<sigma>'" "tracked ls' \<sigma>'" by blast
  then show ?case using \<sigma>(1) runs.runs_step [OF \<sigma>(1)] by auto
qed

text \<open>While a call has not returned, some goroutine can move: the one inside, or else one that waits.\<close>

lemma quiet_move: "code_steps ls [] ls' \<Longrightarrow> \<exists>l ls'. calls l = [] \<and> code_steps ls l ls'"
  by (rule exI [of _ "[]"]) auto

lemma moves_inside:
  assumes tr: "tracked ls \<sigma>" and "threads \<sigma> t = Inside c stmts r \<or> threads \<sigma> t = Returning c v"
  shows "\<exists>l ls'. calls l = [] \<and> code_steps ls l ls'"
proof -
  have ex: "lock_exact mode \<sigma>" and "tracks (routines ls t) (threads \<sigma> t)" using tr by (simp_all add: tracked_def)
  from this(2) show ?thesis
  proof (cases rule: tracks.cases)
    case (before_defer c)
    show ?thesis by (rule quiet_move, rule lock_step.defer_unlock) (rule before_defer(1))
  next
    case (in_body c stmts r)
    show ?thesis
    proof (cases stmts)
      case Nil
      have "\<exists>ls'. release (mode c) ls = Some ls'"
      proof (cases "mode c")
        case Exclusive
        then show ?thesis using exact_inside(1) [OF ex in_body(2)] tr by (simp add: tracked_def)
      next
        case Shared
        have "finite (readers \<sigma>)" using ex by (simp add: lock_exact_def)
        then have "card (readers \<sigma>) \<noteq> 0" using exact_inside(2) [OF ex in_body(2) Shared] by auto
        then have "inside ls \<noteq> 0" using tr by (simp add: tracked_def)
        then show ?thesis using Shared by simp
      qed
      then obtain ls' where "release (mode c) ls = Some ls'" by blast
      moreover have "routines ls t = Busy c [] r [mode c]" using in_body(1) Nil by simp
      ultimately show ?thesis by (intro quiet_move) (rule lock_step.deferred)
    next
      case (Cons i rest)
      obtain rest' s' r' where "code_step i (map Run rest) (data ls, r) = (rest', s', r')" by (metis prod_cases3)
      moreover have "routines ls t = Busy c (Run i # map Run rest) r [mode c]" using in_body(1) Cons by simp
      ultimately show ?thesis by (intro quiet_move) (rule lock_step.statement)
    qed
  next
    case (unlocked c r)
    from lock_step.return_call [OF unlocked(1), of code reg result]
    show ?thesis by (intro exI conjI) (simp_all only: calls_simps)
  qed (use assms(2) in auto)
qed

lemma moves_waiting:
  assumes tr: "tracked ls \<sigma>" and out: "\<And>t c stmts r. threads \<sigma> t \<noteq> Inside c stmts r" and t: "threads \<sigma> t = Waiting c"
  shows "\<exists>l ls'. calls l = [] \<and> code_steps ls l ls'"
proof -
  have "insiders mode m (threads \<sigma>) = {}" for m using out by (simp add: insiders_def)
  then have free: "\<not> held ls" "inside ls = 0" and ann: "announced ls \<longleftrightarrow> awaits ls \<noteq> {}"
    using tr by (auto simp: tracked_def lock_exact_def split: option.splits)
  show ?thesis
  proof (cases "awaits ls = {}")
    case False
    then obtain u d rest r ds where "routines ls u = Busy d (AwaitReaders # rest) r ds" by (auto simp: awaits_def)
    then show ?thesis by (intro quiet_move) (rule lock_step.enter [OF _ free(2)])
  next
    case True
    have "tracks (routines ls t) (Waiting c)" using tr t by (metis tracked_def)
    then have "routines ls t = Busy c (code c) reg []"
      using True by (cases rule: tracks.cases) (auto simp: awaits_def)
    then have "routines ls t = Busy c (Lock (mode c) # DeferUnlock (mode c) # map Run (body c)) reg []"
      by (simp add: disciplined)
    moreover have "\<not> announced ls" using True ann by simp
    ultimately have
      "mode c = Exclusive \<Longrightarrow> code_steps ls []
         (put_routine t (Busy c (AwaitReaders # DeferUnlock Exclusive # map Run (body c)) reg []) (ls\<lparr>announced := True\<rparr>))"
      "mode c = Shared \<Longrightarrow> code_steps ls []
         (put_routine t (Busy c (DeferUnlock Shared # map Run (body c)) reg []) (ls\<lparr>inside := Suc (inside ls)\<rparr>))"
      using free(1) by (auto intro: lock_step.announce lock_step.enter_shared)
    then show ?thesis using quiet_move by (cases "mode c") blast+
  qed
qed

lemma code_calls_end:
  assumes "runs code_steps (lock_start s) h ls"
  shows "calls_end code_steps ls"
proof -
  obtain \<sigma> where run: "runs body_steps (sys_start s) h \<sigma>" and tr: "tracked ls \<sigma>" using run_tracked [OF assms] by blast
  have idle: "routines ls t = Ready \<longleftrightarrow> threads \<sigma> t = Idle" for t
  proof -
    have "tracks (routines ls t) (threads \<sigma> t)" using tr by (simp add: tracked_def)
    then show ?thesis by (cases rule: tracks.cases) auto
  qed
  have "all_in {t. threads \<sigma> t \<noteq> Idle} ls" using run_holders [OF run] idle by (simp add: all_in_def)
  then have ends: "\<nexists>f. f 0 = ls \<and> (\<forall>i. \<exists>l. calls l = [] \<and> code_steps (f i) l (f (Suc i)))"
    by (rule lock_no_endless_run)
  have "\<exists>l ls'. calls l = [] \<and> code_steps ls l ls'" if "routines ls t \<noteq> Ready" for t
    using that idle [of t] moves_inside [OF tr] moves_waiting [OF tr] by (cases "threads \<sigma> t") blast+
  moreover have "\<exists>t. routines ls t \<noteq> Ready" if "calls l = []" "code_steps ls l ls'" for l ls'
    using lock_quiet_busy [OF that(2,1)] .
  ultimately show ?thesis using ends unfolding calls_end_def by (intro conjI iffI) blast+
qed

end

section \<open>The clocks\<close>

text \<open>The methods of \<^verbatim>\<open>vector/clock.go\<close>, \<^verbatim>\<open>lamport/clock.go\<close> and \<^verbatim>\<open>hlc/clock.go\<close> with their lock calls.\<close>

fun vector_code :: "vector_call \<Rightarrow> (vclock, vector_locals) code list" where
  "vector_code VTick = [Lock Exclusive, DeferUnlock Exclusive] @ map Run (vector_incr @ vector_copy)"
| "vector_code VSend = [Lock Exclusive, DeferUnlock Exclusive] @ map Run (vector_incr @ vector_copy)"
| "vector_code (VReceive remote) =
     [Lock Exclusive, DeferUnlock Exclusive] @ map Run (vector_merge remote # vector_incr @ vector_copy)"
| "vector_code VNow = [Lock Shared, DeferUnlock Shared] @ map Run vector_copy"

fun lamport_code :: "lamport_call \<Rightarrow> (lamport, lamport_locals) code list" where
  "lamport_code LTick = [Lock Exclusive, DeferUnlock Exclusive, Run lamport_load,
     Run (Do (Write (\<lambda>r s. s\<lparr>counter := l_counter r + 1\<rparr>))), Run lamport_return]"
| "lamport_code LSend = [Lock Exclusive, DeferUnlock Exclusive, Run lamport_load,
     Run (Do (Write (\<lambda>r s. s\<lparr>counter := l_counter r + 1\<rparr>))), Run lamport_return]"
| "lamport_code (LReceive remote) = [Lock Exclusive, DeferUnlock Exclusive, Run lamport_load,
     Run (Do (Write (\<lambda>r s. s\<lparr>counter := max (l_counter r) remote + 1\<rparr>))), Run lamport_return]"
| "lamport_code LNow = [Lock Exclusive, DeferUnlock Exclusive, Run lamport_return]"
| "lamport_code (LReset to) = [Lock Exclusive, DeferUnlock Exclusive, Run (Do (Write (\<lambda>r s. s\<lparr>counter := to\<rparr>)))]"

text \<open>\<^verbatim>\<open>Send\<close> of the hybrid clock only calls \<^verbatim>\<open>Now\<close>, which locks; \<^verbatim>\<open>advanceLocked\<close> does not.\<close>

fun hlc_code :: "hlc_call \<Rightarrow> (hlc_clock, hlc_locals) code list" where
  "hlc_code (HlcNow pt) = [Lock Exclusive, DeferUnlock Exclusive] @ map Run (hlc_advance_body pt)"
| "hlc_code (HlcSend pt) = [Lock Exclusive, DeferUnlock Exclusive] @ map Run (hlc_advance_body pt)"
| "hlc_code (HlcReceive pt remote) = [Lock Exclusive, DeferUnlock Exclusive] @ map Run (hlc_body (HlcReceive pt remote))"
| "hlc_code HlcCurrent = [Lock Exclusive, DeferUnlock Exclusive,
     Run (Do (Read (\<lambda>s r. r\<lparr>h_return := Inr (hlc_state s)\<rparr>)))]"

interpretation vector_locks: guarded_code vector_code vector_mode vector_body vector_reg v_return
proof (unfold_locales, goal_cases)
  case (1 c)
  then show ?case by (cases c) simp_all
qed

interpretation lamport_locks: guarded_code lamport_code lamport_mode lamport_body
  "\<lparr>l_counter = 0, l_return = None\<rparr>" l_return
proof (unfold_locales, goal_cases)
  case (1 c)
  then show ?case by (cases c) (simp_all add: lamport_mode_def)
qed

interpretation hlc_locks: guarded_code hlc_code hlc_mode hlc_body hlc_reg h_return
proof (unfold_locales, goal_cases)
  case (1 c)
  then show ?case by (cases c) (simp_all add: hlc_mode_def)
qed

abbreviation vector_code_system ::
  "(vector_call, vclock, vector_locals) lsystem \<Rightarrow> (vector_call, snapshot) call_event list \<Rightarrow>
    (vector_call, vclock, vector_locals) lsystem \<Rightarrow> bool" where
  "vector_code_system \<equiv> lock_step vector_code vector_reg v_return"

text \<open>With their own lock calls the methods have the histories of \<open>Goroutines\<close>, so what is shown there holds for them.\<close>

lemma vector_code_histories:
  assumes "runs vector_code_system (lock_start c) h ls" and "wf_clock c"
  shows "\<exists>a. runs (atomic_step vector_op) (atomic_start c) h a"
  using vector_locks.run_tracked [OF assms(1)] vector_mutex.guarded_run [OF _ assms(2)] by blast

lemma lamport_code_histories:
  assumes "runs (lock_step lamport_code \<lparr>l_counter = 0, l_return = None\<rparr> l_return) (lock_start c) h ls"
  shows "\<exists>a. runs (atomic_step lamport_op) (atomic_start c) h a"
  using lamport_locks.run_tracked [OF assms] lamport_mutex.guarded_run by blast

lemma hlc_code_histories:
  assumes "runs (lock_step hlc_code hlc_reg h_return) (lock_start c) h ls"
  shows "\<exists>a. runs (atomic_step hlc_method) (atomic_start c) h a"
  using hlc_locks.run_tracked [OF assms] hlc_mutex.guarded_run by blast

text \<open>No goroutine waits for ever on a Lamport or a hybrid clock either.\<close>

lemma clock_code_calls_end:
  "runs (lock_step lamport_code \<lparr>l_counter = 0, l_return = None\<rparr> l_return) (lock_start cl) hl lsl \<Longrightarrow>
    calls_end (lock_step lamport_code \<lparr>l_counter = 0, l_return = None\<rparr> l_return) lsl"
  "runs (lock_step hlc_code hlc_reg h_return) (lock_start ch) hh lsh \<Longrightarrow>
    calls_end (lock_step hlc_code hlc_reg h_return) lsh"
  by (rule lamport_locks.code_calls_end hlc_locks.code_calls_end, assumption)+

section \<open>What a missing or a second lock call does\<close>

text \<open>A state in which some call has not returned and everybody waits for the lock.\<close>

fun blocked :: "('call, 's, 'r) lsystem \<Rightarrow> ('call, 's, 'r) routine \<Rightarrow> bool" where
  "blocked ls Ready = True"
| "blocked ls (Busy c (Lock m # rest) r ds) = (held ls \<or> announced ls)"
| "blocked ls (Busy c (AwaitReaders # rest) r ds) = (inside ls \<noteq> 0)"
| "blocked ls (Busy c todo r ds) = False"

definition deadlock :: "('call, 's, 'r) lsystem \<Rightarrow> bool" where
  "deadlock ls \<longleftrightarrow> (\<exists>t. routines ls t \<noteq> Ready) \<and> (\<forall>t. blocked ls (routines ls t))"

lemma deadlock_stuck: "deadlock ls \<Longrightarrow> \<not> calls_end (lock_step code reg result) ls"
proof -
  assume d: "deadlock ls"
  have "False" if "lock_step code reg result ls l ls'" "calls l = []" for l ls'
    using that(1)
  proof (cases rule: lock_step.cases)
    case (invoke t c)
    then show ?thesis using that(2) by simp
  qed (use d in \<open>auto simp: deadlock_def dest: spec [of _ t] split: if_splits\<close>, (metis blocked.simps)+)
  then show ?thesis using d unfolding calls_end_def deadlock_def by blast
qed

lemmas vector_code_eval = deadlock_def lock_start_def lock_go_def put_routine_def vector_incr_def vector_copy_def
  vector_reg_def vector_New_def mput_def mget_def

text \<open>If \<^verbatim>\<open>Tick\<close> did not release the lock, the next call would wait for ever.\<close>

lemma vector_missing_unlock:
  "let code = vector_code(VTick := Lock Exclusive # map Run (vector_incr @ vector_copy))
   in \<exists>ls. runs (lock_step code vector_reg v_return) (lock_start (vector_New ''a''))
        [Inv 0 VTick, Ret 0 VTick \<lparr>sn_nodeID = ''a'', sn_vec = [(''a'', 1)]\<rparr>, Inv 1 VNow] ls \<and> deadlock ls"
  unfolding Let_def
  by (rule lock_schedule_ex [of _ _ _ "[(0, Some VTick)] @ turns [0, 0, 0, 0, 0, 0, 0, 0, 0] @ [(1, Some VNow)]"])
    (simp add: vector_code_eval)

text \<open>If it called \<^verbatim>\<open>Now\<close> where it calls \<^verbatim>\<open>snapshotLocked\<close>, it would wait for itself.\<close>

lemma vector_relock:
  "let code = vector_code(VTick := [Lock Exclusive, DeferUnlock Exclusive] @ map Run vector_incr @ vector_code VNow)
   in \<exists>ls. runs (lock_step code vector_reg v_return) (lock_start (vector_New ''a'')) [Inv 0 VTick] ls \<and> deadlock ls"
  unfolding Let_def
  by (rule lock_schedule_ex [of _ _ _ "[(0, Some VTick)] @ turns [0, 0, 0, 0, 0]"])
    (simp add: vector_code_eval)

text \<open>And a method that takes the read lock twice can deadlock with a writer that comes in between.\<close>

lemma vector_double_read:
  "let code = vector_code(VNow := [Lock Shared, DeferUnlock Shared] @ vector_code VNow)
   in \<exists>ls. runs (lock_step code vector_reg v_return) (lock_start (vector_New ''a'')) [Inv 0 VNow, Inv 1 VTick] ls \<and>
     deadlock ls"
  unfolding Let_def
  by (rule lock_schedule_ex [of _ _ _ "[(0, Some VNow)] @ turns [0, 0] @ [(1, Some VTick)] @ turns [1]"])
    (simp add: vector_code_eval, rule exI [of _ 0], simp)

section \<open>Properties\<close>

text \<open>
  C6. Goroutines that share a vector clock never block each other for ever, and see its methods as atomic. The
  methods are those of the source with their own \<^verbatim>\<open>Lock\<close>, \<^verbatim>\<open>RLock\<close> and deferred unlocks. From any state that any
  schedule reaches, if no new call is made, every continuation comes to an end, and it can only end when every
  call has returned; and for a clock over a proper map every history of calls and returns is one of the atomic
  clock. A writer that waits for readers holds back new ones, as \<^verbatim>\<open>sync.RWMutex\<close> does. A missing unlock, a second
  lock or a nested read lock in one method would break this (\<open>vector_missing_unlock\<close>, \<open>vector_relock\<close>,
  \<open>vector_double_read\<close>).
\<close>

theorem vector_calls_complete:
  assumes "runs vector_code_system (lock_start c) h ls"
  shows "calls_end vector_code_system ls \<and>
    (wf_clock c \<longrightarrow> (\<exists>a. runs (atomic_step vector_op) (atomic_start c) h a))"
  using vector_locks.code_calls_end [OF assms] vector_code_histories [OF assms] by blast

text \<open>A \<^verbatim>\<open>Now\<close> is inside, a tick has announced itself, and a second \<^verbatim>\<open>Now\<close> has to wait behind it.\<close>

theorem vector_calls_complete_witness:
  "\<exists>ls. runs vector_code_system (lock_start (vector_New ''a'')) [Inv 0 VNow, Inv 1 VTick, Inv 2 VNow] ls \<and>
    inside ls = 1 \<and> announced ls \<and> calls_end vector_code_system ls \<and>
    (\<exists>a. runs (atomic_step vector_op) (atomic_start (vector_New ''a'')) [Inv 0 VNow, Inv 1 VTick, Inv 2 VNow] a)"
proof -
  have "wf_clock (vector_New ''a'')" by (simp add: vector_New_def wf_clock_def wf_map_def keys_def)
  moreover have "\<exists>ls. runs vector_code_system (lock_start (vector_New ''a'')) [Inv 0 VNow, Inv 1 VTick, Inv 2 VNow] ls \<and>
      (inside ls = 1 \<and> announced ls)"
    by (rule lock_schedule_ex [of _ _ _ "[(0, Some VNow)] @ turns [0] @ [(1, Some VTick)] @ turns [1] @ [(2, Some VNow)]"])
      (simp add: vector_code_eval)
  ultimately show ?thesis using vector_calls_complete by blast
qed

end
