(* ===== verification/Nested.thy ===== *)
theory Nested
  imports Progress
begin

text \<open>
  Nested locks: the methods of one guarded object call a method of another guarded object while they hold their
  own lock, as the methods of \<^verbatim>\<open>hlc.Clock\<close> call \<^verbatim>\<open>c.wall.NowNanos()\<close>. Other goroutines may use the inner object
  at the same time. The locale \<open>nested_object\<close> shows that the pair behaves as one object with atomic
  methods, and that the two locks cannot deadlock.
\<close>

section \<open>Goroutines under two locks\<close>

datatype ('oc, 'ic) nested_call = Outer 'oc | Inner 'ic

datatype ('ores, 'ires) nested_result = OuterRes 'ores | InnerRes 'ires

text \<open>
  Where a goroutine is: between calls, in a call of the inner object, blocked on the outer lock, holding it
  before its inner call, inside its inner call, in the rest of the outer body, or about to return.
\<close>

datatype ('oc, 's, 'r, 'ores) place =
    Free
  | Direct
  | Blocked 'oc
  | Holding 'oc
  | Calling 'oc
  | Running 'oc "('s, 'r) stmt list" 'r
  | Leaving 'oc 'ores

record ('oc, 's, 'r, 'ores, 'i) nested =
  outer_obj :: 's
  holder :: "nat option"
  places :: "nat \<Rightarrow> ('oc, 's, 'r, 'ores) place"
  inner :: 'i

text \<open>
  The inner object is any system that shows calls and returns; \<open>needs c\<close> is the inner call that the outer call
  \<open>c\<close> makes first once it has the lock, and \<open>body c v\<close> is the rest of its body when that call has returned \<open>v\<close>.
  The inner calls of outer methods are hidden.
\<close>

inductive nested_step ::
  "('i \<Rightarrow> ('ic, 'ires) call_event list \<Rightarrow> 'i \<Rightarrow> bool) \<Rightarrow> ('oc \<Rightarrow> 'ic option) \<Rightarrow>
    ('oc \<Rightarrow> 'ires option \<Rightarrow> ('s, 'r) stmt list) \<Rightarrow> 'r \<Rightarrow> ('r \<Rightarrow> 'ores) \<Rightarrow>
    ('oc, 's, 'r, 'ores, 'i) nested \<Rightarrow> (('oc, 'ic) nested_call, ('ores, 'ires) nested_result) call_event list \<Rightarrow>
    ('oc, 's, 'r, 'ores, 'i) nested \<Rightarrow> bool"
  for istep needs body reg result
where
  inner_tau: "istep (inner \<nu>) [] i \<Longrightarrow> nested_step istep needs body reg result \<nu> [] (\<nu>\<lparr>inner := i\<rparr>)"
| inner_call: "places \<nu> t = Free \<Longrightarrow> istep (inner \<nu>) [Inv t d] i \<Longrightarrow>
    nested_step istep needs body reg result \<nu> [Inv t (Inner d)]
      (\<nu>\<lparr>places := (places \<nu>)(t := Direct), inner := i\<rparr>)"
| inner_return: "places \<nu> t = Direct \<Longrightarrow> istep (inner \<nu>) [Ret t d v] i \<Longrightarrow>
    nested_step istep needs body reg result \<nu> [Ret t (Inner d) (InnerRes v)]
      (\<nu>\<lparr>places := (places \<nu>)(t := Free), inner := i\<rparr>)"
| outer_call: "places \<nu> t = Free \<Longrightarrow>
    nested_step istep needs body reg result \<nu> [Inv t (Outer c)] (\<nu>\<lparr>places := (places \<nu>)(t := Blocked c)\<rparr>)"
| outer_lock: "places \<nu> t = Blocked c \<Longrightarrow> holder \<nu> = None \<Longrightarrow> needs c = None \<Longrightarrow>
    nested_step istep needs body reg result \<nu> []
      (\<nu>\<lparr>holder := Some t, places := (places \<nu>)(t := Running c (body c None) reg)\<rparr>)"
| outer_lock_first: "places \<nu> t = Blocked c \<Longrightarrow> holder \<nu> = None \<Longrightarrow> needs c = Some d \<Longrightarrow>
    nested_step istep needs body reg result \<nu> []
      (\<nu>\<lparr>holder := Some t, places := (places \<nu>)(t := Holding c)\<rparr>)"
| nest_call: "places \<nu> t = Holding c \<Longrightarrow> needs c = Some d \<Longrightarrow> istep (inner \<nu>) [Inv t d] i \<Longrightarrow>
    nested_step istep needs body reg result \<nu> [] (\<nu>\<lparr>places := (places \<nu>)(t := Calling c), inner := i\<rparr>)"
| nest_return: "places \<nu> t = Calling c \<Longrightarrow> istep (inner \<nu>) [Ret t d v] i \<Longrightarrow>
    nested_step istep needs body reg result \<nu> []
      (\<nu>\<lparr>places := (places \<nu>)(t := Running c (body c (Some v)) reg), inner := i\<rparr>)"
| outer_exec: "places \<nu> t = Running c (k # rest) r \<Longrightarrow> stmt_step k rest (outer_obj \<nu>, r) = (code, s', r') \<Longrightarrow>
    nested_step istep needs body reg result \<nu> []
      (\<nu>\<lparr>outer_obj := s', places := (places \<nu>)(t := Running c code r')\<rparr>)"
| outer_unlock: "places \<nu> t = Running c [] r \<Longrightarrow>
    nested_step istep needs body reg result \<nu> []
      (\<nu>\<lparr>holder := None, places := (places \<nu>)(t := Leaving c (result r))\<rparr>)"
| outer_return: "places \<nu> t = Leaving c v \<Longrightarrow>
    nested_step istep needs body reg result \<nu> [Ret t (Outer c) (OuterRes v)]
      (\<nu>\<lparr>places := (places \<nu>)(t := Free)\<rparr>)"

definition nested_start :: "'s \<Rightarrow> 'i \<Rightarrow> ('oc, 's, 'r, 'ores, 'i) nested" where
  "nested_start s i = \<lparr>outer_obj = s, holder = None, places = (\<lambda>_. Free), inner = i\<rparr>"

section \<open>Schedules\<close>

text \<open>\<open>nested_go\<close> moves goroutine \<open>t\<close> by one step, \<open>nested_schedule\<close> moves one goroutine after the other.\<close>

definition nested_go ::
  "(nat \<Rightarrow> 'ic option \<Rightarrow> 'i \<Rightarrow> (('ic, 'ires) call_event list \<times> 'i) option) \<Rightarrow> ('oc \<Rightarrow> 'ic option) \<Rightarrow>
    ('oc \<Rightarrow> 'ires option \<Rightarrow> ('s, 'r) stmt list) \<Rightarrow> 'r \<Rightarrow> ('r \<Rightarrow> 'ores) \<Rightarrow> nat \<Rightarrow> ('oc, 'ic) nested_call option \<Rightarrow>
    ('oc, 's, 'r, 'ores, 'i) nested \<Rightarrow>
    ((('oc, 'ic) nested_call, ('ores, 'ires) nested_result) call_event list \<times> ('oc, 's, 'r, 'ores, 'i) nested) option"
  where
  "nested_go igo needs body reg result t next \<nu> =
     (let set = (\<lambda>g. (places \<nu>)(t := g));
          tau = (\<lambda>i. Some ([], \<nu>\<lparr>inner := i\<rparr>))
      in case places \<nu> t of
           Free \<Rightarrow> (case next of None \<Rightarrow> None
             | Some (Outer c) \<Rightarrow> Some ([Inv t (Outer c)], \<nu>\<lparr>places := set (Blocked c)\<rparr>)
             | Some (Inner d) \<Rightarrow> (case igo t (Some d) (inner \<nu>) of
                 Some ([Inv u d'], i) \<Rightarrow> if u = t
                   then Some ([Inv t (Inner d')], \<nu>\<lparr>places := set Direct, inner := i\<rparr>) else None
               | _ \<Rightarrow> None))
         | Direct \<Rightarrow> (case igo t None (inner \<nu>) of
             Some ([], i) \<Rightarrow> tau i
           | Some ([Ret u d v], i) \<Rightarrow> if u = t
               then Some ([Ret t (Inner d) (InnerRes v)], \<nu>\<lparr>places := set Free, inner := i\<rparr>) else None
           | _ \<Rightarrow> None)
         | Blocked c \<Rightarrow> if holder \<nu> \<noteq> None then None
             else Some ([], \<nu>\<lparr>holder := Some t, places := set
               (case needs c of None \<Rightarrow> Running c (body c None) reg | Some d \<Rightarrow> Holding c)\<rparr>)
         | Holding c \<Rightarrow> (case igo t (needs c) (inner \<nu>) of
             Some ([Inv u d], i) \<Rightarrow> if u = t \<and> needs c = Some d
               then Some ([], \<nu>\<lparr>places := set (Calling c), inner := i\<rparr>) else None
           | _ \<Rightarrow> None)
         | Calling c \<Rightarrow> (case igo t None (inner \<nu>) of
             Some ([], i) \<Rightarrow> tau i
           | Some ([Ret u d v], i) \<Rightarrow> if u = t
               then Some ([], \<nu>\<lparr>places := set (Running c (body c (Some v)) reg), inner := i\<rparr>) else None
           | _ \<Rightarrow> None)
         | Running c code r \<Rightarrow> (case code of
             k # rest \<Rightarrow> (case stmt_step k rest (outer_obj \<nu>, r) of (code, s', r') \<Rightarrow>
               Some ([], \<nu>\<lparr>outer_obj := s', places := set (Running c code r')\<rparr>))
           | [] \<Rightarrow> Some ([], \<nu>\<lparr>holder := None, places := set (Leaving c (result r))\<rparr>))
         | Leaving c v \<Rightarrow> Some ([Ret t (Outer c) (OuterRes v)], \<nu>\<lparr>places := set Free\<rparr>))"

lemma nested_go_step:
  assumes "nested_go igo needs body reg result t nxt \<nu> = Some (l, \<nu>')"
    and "\<And>t c l i i'. igo t c i = Some (l, i') \<Longrightarrow> istep i l i'"
  shows "nested_step istep needs body reg result \<nu> l \<nu>'"
  using assms(1) unfolding nested_go_def Let_def
  by (auto intro: nested_step.intros dest!: assms(2)
      split: place.splits option.splits nested_call.splits list.splits call_event.splits if_splits prod.splits)

fun nested_schedule ::
  "(nat \<Rightarrow> ('oc, 'ic) nested_call option \<Rightarrow> ('oc, 's, 'r, 'ores, 'i) nested \<Rightarrow>
     ((('oc, 'ic) nested_call, ('ores, 'ires) nested_result) call_event list \<times> ('oc, 's, 'r, 'ores, 'i) nested) option) \<Rightarrow>
    (nat \<times> ('oc, 'ic) nested_call option) list \<Rightarrow> ('oc, 's, 'r, 'ores, 'i) nested \<Rightarrow>
    ((('oc, 'ic) nested_call, ('ores, 'ires) nested_result) call_event list \<times> ('oc, 's, 'r, 'ores, 'i) nested) option"
  where
  "nested_schedule move [] \<nu> = Some ([], \<nu>)"
| "nested_schedule move ((t, next) # ts) \<nu> =
     (case move t next \<nu> of None \<Rightarrow> None
      | Some (l, \<nu>') \<Rightarrow> map_option (map_prod ((@) l) id) (nested_schedule move ts \<nu>'))"

lemma nested_schedule_runs:
  "nested_schedule (nested_go (go mode ibody ireg iresult) needs body reg result) ts \<nu> = Some (h, \<nu>') \<Longrightarrow>
    runs (nested_step (sys_step mode ibody ireg iresult) needs body reg result) \<nu> h \<nu>'"
proof (induction ts arbitrary: \<nu> h)
  case Nil
  then show ?case by (simp add: runs_refl)
next
  case (Cons x ts)
  let ?go = "nested_go (go mode ibody ireg iresult) needs body reg result"
  obtain t nx where x: "x = (t, nx)" by fastforce
  obtain l \<tau> h' where g: "?go t nx \<nu> = Some (l, \<tau>)" and s: "nested_schedule ?go ts \<tau> = Some (h', \<nu>')" and h: "h = l @ h'"
    using Cons.prems by (auto simp: x split: option.splits)
  show ?case
    unfolding h by (rule runs_append [OF Cons.IH [OF s] runs_single]) (rule nested_go_step [OF g go_step])
qed

section \<open>Replacing the inner object\<close>

text \<open>If the inner object simulates another one, the composition does.\<close>

definition with_inner :: "('i \<Rightarrow> 'j) \<Rightarrow> ('oc, 's, 'r, 'ores, 'i) nested \<Rightarrow> ('oc, 's, 'r, 'ores, 'j) nested" where
  "with_inner f \<nu> = \<lparr>outer_obj = outer_obj \<nu>, holder = holder \<nu>, places = places \<nu>, inner = f (inner \<nu>)\<rparr>"

lemma with_inner_simps [simp]:
  "outer_obj (with_inner f \<nu>) = outer_obj \<nu>" "holder (with_inner f \<nu>) = holder \<nu>"
  "places (with_inner f \<nu>) = places \<nu>" "inner (with_inner f \<nu>) = f (inner \<nu>)"
  "with_inner f (\<nu>\<lparr>outer_obj := s\<rparr>) = (with_inner f \<nu>)\<lparr>outer_obj := s\<rparr>"
  "with_inner f (\<nu>\<lparr>holder := h\<rparr>) = (with_inner f \<nu>)\<lparr>holder := h\<rparr>"
  "with_inner f (\<nu>\<lparr>places := p\<rparr>) = (with_inner f \<nu>)\<lparr>places := p\<rparr>"
  "with_inner f (\<nu>\<lparr>inner := i\<rparr>) = (with_inner f \<nu>)\<lparr>inner := f i\<rparr>"
  "(with_inner f \<nu>)\<lparr>inner := f (inner \<nu>)\<rparr> = with_inner f \<nu>"
  by (simp_all add: with_inner_def)

lemma inner_simulation:
  assumes "nested_step istep needs body reg result \<nu> l \<nu>'" and "P (inner \<nu>)"
    and sim: "\<And>i l i'. P i \<Longrightarrow> istep i l i' \<Longrightarrow> P i' \<and> (l = [] \<and> f i' = f i \<or> jstep (f i) l (f i'))"
  shows "P (inner \<nu>') \<and> (l = [] \<and> with_inner f \<nu>' = with_inner f \<nu> \<or>
    nested_step jstep needs body reg result (with_inner f \<nu>) l (with_inner f \<nu>'))"
  using assms(1)
proof (cases rule: nested_step.cases)
  case (inner_tau i)
  then show ?thesis
    using sim [OF assms(2) inner_tau(3)] nested_step.inner_tau [of jstep "with_inner f \<nu>"] by auto
next
  case (inner_call t d i)
  then show ?thesis
    using sim [OF assms(2) inner_call(4)] nested_step.inner_call [of "with_inner f \<nu>" t jstep d] by auto
next
  case (inner_return t d v i)
  then show ?thesis
    using sim [OF assms(2) inner_return(4)] nested_step.inner_return [of "with_inner f \<nu>" t jstep d v] by auto
next
  case (nest_call t c d i)
  then show ?thesis
    using sim [OF assms(2) nest_call(5)] nested_step.nest_call [of "with_inner f \<nu>" t c needs d jstep] by auto
next
  case (nest_return t c d v i)
  then show ?thesis
    using sim [OF assms(2) nest_return(4)] nested_step.nest_return [of "with_inner f \<nu>" t c jstep d v] by auto
next
  case (outer_call t c)
  then show ?thesis using assms(2) nested_step.outer_call [of "with_inner f \<nu>" t jstep] by simp
next
  case (outer_lock t c)
  then show ?thesis using assms(2) nested_step.outer_lock [of "with_inner f \<nu>" t c needs jstep] by simp
next
  case (outer_lock_first t c d)
  then show ?thesis using assms(2) nested_step.outer_lock_first [of "with_inner f \<nu>" t c needs d jstep] by simp
next
  case (outer_exec t c k rest r code s' r')
  then show ?thesis using assms(2) nested_step.outer_exec [of "with_inner f \<nu>" t c k rest r code s' r' jstep] by simp
next
  case (outer_unlock t c r)
  then show ?thesis using assms(2) nested_step.outer_unlock [of "with_inner f \<nu>" t c r jstep] by simp
next
  case (outer_return t c v)
  then show ?thesis using assms(2) nested_step.outer_return [of "with_inner f \<nu>" t c v jstep] by simp
qed

lemma inner_simulation_runs:
  assumes "runs (nested_step istep needs body reg result) (nested_start s i) h \<nu>" and "P i"
    and sim: "\<And>i l i'. P i \<Longrightarrow> istep i l i' \<Longrightarrow> P i' \<and> (l = [] \<and> f i' = f i \<or> jstep (f i) l (f i'))"
  shows "P (inner \<nu>) \<and> runs (nested_step jstep needs body reg result) (nested_start s (f i)) h (with_inner f \<nu>)"
  using assms(1)
proof (induction "nested_start s i :: ('a, 'b, 'c, 'd, 'e) nested" h \<nu> rule: runs.induct)
  case runs_refl
  then show ?case using assms(2) runs.runs_refl by (simp add: nested_start_def with_inner_def)
next
  case (runs_step h \<nu> l \<nu>')
  then have IH: "P (inner \<nu>)" "runs (nested_step jstep needs body reg result) (nested_start s (f i)) h (with_inner f \<nu>)"
    by simp_all
  from inner_simulation [where P = P and f = f and jstep = jstep, OF runs_step.hyps(3) IH(1) sim] runs.runs_step [OF IH(2)] IH(2)
  show ?case by auto
qed

section \<open>The pair as one atomic object\<close>

text \<open>
  The contract of the outer object: its body, run without interruption on what the inner call returned, computes the
  operation \<open>oop\<close>. The inner object has the operation \<open>iop\<close>.
\<close>

locale nested_object =
  fixes needs :: "'oc \<Rightarrow> 'ic option"
    and body :: "'oc \<Rightarrow> 'ires option \<Rightarrow> ('s, 'r) stmt list"
    and reg :: 'r
    and result :: "'r \<Rightarrow> 'ores"
    and oop :: "'oc \<Rightarrow> 'ires option \<Rightarrow> 's \<Rightarrow> 's \<times> 'ores"
    and iop :: "'ic \<Rightarrow> 'w \<Rightarrow> 'w \<times> 'ires"
  assumes body_op: "run_body (body c u) (s, reg) = (s', r) \<Longrightarrow> oop c u s = (s', result r)"
begin

text \<open>An outer call takes effect on both objects at once: at the moment its inner call does.\<close>

fun nested_op ::
  "('oc, 'ic) nested_call \<Rightarrow> 's \<times> 'w \<Rightarrow> ('s \<times> 'w) \<times> ('ores, 'ires) nested_result" where
  "nested_op (Inner d) (s, w) = (let (w', v) = iop d w in ((s, w'), InnerRes v))"
| "nested_op (Outer c) (s, w) =
     (case needs c of
        None \<Rightarrow> let (s', v) = oop c None s in ((s', w), OuterRes v)
      | Some d \<Rightarrow> let (w', u) = iop d w; (s', v) = oop c (Some u) s in ((s', w'), OuterRes v))"

abbreviation astep ::
  "('oc, 's, 'r, 'ores, ('ic, 'w, 'ires) atomic) nested \<Rightarrow>
    (('oc, 'ic) nested_call, ('ores, 'ires) nested_result) call_event list \<Rightarrow>
    ('oc, 's, 'r, 'ores, ('ic, 'w, 'ires) atomic) nested \<Rightarrow> bool" where
  "astep \<equiv> nested_step (atomic_step iop) needs body reg result"

text \<open>What the goroutine looks like from outside, and what the outer object will be when it is done.\<close>

fun pair_client ::
  "'s \<Rightarrow> ('ic, 'ires) client \<Rightarrow> ('oc, 's, 'r, 'ores) place \<Rightarrow>
    (('oc, 'ic) nested_call, ('ores, 'ires) nested_result) client" where
  "pair_client s k Free = AIdle"
| "pair_client s k Direct =
     (case k of AIdle \<Rightarrow> AIdle | APending d \<Rightarrow> APending (Inner d) | ADone d v \<Rightarrow> ADone (Inner d) (InnerRes v))"
| "pair_client s k (Blocked c) = APending (Outer c)"
| "pair_client s k (Holding c) = APending (Outer c)"
| "pair_client s k (Calling c) =
     (case k of ADone d v \<Rightarrow> ADone (Outer c) (OuterRes (snd (oop c (Some v) s))) | _ \<Rightarrow> APending (Outer c))"
| "pair_client s k (Running c code r) = ADone (Outer c) (OuterRes (result (snd (run_body code (s, r)))))"
| "pair_client s k (Leaving c v) = ADone (Outer c) (OuterRes v)"

fun outer_after :: "'s \<Rightarrow> ('ic, 'ires) client \<Rightarrow> ('oc, 's, 'r, 'ores) place \<Rightarrow> 's" where
  "outer_after s (ADone d v) (Calling c) = fst (oop c (Some v) s)"
| "outer_after s k (Running c code r) = fst (run_body code (s, r))"
| "outer_after s k p = s"

definition pair_outer :: "('oc, 's, 'r, 'ores, ('ic, 'w, 'ires) atomic) nested \<Rightarrow> 's" where
  "pair_outer \<nu> =
     (case holder \<nu> of None \<Rightarrow> outer_obj \<nu>
      | Some t \<Rightarrow> outer_after (outer_obj \<nu>) (clients (inner \<nu>) t) (places \<nu> t))"

definition pair_abs ::
  "('oc, 's, 'r, 'ores, ('ic, 'w, 'ires) atomic) nested \<Rightarrow>
    (('oc, 'ic) nested_call, 's \<times> 'w, ('ores, 'ires) nested_result) atomic" where
  "pair_abs \<nu> =
     \<lparr>object = (pair_outer \<nu>, object (inner \<nu>)),
      clients = (\<lambda>t. pair_client (outer_obj \<nu>) (clients (inner \<nu>) t) (places \<nu> t))\<rparr>"

text \<open>Who holds the outer lock, and who is in an inner call.\<close>

fun inside :: "('oc, 's, 'r, 'ores) place \<Rightarrow> bool" where
  "inside (Holding c) = True"
| "inside (Calling c) = True"
| "inside (Running c code r) = True"
| "inside _ = False"

fun fits :: "('ic, 'ires) client \<Rightarrow> ('oc, 's, 'r, 'ores) place \<Rightarrow> bool" where
  "fits k Direct \<longleftrightarrow> k \<noteq> AIdle"
| "fits k (Calling c) \<longleftrightarrow> (\<exists>d. needs c = Some d \<and> (k = APending d \<or> (\<exists>v. k = ADone d v)))"
| "fits k (Holding c) \<longleftrightarrow> k = AIdle \<and> needs c \<noteq> None"
| "fits k p \<longleftrightarrow> k = AIdle"

definition paired :: "('oc, 's, 'r, 'ores, ('ic, 'w, 'ires) atomic) nested \<Rightarrow> bool" where
  "paired \<nu> \<longleftrightarrow>
     (\<forall>t. holder \<nu> = Some t \<longleftrightarrow> inside (places \<nu> t)) \<and> (\<forall>t. fits (clients (inner \<nu>) t) (places \<nu> t))"

lemma paired_fits: "paired \<nu> \<Longrightarrow> fits (clients (inner \<nu>) t) (places \<nu> t)"
  by (simp add: paired_def)

lemma paired_inside: "paired \<nu> \<Longrightarrow> inside (places \<nu> t) \<Longrightarrow> holder \<nu> = Some t"
  by (simp add: paired_def)

lemma paired_holder: "paired \<nu> \<Longrightarrow> holder \<nu> = Some t \<Longrightarrow> inside (places \<nu> t)"
  unfolding paired_def by blast

lemma paired_outside: "paired \<nu> \<Longrightarrow> \<not> inside (places \<nu> t) \<Longrightarrow> holder \<nu> \<noteq> Some t"
  by (simp add: paired_def)

lemma pair_client_outside: "\<not> inside p \<Longrightarrow> pair_client s k p = pair_client s' k p"
  by (cases p) simp_all

lemma outer_after_outside: "\<not> inside p \<Longrightarrow> outer_after s k p = s"
  by (cases p; cases k) simp_all

text \<open>A step of one goroutine changes its own view only.\<close>

lemma pair_step:
  assumes p: "paired \<nu>" and t: "places \<nu>' = (places \<nu>)(t := p)"
    and k: "\<forall>u. u \<noteq> t \<longrightarrow> clients (inner \<nu>') u = clients (inner \<nu>) u" and f: "fits (clients (inner \<nu>') t) p"
    and h: "holder \<nu>' = (if inside p then Some t else if inside (places \<nu> t) then None else holder \<nu>)"
    and s: "outer_obj \<nu>' = outer_obj \<nu> \<or> inside (places \<nu> t)"
    and enter: "inside p \<Longrightarrow> inside (places \<nu> t) \<or> holder \<nu> = None"
  shows "paired \<nu>'"
    and "clients (pair_abs \<nu>') =
      (clients (pair_abs \<nu>))(t := pair_client (outer_obj \<nu>') (clients (inner \<nu>') t) p)"
    and "pair_outer \<nu>' =
      (if inside p \<or> inside (places \<nu> t) then outer_after (outer_obj \<nu>') (clients (inner \<nu>') t) p
       else pair_outer \<nu>)"
proof -
  have out: "\<not> inside (places \<nu> u)" if "u \<noteq> t" "inside (places \<nu> t) \<or> holder \<nu> = None" for u
    using that paired_inside [OF p, of u] paired_inside [OF p, of t] by auto
  show "paired \<nu>'"
    unfolding paired_def
  proof (intro conjI allI)
    fix u
    show "fits (clients (inner \<nu>') u) (places \<nu>' u)"
      using paired_fits [OF p, of u] f k t by (cases "u = t") simp_all
    show "holder \<nu>' = Some u \<longleftrightarrow> inside (places \<nu>' u)"
    proof (cases "u = t")
      case True
      then show ?thesis using h t paired_outside [OF p, of t] by auto
    next
      case False
      have "holder \<nu> = Some u \<longleftrightarrow> inside (places \<nu> u)" using p by (simp add: paired_def)
      then show ?thesis using False h t enter out [OF False] by auto
    qed
  qed
  have "pair_client (outer_obj \<nu>') (clients (inner \<nu>') u) (places \<nu>' u) =
      pair_client (outer_obj \<nu>) (clients (inner \<nu>) u) (places \<nu> u)" if "u \<noteq> t" for u
    using that s k t out [OF that] pair_client_outside [of "places \<nu> u"] by auto
  then show "clients (pair_abs \<nu>') =
      (clients (pair_abs \<nu>))(t := pair_client (outer_obj \<nu>') (clients (inner \<nu>') t) p)"
    using t by (auto simp: pair_abs_def fun_eq_iff)
  show "pair_outer \<nu>' =
      (if inside p \<or> inside (places \<nu> t) then outer_after (outer_obj \<nu>') (clients (inner \<nu>') t) p
       else pair_outer \<nu>)"
  proof (cases "inside p \<or> inside (places \<nu> t)")
    case True
    then show ?thesis using h t by (auto simp: pair_outer_def outer_after_outside)
  next
    case False
    then have "holder \<nu> \<noteq> Some t" using paired_outside [OF p] by blast
    then show ?thesis using False h s t k by (auto simp: pair_outer_def split: option.split)
  qed
qed

lemma pair_objects: "object (pair_abs \<nu>) = (pair_outer \<nu>, object (inner \<nu>))"
  by (simp add: pair_abs_def)

lemma pair_clients: "clients (pair_abs \<nu>) t = pair_client (outer_obj \<nu>) (clients (inner \<nu>) t) (places \<nu> t)"
  by (simp add: pair_abs_def)

lemma pair_abs_eqI:
  fixes a :: "(('oc, 'ic) nested_call, 's \<times> 'w, ('ores, 'ires) nested_result) atomic"
  shows "object a = object b \<Longrightarrow> clients a = clients b \<Longrightarrow> a = b"
  by (cases a; cases b) simp

text \<open>A method takes effect when its inner call does, or when it gets the lock if it makes none.\<close>

lemma inner_effect:
  assumes p: "paired \<nu>" and t: "clients (inner \<nu>) t = APending d" and d: "iop d (object (inner \<nu>)) = (w, v)"
    and \<nu>': "\<nu>' = \<nu>\<lparr>inner := (inner \<nu>)\<lparr>object := w, clients := (clients (inner \<nu>))(t := ADone d v)\<rparr>\<rparr>"
  shows "paired \<nu>' \<and> atomic_step nested_op (pair_abs \<nu>) [] (pair_abs \<nu>')"
proof -
  have f: "fits (APending d) (places \<nu> t)" using paired_fits [OF p, of t] t by simp
  then have ins: "holder \<nu>' = (if inside (places \<nu> t) then Some t else if inside (places \<nu> t) then None else holder \<nu>)"
    using paired_inside [OF p, of t] \<nu>' by auto
  have f': "fits (clients (inner \<nu>') t) (places \<nu> t)"
    using f \<nu>' by (cases "places \<nu> t") auto
  note up = pair_step [OF p, of \<nu>' t "places \<nu> t", OF _ _ f' ins]
  have up: "paired \<nu>'"
    "clients (pair_abs \<nu>') = (clients (pair_abs \<nu>))(t := pair_client (outer_obj \<nu>) (ADone d v) (places \<nu> t))"
    "pair_outer \<nu>' = (if inside (places \<nu> t) then outer_after (outer_obj \<nu>) (ADone d v) (places \<nu> t) else pair_outer \<nu>)"
    using up \<nu>' by simp_all
  have obj: "object (inner \<nu>') = w" using \<nu>' by simp
  consider "places \<nu> t = Direct" | c where "places \<nu> t = Calling c" "needs c = Some d"
    using f by (cases "places \<nu> t") auto
  then obtain m s y where m: "pair_client (outer_obj \<nu>) (APending d) (places \<nu> t) = APending m"
      and op: "nested_op m (object (pair_abs \<nu>)) = ((s, w), y)"
      and s: "pair_outer \<nu>' = s" "pair_client (outer_obj \<nu>) (ADone d v) (places \<nu> t) = ADone m y"
  proof cases
    case 1
    then show ?thesis using d up(3) that [of "Inner d"] by (simp add: pair_objects)
  next
    case 2
    have "pair_outer \<nu> = outer_obj \<nu>"
      using 2 t paired_inside [OF p, of t] by (simp add: pair_outer_def)
    then show ?thesis
      using 2 d up(3) that [of "Outer c"] by (simp add: pair_objects case_prod_beta)
  qed
  have "atomic_step nested_op (pair_abs \<nu>) []
      ((pair_abs \<nu>)\<lparr>object := (s, w), clients := (clients (pair_abs \<nu>))(t := ADone m y)\<rparr>)"
    using t m op by (intro atomic_step.effect) (simp_all add: pair_clients)
  moreover have "pair_abs \<nu>' = (pair_abs \<nu>)\<lparr>object := (s, w), clients := (clients (pair_abs \<nu>))(t := ADone m y)\<rparr>"
    by (rule pair_abs_eqI) (simp_all add: pair_objects obj s up(2))
  ultimately show ?thesis using up(1) by simp
qed

text \<open>What stays to be shown of a step of goroutine \<open>t\<close> that leaves the inner object as it is.\<close>

lemma pair_visible:
  assumes "paired \<nu>" and "places \<nu>' = (places \<nu>)(t := p)"
    and "clients (inner \<nu>') = (clients (inner \<nu>))(t := k)" and "object (inner \<nu>') = object (inner \<nu>)" and "fits k p"
    and "holder \<nu>' = (if inside p then Some t else if inside (places \<nu> t) then None else holder \<nu>)"
    and "outer_obj \<nu>' = outer_obj \<nu> \<or> inside (places \<nu> t)" and "inside p \<Longrightarrow> inside (places \<nu> t) \<or> holder \<nu> = None"
    and "outer_after (outer_obj \<nu>') k p = outer_after (outer_obj \<nu>) (clients (inner \<nu>) t) (places \<nu> t)"
  shows "paired \<nu>' \<and>
    pair_abs \<nu>' = (pair_abs \<nu>)\<lparr>clients := (clients (pair_abs \<nu>))(t := pair_client (outer_obj \<nu>') k p)\<rparr>"
proof -
  note up = pair_step [OF assms(1,2) _ _ assms(6,7,8)]
  have up: "paired \<nu>'"
    "clients (pair_abs \<nu>') = (clients (pair_abs \<nu>))(t := pair_client (outer_obj \<nu>') k p)"
    "pair_outer \<nu>' = (if inside p \<or> inside (places \<nu> t) then outer_after (outer_obj \<nu>') k p else pair_outer \<nu>)"
    using up assms(3,5) by simp_all
  have "pair_outer \<nu>' = pair_outer \<nu>"
  proof (cases "inside (places \<nu> t)")
    case True
    then show ?thesis
      using up(3) assms(9) paired_inside [OF assms(1) True] by (simp add: pair_outer_def)
  next
    case False
    then have "inside p \<Longrightarrow> pair_outer \<nu> = outer_obj \<nu>" using assms(8) by (simp add: pair_outer_def)
    then show ?thesis using up(3) assms(7,9) False outer_after_outside [OF False] by auto
  qed
  then show ?thesis using up(1,2) assms(4) by (auto intro!: pair_abs_eqI simp: pair_objects)
qed

definition simulated ::
  "('oc, 's, 'r, 'ores, ('ic, 'w, 'ires) atomic) nested \<Rightarrow>
    (('oc, 'ic) nested_call, ('ores, 'ires) nested_result) call_event list \<Rightarrow>
    ('oc, 's, 'r, 'ores, ('ic, 'w, 'ires) atomic) nested \<Rightarrow> bool" where
  "simulated \<nu> l \<nu>' \<longleftrightarrow> paired \<nu>' \<and>
     (l = [] \<and> pair_abs \<nu>' = pair_abs \<nu> \<or> atomic_step nested_op (pair_abs \<nu>) l (pair_abs \<nu>'))"

text \<open>The view of \<open>t\<close> stays the same, begins a call, or ends one.\<close>

definition moves ::
  "nat \<Rightarrow> ('c, 'v) call_event list \<Rightarrow> ('c, 'v) client \<Rightarrow> ('c, 'v) client \<Rightarrow> bool" where
  "moves t l a b \<longleftrightarrow> l = [] \<and> a = b \<or> (\<exists>m. l = [Inv t m] \<and> a = AIdle \<and> b = APending m) \<or>
     (\<exists>m v. l = [Ret t m v] \<and> a = ADone m v \<and> b = AIdle)"

lemma simulated_move:
  assumes "paired \<nu>" and "places \<nu>' = (places \<nu>)(t := g)"
    and "clients (inner \<nu>') = (clients (inner \<nu>))(t := k)" and "object (inner \<nu>') = object (inner \<nu>)" and "fits k g"
    and "holder \<nu>' = (if inside g then Some t else if inside (places \<nu> t) then None else holder \<nu>)"
    and "outer_obj \<nu>' = outer_obj \<nu> \<or> inside (places \<nu> t)" and "inside g \<Longrightarrow> inside (places \<nu> t) \<or> holder \<nu> = None"
    and "outer_after (outer_obj \<nu>') k g = outer_after (outer_obj \<nu>) (clients (inner \<nu>) t) (places \<nu> t)"
    and "moves t l (clients (pair_abs \<nu>) t) (pair_client (outer_obj \<nu>') k g)"
  shows "simulated \<nu> l \<nu>'"
proof -
  let ?b = "pair_client (outer_obj \<nu>') k g"
  have "paired \<nu>'" and a: "pair_abs \<nu>' = (pair_abs \<nu>)\<lparr>clients := (clients (pair_abs \<nu>))(t := ?b)\<rparr>"
    using pair_visible [OF assms(1-9)] by blast+
  moreover have "l = [] \<and> pair_abs \<nu>' = pair_abs \<nu> \<or> atomic_step nested_op (pair_abs \<nu>) l (pair_abs \<nu>')"
    using assms(10) a unfolding moves_def by (elim disjE exE conjE) (simp_all add: atomic_labels fun_upd_idem)
  ultimately show ?thesis by (simp add: simulated_def)
qed

lemma lock_effect_alone:
  assumes p: "paired \<nu>" and t: "places \<nu> t = Blocked c" and h: "holder \<nu> = None" and n: "needs c = None"
    and \<nu>': "\<nu>' = \<nu>\<lparr>holder := Some t, places := (places \<nu>)(t := Running c (body c None) reg)\<rparr>"
  shows "simulated \<nu> [] \<nu>'"
proof -
  obtain s r where run: "run_body (body c None) (outer_obj \<nu>, reg) = (s, r)" by fastforce
  have k: "clients (inner \<nu>) t = AIdle" using paired_fits [OF p, of t] t by simp
  let ?p = "Running c (body c None) reg" and ?a = "ADone (Outer c) (OuterRes (result r))"
  note up = pair_step [OF p, of \<nu>' t ?p]
  have up: "paired \<nu>'" "clients (pair_abs \<nu>') = (clients (pair_abs \<nu>))(t := ?a)" "pair_outer \<nu>' = s"
    using up \<nu>' k t h run by simp_all
  have "nested_op (Outer c) (object (pair_abs \<nu>)) = ((s, object (inner \<nu>)), OuterRes (result r))"
    using n body_op [OF run] h by (simp add: pair_objects pair_outer_def)
  then have "atomic_step nested_op (pair_abs \<nu>) []
      ((pair_abs \<nu>)\<lparr>object := (s, object (inner \<nu>)), clients := (clients (pair_abs \<nu>))(t := ?a)\<rparr>)"
    using t by (intro atomic_step.effect) (simp_all add: pair_clients)
  moreover have "pair_abs \<nu>' = (pair_abs \<nu>)\<lparr>object := (s, object (inner \<nu>)), clients := (clients (pair_abs \<nu>))(t := ?a)\<rparr>"
    by (rule pair_abs_eqI) (simp_all add: pair_objects \<nu>' up(2,3) [unfolded \<nu>'])
  ultimately show ?thesis using up(1) by (simp add: simulated_def)
qed

text \<open>Every step of the composition is one of the pair, or none.\<close>

lemma pair_simulation:
  assumes "astep \<nu> l \<nu>'" and p: "paired \<nu>"
  shows "simulated \<nu> l \<nu>'"
proof -
  note show_move = simulated_move [OF p]
  note simps = moves_def pair_clients atomic_labels fun_upd_idem
  note fits = paired_fits [OF p] and ins = paired_inside [OF p]
  show ?thesis
    using assms(1)
  proof (cases rule: nested_step.cases)
    case (inner_tau i)
    from inner_tau(3) obtain t d w v where "clients (inner \<nu>) t = APending d" "iop d (object (inner \<nu>)) = (w, v)"
        "i = (inner \<nu>)\<lparr>object := w, clients := (clients (inner \<nu>))(t := ADone d v)\<rparr>"
      by (cases rule: atomic_step.cases) auto
    then show ?thesis using inner_effect [OF p] inner_tau by (auto simp: simulated_def)
  next
    case (inner_call t d i)
    then show ?thesis by (intro show_move [where t = t and g = Direct and k = "APending d"]) (simp_all add: simps)
  next
    case (inner_return t d v i)
    then show ?thesis by (intro show_move [where t = t and g = Free and k = AIdle]) (simp_all add: simps)
  next
    case (outer_call t c)
    then show ?thesis
      using fits [of t] by (intro show_move [where t = t and g = "Blocked c" and k = AIdle]) (simp_all add: simps)
  next
    case (outer_lock t c)
    then show ?thesis using lock_effect_alone [OF p outer_lock(3,4,5)] by simp
  next
    case (outer_lock_first t c d)
    then show ?thesis
      using fits [of t] by (intro show_move [where t = t and g = "Holding c" and k = AIdle]) (simp_all add: simps)
  next
    case (nest_call t c d i)
    then show ?thesis
      using ins [of t] by (intro show_move [where t = t and g = "Calling c" and k = "APending d"]) (simp_all add: simps)
  next
    case (nest_return t c d v i)
    obtain s r where "run_body (body c (Some v)) (outer_obj \<nu>, reg) = (s, r)" by fastforce
    with nest_return body_op [OF this] show ?thesis
      using ins [of t]
      by (intro show_move [where t = t and g = "Running c (body c (Some v)) reg" and k = AIdle]) (simp_all add: simps)
  next
    case (outer_exec t c k rest r code s' r')
    with run_body_step [OF outer_exec(4)] show ?thesis
      using fits [of t] ins [of t]
      by (intro show_move [where t = t and g = "Running c code r'" and k = AIdle]) (simp_all add: simps)
  next
    case (outer_unlock t c r)
    then show ?thesis
      using fits [of t] by (intro show_move [where t = t and g = "Leaving c (result r)" and k = AIdle]) (simp_all add: simps)
  next
    case (outer_return t c v)
    then show ?thesis
      using fits [of t] by (intro show_move [where t = t and g = Free and k = AIdle]) (simp_all add: simps)
  qed
qed

lemma pair_runs:
  assumes "runs astep (nested_start s (atomic_start w)) h \<nu>"
  shows "paired \<nu> \<and> runs (atomic_step nested_op) (atomic_start (s, w)) h (pair_abs \<nu>)"
  using assms
proof (induction "nested_start s (atomic_start w) :: ('oc, 's, 'r, 'ores, ('ic, 'w, 'ires) atomic) nested" h \<nu>
    rule: runs.induct)
  case runs_refl
  have "paired (nested_start s (atomic_start w))"
    and "pair_abs (nested_start s (atomic_start w)) = atomic_start (s, w)"
    by (simp_all add: paired_def nested_start_def atomic_start_def pair_abs_def pair_outer_def)
  then show ?case using runs.runs_refl by simp
next
  case (runs_step h \<nu> l \<nu>')
  then have IH: "paired \<nu>" "runs (atomic_step nested_op) (atomic_start (s, w)) h (pair_abs \<nu>)" by simp_all
  from pair_simulation [OF runs_step.hyps(3) IH(1)] runs.runs_step [OF IH(2)] IH(2) show ?case
    by (auto simp: simulated_def)
qed

end

section \<open>No deadlock\<close>

fun place_phase :: "('oc, 's, 'r, 'ores) place \<Rightarrow> nat" where
  "place_phase Free = 0"
| "place_phase Direct = 1"
| "place_phase (Leaving c v) = 1"
| "place_phase (Running c code r) = 2"
| "place_phase (Calling c) = 3"
| "place_phase (Holding c) = 4"
| "place_phase (Blocked c) = 5"

fun place_loops :: "('oc, 's, 'r, 'ores) place \<Rightarrow> nat" where
  "place_loops (Running c code r) = length (filter is_range code)"
| "place_loops _ = 0"

fun place_stmts :: "('oc, 's, 'r, 'ores) place \<Rightarrow> nat" where
  "place_stmts (Running c code r) = length code"
| "place_stmts _ = 0"

text \<open>The outer work comes first, then the work inside the inner object.\<close>

definition nested_work ::
  "nat set \<Rightarrow> ('oc, 's, 'r, 'ores, ('ic, 'w, 'ir, 'ires) system) nested \<Rightarrow> nat \<times> nat \<times> nat \<times> nat \<times> nat \<times> nat" where
  "nested_work A \<nu> =
     (\<Sum>t\<in>A. place_phase (places \<nu> t), \<Sum>t\<in>A. place_loops (places \<nu> t), \<Sum>t\<in>A. place_stmts (places \<nu> t),
      work A (inner \<nu>))"

abbreviation nested_less where
  "nested_less \<equiv> less_than <*lex*> less_than <*lex*> less_than <*lex*> less_than <*lex*> less_than <*lex*> less_than"

definition nested_active :: "nat set \<Rightarrow> ('oc, 's, 'r, 'ores, ('ic, 'w, 'ir, 'ires) system) nested \<Rightarrow> bool" where
  "nested_active A \<nu> \<longleftrightarrow> finite A \<and> (\<forall>t. places \<nu> t \<noteq> Free \<longrightarrow> t \<in> A) \<and> (\<forall>t. threads (inner \<nu>) t \<noteq> Idle \<longrightarrow> t \<in> A)"

lemma nested_phase_work:
  assumes "nested_active A \<nu>" "places \<nu>' = (places \<nu>)(t := g)" "place_phase g < place_phase (places \<nu> t)"
    and "\<forall>t. threads (inner \<nu>') t \<noteq> Idle \<longrightarrow> t \<in> A"
  shows "(nested_work A \<nu>', nested_work A \<nu>) \<in> nested_less \<and> nested_active A \<nu>'"
proof -
  have t: "t \<in> A" and A: "finite A"
    using assms(1,3) by (cases "places \<nu> t"; auto simp: nested_active_def)+
  then show ?thesis using assms sum_update [OF A t, of place_phase "places \<nu>" g]
    by (auto simp: nested_work_def nested_active_def)
qed

lemma nested_quiet_work:
  assumes "nested_step (sys_step imode ibody ireg iresult) needs body reg result \<nu> l \<nu>'" "calls l = []"
    and A: "nested_active A \<nu>"
  shows "(nested_work A \<nu>', nested_work A \<nu>) \<in> nested_less \<and> nested_active A \<nu>'"
proof -
  have fin: "finite A" and inA: "\<forall>t. threads (inner \<nu>) t \<noteq> Idle \<longrightarrow> t \<in> A"
    using A by (simp_all add: nested_active_def)
  show ?thesis
    using assms(1)
  proof (cases rule: nested_step.cases)
    case (inner_tau i)
    then show ?thesis
      using quiet_work [OF inner_tau(3) _ fin inA] A by (simp add: nested_work_def nested_active_def)
  next
    case (inner_return t d v i)
    then show ?thesis
      using quiet_work [OF inner_return(4) _ fin inA] by (intro nested_phase_work [OF A, of _ t Free]) simp_all
  next
    case (nest_call t c d i)
    have "t \<in> A" using nest_call A by (auto simp: nested_active_def)
    with nest_call(5) have "\<forall>t. threads i t \<noteq> Idle \<longrightarrow> t \<in> A"
      using inA by (cases rule: sys_step.cases) auto
    then show ?thesis using nest_call by (intro nested_phase_work [OF A, of _ t "Calling c"]) simp_all
  next
    case (nest_return t c d v i)
    then show ?thesis
      using quiet_work [OF nest_return(4) _ fin inA]
      by (intro nested_phase_work [OF A, of _ t "Running c (body c (Some v)) reg"]) simp_all
  next
    case (outer_exec t c k rest r code s' r')
    let ?g = "Running c code r'"
    have t: "t \<in> A" using outer_exec A by (auto simp: nested_active_def)
    show ?thesis
      using stmt_work [OF outer_exec(4)] outer_exec t A sum_update [OF fin t, of place_phase "places \<nu>" ?g]
        sum_update [OF fin t, of place_loops "places \<nu>" ?g] sum_update [OF fin t, of place_stmts "places \<nu>" ?g]
      by (auto simp: nested_work_def nested_active_def)
  next
    case (outer_lock t c)
    then show ?thesis
      using inA by (intro nested_phase_work [OF A, of _ t "Running c (body c None) reg"]) simp_all
  next
    case (outer_lock_first t c d)
    then show ?thesis using inA by (intro nested_phase_work [OF A, of _ t "Holding c"]) simp_all
  next
    case (outer_unlock t c r)
    then show ?thesis using inA by (intro nested_phase_work [OF A, of _ t "Leaving c (result r)"]) simp_all
  next
    case (outer_return t c v)
    then show ?thesis using inA by (intro nested_phase_work [OF A, of _ t Free]) simp_all
  qed (use assms(2) in simp_all)
qed

text \<open>Runs of the composition without new calls from outside.\<close>

definition nested_completes ::
  "(('oc, 's, 'r, 'ores, 'i) nested \<Rightarrow> (('oc, 'ic) nested_call, ('ores, 'ires) nested_result) call_event list \<Rightarrow>
     ('oc, 's, 'r, 'ores, 'i) nested \<Rightarrow> bool) \<Rightarrow> ('oc, 's, 'r, 'ores, 'i) nested \<Rightarrow> bool" where
  "nested_completes step \<nu> \<longleftrightarrow>
     (\<nexists>f. f 0 = \<nu> \<and> (\<forall>i. \<exists>l. calls l = [] \<and> step (f i) l (f (Suc i)))) \<and>
     ((\<exists>l \<nu>'. calls l = [] \<and> step \<nu> l \<nu>') \<longleftrightarrow> (\<exists>t. places \<nu> t \<noteq> Free))"

lemma nested_quiet_ends:
  assumes "nested_active A \<nu>" and f: "f 0 = \<nu>"
    "\<And>i. \<exists>l. calls l = [] \<and> nested_step (sys_step imode ibody ireg iresult) needs body reg result (f i) l (f (Suc i))"
  shows False
proof -
  have "wf nested_less" by (intro wf_lex_prod wf_less_than)
  from no_endless_run [OF this, of "nested_active A" \<nu>, OF assms(1)] nested_quiet_work f show False by metis
qed

section \<open>Two guarded objects\<close>

text \<open>Both objects under a lock of their own, the inner one used by the outer one and by anybody else.\<close>

locale nested_mutex =
  io: mutex_object imode ibody ireg iresult iop iok +
  oo: nested_object needs body reg result oop iop
  for imode :: "'ic \<Rightarrow> lock_mode"
    and ibody :: "'ic \<Rightarrow> ('w, 'ir) stmt list"
    and ireg :: 'ir
    and iresult :: "'ir \<Rightarrow> 'ires"
    and iop :: "'ic \<Rightarrow> 'w \<Rightarrow> 'w \<times> 'ires"
    and iok :: "'w \<Rightarrow> bool"
    and needs :: "'oc \<Rightarrow> 'ic option"
    and body :: "'oc \<Rightarrow> 'ires option \<Rightarrow> ('s, 'r) stmt list"
    and reg :: 'r
    and result :: "'r \<Rightarrow> 'ores"
    and oop :: "'oc \<Rightarrow> 'ires option \<Rightarrow> 's \<Rightarrow> 's \<times> 'ores"
begin

abbreviation nstep ::
  "('oc, 's, 'r, 'ores, ('ic, 'w, 'ir, 'ires) system) nested \<Rightarrow>
    (('oc, 'ic) nested_call, ('ores, 'ires) nested_result) call_event list \<Rightarrow>
    ('oc, 's, 'r, 'ores, ('ic, 'w, 'ir, 'ires) system) nested \<Rightarrow> bool" where
  "nstep \<equiv> nested_step (sys_step imode ibody ireg iresult) needs body reg result"

definition inner_locked :: "('ic, 'w, 'ir, 'ires) system \<Rightarrow> bool" where
  "inner_locked \<sigma> \<longleftrightarrow> io.locked \<sigma> \<and> holders_inside imode \<sigma>"

abbreviation nested_abs where
  "nested_abs \<nu> \<equiv> oo.pair_abs (with_inner io.abstract \<nu>)"

lemma nested_run:
  assumes "runs nstep (nested_start s (sys_start w)) h \<nu>" and "iok w"
  shows "inner_locked (inner \<nu>)" and "oo.paired (with_inner io.abstract \<nu>)"
    and "runs (atomic_step oo.nested_op) (atomic_start (s, w)) h (nested_abs \<nu>)"
proof -
  have start: "inner_locked (sys_start w)"
    using io.locked_start [OF assms(2)] by (simp add: inner_locked_def holders_inside_def sys_start_def)
  have sim: "inner_locked i' \<and> (l = [] \<and> io.abstract i' = io.abstract i \<or>
      atomic_step iop (io.abstract i) l (io.abstract i'))"
    if "inner_locked i" "sys_step imode ibody ireg iresult i l i'" for i l i'
    using that io.simulation [of i l i'] step_holders [of imode ibody ireg iresult i l i']
    by (simp add: inner_locked_def)
  note run = inner_simulation_runs [where P = inner_locked and f = io.abstract and jstep = "atomic_step iop",
      OF assms(1) start sim]
  show "inner_locked (inner \<nu>)" using run by blast
  have "runs oo.astep (nested_start s (atomic_start w)) h (with_inner io.abstract \<nu>)"
    using run by (simp add: io.abstract_start)
  from oo.pair_runs [OF this] show "oo.paired (with_inner io.abstract \<nu>)"
    and "runs (atomic_step oo.nested_op) (atomic_start (s, w)) h (nested_abs \<nu>)" by blast+
qed

text \<open>Once all calls have returned, the atomic pair is the pair of the two objects.\<close>

lemma nested_quiescent:
  assumes "runs nstep (nested_start s (sys_start w)) h \<nu>" "iok w" "\<And>t. places \<nu> t = Free"
  shows "object (nested_abs \<nu>) = (outer_obj \<nu>, shared (inner \<nu>))" "clients (nested_abs \<nu>) t = AIdle"
proof -
  note run = nested_run [OF assms(1,2)]
  have idle: "clients (io.abstract (inner \<nu>)) u = AIdle" for u
    using oo.paired_fits [OF run(2), of u] assms(3) by simp
  have "holder \<nu> = None"
    using oo.paired_holder [OF run(2)] assms(3) by (cases "holder \<nu>") simp_all
  moreover have "writer (inner \<nu>) = None"
  proof (cases "writer (inner \<nu>)")
    case (Some u)
    then obtain c code r where "threads (inner \<nu>) u = Inside c code r"
      using run(1) by (auto simp: inner_locked_def holders_inside_def)
    then show ?thesis using idle [of u] by (simp add: io.abstract_def io.abs_client_def)
  qed
  ultimately show "object (nested_abs \<nu>) = (outer_obj \<nu>, shared (inner \<nu>))"
    by (simp add: oo.pair_objects oo.pair_outer_def io.abstract_object_free)
  show "clients (nested_abs \<nu>) t = AIdle" using assms(3) by (simp add: oo.pair_clients)
qed

lemmas nstep_intros =
  nested_step.intros [where istep = "sys_step imode ibody ireg iresult" and needs = needs and body = body
    and reg = reg and result = result]

text \<open>Whoever has not returned, some goroutine can move.\<close>

lemma nested_inner_progress:
  assumes "inner_locked (inner \<nu>)" "oo.paired (with_inner io.abstract \<nu>)" "threads (inner \<nu>) t \<noteq> Idle"
  shows "\<exists>l \<nu>'. calls l = [] \<and> nstep \<nu> l \<nu>'"
proof -
  obtain l i where l: "calls l = []" and step: "sys_step imode ibody ireg iresult (inner \<nu>) l i"
    using quiet_progress [OF _ assms(3)] assms(1) unfolding inner_locked_def by blast
  from step consider "l = []" | u d v where "l = [Ret u d v]" "threads (inner \<nu>) u = Returning d v"
    using l by (cases rule: sys_step.cases) auto
  then show ?thesis
  proof cases
    case 1
    then show ?thesis using nstep_intros(1) step by (metis calls_simps(1))
  next
    case 2
    then have "oo.fits (ADone d v) (places \<nu> u)"
      using oo.paired_fits [OF assms(2), of u] by (simp add: io.abstract_def io.abs_client_def)
    then consider "places \<nu> u = Direct" | c where "places \<nu> u = Calling c"
      by (cases "places \<nu> u") auto
    then show ?thesis
    proof cases
      case 1
      from nstep_intros(3) [OF 1 step [unfolded 2(1)]] show ?thesis by (metis calls_simps(1,4))
    next
      case (2 c)
      from nstep_intros(8) [OF 2 step [unfolded \<open>l = [Ret u d v]\<close>]] show ?thesis
        by (metis calls_simps(1))
    qed
  qed
qed

lemma nested_progress:
  assumes "inner_locked (inner \<nu>)" "oo.paired (with_inner io.abstract \<nu>)" "places \<nu> t \<noteq> Free"
  shows "\<exists>l \<nu>'. calls l = [] \<and> nstep \<nu> l \<nu>'"
proof (cases "\<exists>u. threads (inner \<nu>) u \<noteq> Idle")
  case True
  then show ?thesis using nested_inner_progress [OF assms(1,2)] by blast
next
  case False
  then have fits: "oo.fits AIdle (places \<nu> u)" for u
    using oo.paired_fits [OF assms(2), of u] by (simp add: io.abstract_def io.abs_client_def)
  have silent: ?thesis if "nstep \<nu> [] \<nu>'" for \<nu>' using that by (metis calls_simps(1))
  show ?thesis
  proof (cases "holder \<nu>")
    case None
    show ?thesis
    proof (cases "places \<nu> t")
      case (Blocked c)
      then show ?thesis
        using None nstep_intros(5) [THEN silent] nstep_intros(6) [THEN silent] by (cases "needs c") blast+
    next
      case (Leaving c v)
      from nstep_intros(11) [OF this] show ?thesis by (metis calls_simps(1,4))
    qed (use None assms(3) fits [of t] oo.paired_inside [OF assms(2), of t] in auto)
  next
    case (Some u)
    have "oo.inside (places \<nu> u)" using oo.paired_holder [OF assms(2), of u] Some by simp
    then show ?thesis
    proof (cases "places \<nu> u")
      case (Holding c)
      then obtain d where "needs c = Some d" using fits [of u] by auto
      moreover have "sys_step imode ibody ireg iresult (inner \<nu>) [Inv u d]
          ((inner \<nu>)\<lparr>threads := (threads (inner \<nu>))(u := Waiting d)\<rparr>)"
        using False by (intro sys_step.call) simp
      ultimately show ?thesis using nstep_intros(7) [THEN silent, of u c] Holding by blast
    next
      case (Running c code r)
      show ?thesis
      proof (cases code)
        case (Cons k rest)
        obtain code' s' r' where "stmt_step k rest (outer_obj \<nu>, r) = (code', s', r')" by (metis prod_cases3)
        then show ?thesis using Running Cons nstep_intros(9) [THEN silent, of u c k rest r] by blast
      qed (use Running nstep_intros(10) [THEN silent, of u c r] in blast)
    qed (use fits [of u] in auto)
  qed
qed

lemma nested_finite:
  assumes "runs nstep (nested_start s (sys_start w)) h \<nu>"
  shows "\<exists>A. nested_active A \<nu>"
  using assms
proof (induction "nested_start s (sys_start w) :: ('oc, 's, 'r, 'ores, ('ic, 'w, 'ir, 'ires) system) nested" h \<nu>
    rule: runs.induct)
  case runs_refl
  then show ?case by (auto simp: nested_active_def nested_start_def sys_start_def)
next
  case (runs_step h \<nu> l \<nu>')
  then obtain A where A: "nested_active A \<nu>" by blast
  have inner: "\<exists>u. \<forall>v. v \<noteq> u \<longrightarrow> threads i v = threads (inner \<nu>) v"
    if "sys_step imode ibody ireg iresult (inner \<nu>) k i" for k i
    using that by (cases rule: sys_step.cases) auto
  have "\<exists>t. \<forall>v. v \<noteq> t \<longrightarrow> places \<nu>' v = places \<nu> v"
    using runs_step.hyps(3) by (cases rule: nested_step.cases) auto
  then obtain t where t: "\<And>v. v \<noteq> t \<Longrightarrow> places \<nu>' v = places \<nu> v" by blast
  have "\<exists>u. \<forall>v. v \<noteq> u \<longrightarrow> threads (inner \<nu>') v = threads (inner \<nu>) v"
    using runs_step.hyps(3) by (cases rule: nested_step.cases) (simp_all add: inner)
  then obtain u where u: "\<And>v. v \<noteq> u \<Longrightarrow> threads (inner \<nu>') v = threads (inner \<nu>) v" by blast
  have "nested_active (insert t (insert u A)) \<nu>'"
    using A t u unfolding nested_active_def by (metis finite_insert insert_iff)
  then show ?case by blast
qed

lemma nested_run_completes:
  assumes "runs nstep (nested_start s (sys_start w)) h \<nu>" and "iok w"
  shows "nested_completes nstep \<nu>"
  unfolding nested_completes_def
proof (intro conjI iffI)
  show "\<nexists>f. f 0 = \<nu> \<and> (\<forall>i. \<exists>l. calls l = [] \<and> nstep (f i) l (f (Suc i)))"
  proof
    assume "\<exists>f. f 0 = \<nu> \<and> (\<forall>i. \<exists>l. calls l = [] \<and> nstep (f i) l (f (Suc i)))"
    then obtain f where f: "f 0 = \<nu>" "\<And>i. \<exists>l. calls l = [] \<and> nstep (f i) l (f (Suc i))" by blast
    obtain A where "nested_active A \<nu>" using nested_finite [OF assms(1)] by blast
    from nested_quiet_ends [OF this f] show False .
  qed
next
  assume "\<exists>t. places \<nu> t \<noteq> Free"
  then show "\<exists>l \<nu>'. calls l = [] \<and> nstep \<nu> l \<nu>'" using nested_progress nested_run [OF assms] by blast
next
  assume "\<exists>l \<nu>'. calls l = [] \<and> nstep \<nu> l \<nu>'"
  then obtain l \<nu>' where l: "calls l = []" and step: "nstep \<nu> l \<nu>'" by blast
  have inner: "\<exists>t. threads (inner \<nu>) t \<noteq> Idle" if "sys_step imode ibody ireg iresult (inner \<nu>) [] i" for i
    using that by (cases rule: sys_step.cases) (metis goroutine.distinct)+
  have idle: "places \<nu> t = Free \<Longrightarrow> threads (inner \<nu>) t = Idle" for t
    using oo.paired_fits [OF nested_run(2) [OF assms], of t]
    by (cases "threads (inner \<nu>) t") (simp_all add: io.abstract_def io.abs_client_def)
  from step show "\<exists>t. places \<nu> t \<noteq> Free"
  proof (cases rule: nested_step.cases)
    case (inner_tau i)
    then show ?thesis using inner [OF inner_tau(3)] idle by blast
  qed (use l in \<open>auto, (metis place.distinct)+\<close>)
qed

end

end
