(* ===== verification/Hlc_Wall.thy ===== *)
theory Hlc_Wall
  imports Nested Goroutines_Time
begin

text \<open>
  A hybrid clock on a shared wall clock. The methods of \<^verbatim>\<open>hlc.Clock\<close> call \<^verbatim>\<open>c.wall.NowNanos()\<close> under their own
  mutex, and \<^verbatim>\<open>wallclock.Fake\<close> locks a second mutex for it, while other goroutines set, advance and reverse the
  fake. This theory composes the bodies of \<open>Goroutines\<close> and \<open>Goroutines_Time\<close> and interprets \<open>nested_mutex\<close>
  on them: the reading that the operations of \<open>Hlc\<close> take as an argument is the time of the fake at one moment.
\<close>

section \<open>The composition\<close>

datatype hlc_wall_call = WNow | WSend | WReceive timestamp | WCurrent

text \<open>\<^verbatim>\<open>Now\<close>, \<^verbatim>\<open>Send\<close> and \<^verbatim>\<open>Receive\<close> first read the wall clock, \<^verbatim>\<open>Current\<close> does not.\<close>

fun hlc_needs :: "hlc_wall_call \<Rightarrow> fake_call option" where
  "hlc_needs WCurrent = None"
| "hlc_needs _ = Some FkNowNanos"

text \<open>What the inner call returned; it is \<^verbatim>\<open>NowNanos\<close> and nothing else (lemma \<open>fake_reading\<close>).\<close>

fun reading :: "fake_result option \<Rightarrow> i64" where
  "reading (Some (FkNanos pt)) = pt"
| "reading _ = 0"

fun hlc_with :: "hlc_wall_call \<Rightarrow> i64 \<Rightarrow> hlc_call" where
  "hlc_with WNow pt = HlcNow pt"
| "hlc_with WSend pt = HlcSend pt"
| "hlc_with (WReceive m) pt = HlcReceive pt m"
| "hlc_with WCurrent pt = HlcCurrent"

definition hlc_wall_body :: "hlc_wall_call \<Rightarrow> fake_result option \<Rightarrow> (hlc_clock, hlc_locals) stmt list" where
  "hlc_wall_body c u = hlc_body (hlc_with c (reading u))"

definition fake_reg :: fake_locals where
  "fake_reg = \<lparr>fk_now = zero_time, fk_return = FkUnit\<rparr>"

type_synonym hlc_wall_system =
  "(hlc_wall_call, hlc_clock, hlc_locals, hlc_error + timestamp, (fake_call, fake, fake_locals, fake_result) system) nested"

type_synonym hlc_wall_event =
  "((hlc_wall_call, fake_call) nested_call, (hlc_error + timestamp, fake_result) nested_result) call_event"

abbreviation hlc_wall_step :: "hlc_wall_system \<Rightarrow> hlc_wall_event list \<Rightarrow> hlc_wall_system \<Rightarrow> bool" where
  "hlc_wall_step \<equiv>
     nested_step (sys_step (\<lambda>_. Exclusive) fake_body fake_reg fk_return) hlc_needs hlc_wall_body hlc_reg h_return"

definition hlc_wall_start :: "hlc_clock \<Rightarrow> fake \<Rightarrow> hlc_wall_system" where
  "hlc_wall_start c f = nested_start c (sys_start f)"

text \<open>The specification: one object, whose operations read the wall and move the clock in one step.\<close>

fun hlc_wall_op ::
  "(hlc_wall_call, fake_call) nested_call \<Rightarrow> hlc_clock \<times> fake \<Rightarrow>
    (hlc_clock \<times> fake) \<times> (hlc_error + timestamp, fake_result) nested_result" where
  "hlc_wall_op (Outer WNow) (c, f) = (let (c', t) = hlc_Now (fake_NowNanos f) c in ((c', f), OuterRes (Inr t)))"
| "hlc_wall_op (Outer WSend) (c, f) = (let (c', t) = hlc_Send (fake_NowNanos f) c in ((c', f), OuterRes (Inr t)))"
| "hlc_wall_op (Outer (WReceive m)) (c, f) =
     (let (c', v) = hlc_Receive (fake_NowNanos f) m c in ((c', f), OuterRes v))"
| "hlc_wall_op (Outer WCurrent) (c, f) = ((c, f), OuterRes (Inr (hlc_Current c)))"
| "hlc_wall_op (Inner k) (c, f) = (let (f', v) = fake_op k f in ((c, f'), InnerRes v))"

interpretation hlc_wall: nested_mutex "\<lambda>_. Exclusive" fake_body fake_reg fk_return fake_op "\<lambda>_. True"
  hlc_needs hlc_wall_body hlc_reg h_return "\<lambda>c u. hlc_method (hlc_with c (reading u))"
proof (unfold_locales, goal_cases)
  case (1 s c s' r)
  then show ?case using fake_mutex.body_op [of c s s' r] by (simp add: fake_reg_def)
next
  case (4 c u s s' r)
  then show ?case using hlc_mutex.body_op [of "hlc_with c (reading u)" s s' r] by (simp add: hlc_wall_body_def)
qed simp_all

lemma fake_reading: "reading (Some (snd (fake_op FkNowNanos f))) = fake_NowNanos f"
  by simp

lemma hlc_wall_op_nested: "hlc_wall.oo.nested_op m x = hlc_wall_op m x"
proof (cases m)
  case (Outer c)
  then show ?thesis by (cases c; cases x) (simp_all add: case_prod_beta)
next
  case (Inner k)
  then show ?thesis by (cases x) simp
qed

text \<open>An operation of the clock leaves the fake alone and is the method on a single reading of it.\<close>

lemma hlc_wall_op_Outer:
  "hlc_wall_op (Outer c) (s, f) =
     (let (s', v) = hlc_method (hlc_with c (fake_NowNanos f)) s in ((s', f), OuterRes v))"
  by (cases c) (simp_all add: case_prod_beta)

section \<open>Stamps\<close>

fun hlc_wall_stamp ::
  "(hlc_wall_call, fake_call) nested_call \<Rightarrow> (hlc_error + timestamp, fake_result) nested_result \<Rightarrow> timestamp option"
  where
  "hlc_wall_stamp (Outer c) (OuterRes v) = hlc_stamp (hlc_with c 0) v"
| "hlc_wall_stamp _ _ = None"

fun hlc_wall_allowed :: "nat \<Rightarrow> (hlc_wall_call, fake_call) nested_call \<Rightarrow> bool" where
  "hlc_wall_allowed n (Outer c) = hlc_allowed n (hlc_with c 0)"
| "hlc_wall_allowed n (Inner k) = True"

lemma hlc_with_reading:
  "hlc_stamp (hlc_with c pt) v = hlc_stamp (hlc_with c 0) v" "hlc_allowed n (hlc_with c pt) = hlc_allowed n (hlc_with c 0)"
  by (cases c; cases v; simp) (cases c; simp)

interpretation hlc_wall_stamps: stamping hlc_wall_op "\<lambda>(c, f). hlc_Current c" hlc_wall_stamp
  "\<lambda>n (c, f). unat (Logical (hlc_Current c)) + n < 2 ^ 32" hlc_wall_allowed
proof (unfold_locales, goal_cases)
  case (1 n s c s' v)
  obtain k f where s: "s = (k, f)" by fastforce
  show ?case
  proof (cases c)
    case (Outer m)
    obtain k' r where m: "hlc_method (hlc_with m (fake_NowNanos f)) k = (k', r)" by fastforce
    then have "s' = (k', f)" "v = OuterRes r"
      using 1 unfolding s Outer hlc_wall_op_Outer by auto
    then show ?thesis
      using hlc_stamps.op_grows [OF _ _ m] 1 by (simp add: s Outer hlc_with_reading [where c = m and pt = "fake_NowNanos f"])
  next
    case (Inner d)
    then show ?thesis using 1 by (cases v) (auto simp: s case_prod_beta)
  qed
next
  case (2 n c k)
  then show ?case using hlc_stamps.allowed_less by (cases c) auto
qed

text \<open>
  The timestamps that goroutines get from one clock are pairwise different and grow in real time, even though
  others turn the wall clock back between any two statements.
\<close>

lemma hlc_wall_concurrent_stamps:
  assumes "runs hlc_wall_step (hlc_wall_start c f) h \<nu>"
    and "unat (Logical (hlc_Current c)) + length (calls h) < 2 ^ 32"
    and "\<forall>k \<in> set (calls h). hlc_wall_allowed (length (calls h)) k"
  shows "distinct (stamps_of hlc_wall_stamp h) \<and> real_time_ordered hlc_wall_stamp h"
proof -
  have run: "runs (atomic_step hlc_wall_op) (atomic_start (c, f)) h (hlc_wall.nested_abs \<nu>)"
    using hlc_wall.nested_run(3) [OF assms(1) [unfolded hlc_wall_start_def]]
    by (simp add: hlc_wall_op_nested [abs_def])
  have room: "case (c, f) of (c, f) \<Rightarrow> unat (Logical (hlc_Current c)) + length (calls h) < 2 ^ 32"
    using assms(2) by simp
  show ?thesis
    using hlc_wall_stamps.distinct_stamps [OF run room le_refl assms(3)]
      hlc_wall_stamps.real_time_order [OF run room le_refl assms(3)] by blast
qed

section \<open>Properties\<close>

text \<open>
  C22. Two locks. Goroutines use a hybrid clock while others read, set, advance and reverse the
  wall clock that it reads under its own lock. No schedule of their statements deadlocks: without new calls every
  continuation ends, and only when every call has returned. And the callers see one object with atomic methods, in
  which a clock method and its reading of the wall are one step; once all calls have returned, that
  object holds exactly the final states of both clocks.
\<close>

theorem hlc_wall_linearizable:
  assumes "runs hlc_wall_step (hlc_wall_start c f) h \<nu>"
  shows "nested_completes hlc_wall_step \<nu> \<and>
    (\<exists>a. runs (atomic_step hlc_wall_op) (atomic_start (c, f)) h a \<and>
      (if \<forall>t. places \<nu> t = Free then object a = (outer_obj \<nu>, shared (inner \<nu>)) else True))"
proof -
  note run = assms [unfolded hlc_wall_start_def]
  have "runs (atomic_step hlc_wall_op) (atomic_start (c, f)) h (hlc_wall.nested_abs \<nu>)"
    using hlc_wall.nested_run(3) [OF run] by (simp add: hlc_wall_op_nested [abs_def])
  then show ?thesis
    using hlc_wall.nested_run_completes [OF run] hlc_wall.nested_quiescent(1) [OF run] by auto
qed

text \<open>
  Goroutine 0 calls \<^verbatim>\<open>Now\<close> and holds the clock's lock while goroutine 1 holds the fake's and turns it back from
  50 to 40 milliseconds; then goroutine 0 reads 40.
\<close>

definition hlc_wall_demo_schedule :: "(nat \<times> (hlc_wall_call, fake_call) nested_call option) list" where
  "hlc_wall_demo_schedule =
     [(0, Some (Outer WNow)), (1, Some (Inner (FkReverse (10 * Millisecond))))] @
     turns [0, 1, 1, 0, 1, 1, 1, 0, 0, 0, 0, 0, 0, 0, 0, 0, 0, 0]"

abbreviation hlc_wall_demo_history :: "hlc_wall_event list" where
  "hlc_wall_demo_history \<equiv>
     [Inv 0 (Outer WNow), Inv 1 (Inner (FkReverse (10 * Millisecond))), Ret 1 (Inner (FkReverse (10 * Millisecond))) (InnerRes FkUnit),
      Ret 0 (Outer WNow) (OuterRes (Inr (Timestamp 40000000 0)))]"

lemma hlc_wall_demo_run:
  "\<exists>\<nu>. runs hlc_wall_step (hlc_wall_start hlc_New (NewFake (time_Unix 0 50000000))) hlc_wall_demo_history \<nu> \<and>
    (\<forall>t. places \<nu> t = Free) \<and> time_UnixNano (fake_now (shared (inner \<nu>))) = 40000000"
proof -
  let ?go = "nested_go (go (\<lambda>_. Exclusive) fake_body fake_reg fk_return) hlc_needs hlc_wall_body hlc_reg h_return"
  have "\<exists>\<nu>. nested_schedule ?go hlc_wall_demo_schedule (hlc_wall_start hlc_New (NewFake (time_Unix 0 50000000))) =
      Some (hlc_wall_demo_history, \<nu>) \<and> (\<forall>t. places \<nu> t = Free) \<and> time_UnixNano (fake_now (shared (inner \<nu>))) = 40000000"
    by (simp add: hlc_wall_demo_schedule_def hlc_wall_start_def nested_start_def sys_start_def nested_go_def go_def
        hlc_wall_body_def hlc_advance_body_def hlc_commit_def hlc_reg_def fake_reg_def hlc_New_def NewFake_def
        fake_add_body_def time_Unix_def time_Add_def time_UnixNano_def Millisecond_def smax_def word_sless_alt)
  then show ?thesis by (elim ex_forward conjE) (simp add: nested_schedule_runs)
qed

theorem hlc_wall_linearizable_witness:
  "\<exists>a. runs (atomic_step hlc_wall_op) (atomic_start (hlc_New, NewFake (time_Unix 0 50000000))) hlc_wall_demo_history a \<and>
    time_UnixNano (fake_now (snd (object a))) = 40000000"
proof -
  obtain \<nu> where run: "runs hlc_wall_step (hlc_wall_start hlc_New (NewFake (time_Unix 0 50000000))) hlc_wall_demo_history \<nu>"
      and \<nu>: "\<forall>t. places \<nu> t = Free" "time_UnixNano (fake_now (shared (inner \<nu>))) = 40000000"
    using hlc_wall_demo_run by blast
  from hlc_wall_linearizable [OF run] show ?thesis using \<nu> by auto
qed

end
