(* ===== verification/Causality.thy ===== *)
theory Causality
  imports Lamport Hlc Vector
begin

text \<open>
  What the stamps of an execution count. A Lamport stamp is the length of the longest causal chain that
  ends in the event; an entry of a vector stamp is the number of events of that process in the event's
  causal past; and the events up to a hybrid timestamp are a consistent cut.
\<close>

section \<open>Events and pasts\<close>

definition events_of :: "('s, 'i) trace \<Rightarrow> pid \<Rightarrow> nat set" where
  "events_of tr p = {i. i < length tr \<and> stamp_at tr i \<noteq> None \<and> proc_at tr i = p}"

text \<open>The events of process \<open>p\<close> that event \<open>j\<close> depends on, \<open>j\<close> included.\<close>

definition past_of :: "('s, 'i) trace \<Rightarrow> nat \<Rightarrow> pid \<Rightarrow> nat set" where
  "past_of tr j p = {i \<in> events_of tr p. i = j \<or> happened_before tr i j}"

lemma finite_events_of [simp]: "finite (events_of tr p)"
  by (simp add: events_of_def)

lemma events_of_snoc:
  "events_of (tr @ [(a, r)]) p =
    (if r \<noteq> None \<and> proc a = p then insert (length tr) (events_of tr p) else events_of tr p)"
proof -
  have "i \<in> events_of (tr @ [(a, r)]) p \<longleftrightarrow>
      i \<in> events_of tr p \<or> i = length tr \<and> r \<noteq> None \<and> proc a = p" for i
    by (auto simp: events_of_def stamp_at_snoc nth_append less_Suc_eq split: if_splits)
  then show ?thesis by auto
qed

lemma in_events_of: "stamp_at tr i = Some s \<Longrightarrow> proc_at tr i = p \<Longrightarrow> i \<in> events_of tr p"
  by (simp add: events_of_def stamp_at_length)

section \<open>Entries count events\<close>

context entry_clock
begin

text \<open>A message never knows more of a process than the process itself, so a receive adds one.\<close>

lemma exact_entry_le:
  assumes ex: "exact_at t" and j: "stamp_at (trace t) j = Some m"
  shows "entry m p \<le> entry (cur (clocks t p)) p"
proof (cases "entry m p = 0")
  case False
  then obtain i u where "stamp_at (trace t) i = Some u" "proc_at (trace t) i = p" "entry u p = entry m p"
    using exact_old [OF ex j, of p] unfolding knows_def by auto
  then show ?thesis using ex unfolding exact_at_def by metis
qed simp

lemma step_own:
  assumes sd: "sound_at n t" and ex: "exact_at t" and lim: "n < limit"
    and st: "net_step tick send recv t a = emit a (c', Some s) t"
  shows "cur c' = s" and "entry s (proc a) = Suc (entry (cur (clocks t (proc a))) (proc a))"
proof -
  have v: "valid p (clocks t p)" and b: "entry (cur (clocks t p)) q < limit" for p q
    using sd lim le_less_trans unfolding sound_at_def by (blast, meson le_less_trans)
  have "cur c' = s \<and> entry s (proc a) = Suc (entry (cur (clocks t (proc a))) (proc a))"
  proof (cases a)
    case (NTick p x)
    then have "tick x (clocks t p) = (c', s)"
      using st by (cases "tick x (clocks t p)") (simp add: emit_inject)
    then show ?thesis using entry_tick [OF v b, of x p] NTick by simp
  next
    case (NSend p x)
    then have "send x (clocks t p) = (c', s)"
      using st by (cases "send x (clocks t p)") (simp add: emit_inject)
    then show ?thesis using entry_send [OF v b, of x p] NSend by simp
  next
    case (NRecv p k x)
    then obtain m where m: "sent (trace t) k = Some m"
      using st by (cases "sent (trace t) k") (simp_all add: emit_inject)
    then have rc: "recv x m (clocks t p) = (c', Some s)"
      using st NRecv by (cases "recv x m (clocks t p)") (simp add: emit_inject)
    have mok: "ok m" using sound_at_sent [OF sd m] by blast
    have le: "entry m p \<le> entry (cur (clocks t p)) p" by (rule exact_entry_le [OF ex sent_stamp_at [OF m]])
    then have "max (entry (cur (clocks t p)) p) (entry m p) < limit" using b by simp
    from entry_recv [OF v mok this rc] show ?thesis using le NRecv by (simp add: max_def)
  qed
  then show "cur c' = s" and "entry s (proc a) = Suc (entry (cur (clocks t (proc a))) (proc a))" by auto
qed

text \<open>A process's own entry numbers its events.\<close>

lemma own_entry_counts:
  "length ops \<le> limit \<Longrightarrow>
    entry (cur (clocks (run ops) p)) p = card (events_of (trace (run ops)) p) \<and>
    (\<forall>i s. stamp_at (trace (run ops)) i = Some s \<longrightarrow> proc_at (trace (run ops)) i = p \<longrightarrow>
       entry s p = card {k \<in> events_of (trace (run ops)) p. k \<le> i})"
proof (induction ops rule: rev_induct)
  case Nil
  show ?case using entry_start by (simp add: events_of_def stamp_at_def)
next
  case (snoc a ops)
  let ?t = "run ops" and ?n = "length ops"
  have lim: "?n < limit" "?n \<le> limit" using snoc.prems by auto
  have IH: "entry (cur (clocks ?t p)) p = card (events_of (trace ?t) p)"
    "\<And>i s. stamp_at (trace ?t) i = Some s \<Longrightarrow> proc_at (trace ?t) i = p \<Longrightarrow>
       entry s p = card {k \<in> events_of (trace ?t) p. k \<le> i}"
    using snoc.IH [OF lim(2)] by auto
  note sd = sound_run [OF lim(2)] and ex = exact_run [OF lim(2)]
  obtain c' r where st: "net_step tick send recv ?t a = emit a (c', r) ?t"
      and ge: "good_event ?n ?t a c' r"
    using step_shape [OF sd lim(1)] by blast
  let ?E = "events_of (trace ?t @ [(a, r)]) p"
  have len: "length (trace ?t) \<notin> events_of (trace ?t) p" by (simp add: events_of_def)
  have old: "{k \<in> ?E. k \<le> i} = {k \<in> events_of (trace ?t) p. k \<le> i}" if "i < length (trace ?t)" for i
    using that by (auto simp: events_of_snoc)
  have whole: "{k \<in> ?E. k \<le> length (trace ?t)} = ?E"
    by (auto simp: events_of_snoc) (auto simp: events_of_def)
  have now: "entry (cur (((clocks ?t)(proc a := c')) p)) p = card ?E"
  proof (cases r)
    case None
    then show ?thesis using ge IH(1) by (auto simp: good_event_def events_of_snoc)
  next
    case (Some s)
    show ?thesis
      using step_own [OF sd ex lim(1) st [unfolded Some]] IH(1) len Some by (auto simp: events_of_snoc)
  qed
  have "entry s p = card {k \<in> ?E. k \<le> i}"
    if i: "stamp_at (trace ?t @ [(a, r)]) i = Some s" and p: "proc_at (trace ?t @ [(a, r)]) i = p" for i s
  proof (cases "i < length (trace ?t)")
    case True
    then show ?thesis using i p IH(2) [of i s] old by (simp add: stamp_at_snoc proc_at_snoc)
  next
    case False
    then have "i = length (trace ?t)" and s: "r = Some s" and "proc a = p"
      using i p by (auto simp: stamp_at_snoc nth_append split: if_splits)
    then show ?thesis using step_own(1) [OF sd ex lim(1) st [unfolded s]] now whole by simp
  qed
  then show ?case using now by (simp add: net_run_snoc st)
qed

lemma entry_le_of_past:
  assumes lim: "length ops \<le> limit" and j: "stamp_at (trace (run ops)) j = Some s"
    and i: "stamp_at (trace (run ops)) i = Some u" and h: "i = j \<or> happened_before (trace (run ops)) i j"
  shows "entry u q \<le> entry s q"
  using h
proof
  assume "i = j"
  then show ?thesis using i j by simp
next
  assume "happened_before (trace (run ops)) i j"
  then have "before u s" by (rule clock_condition [OF lim _ i j])
  then show ?thesis using before_iff [OF run_ok [OF lim i] run_ok [OF lim j]] by simp
qed

text \<open>If a stamp's entry was given out at an event, the past of the stamp's event ends there.\<close>

lemma past_upto:
  assumes lim: "length ops \<le> limit" and j: "stamp_at (trace (run ops)) j = Some s"
    and i: "stamp_at (trace (run ops)) i = Some u" "proc_at (trace (run ops)) i = q" "entry u q = entry s q"
      "i = j \<or> happened_before (trace (run ops)) i j"
  shows "past_of (trace (run ops)) j q = {k \<in> events_of (trace (run ops)) q. k \<le> i}" (is "?P = ?E")
proof (intro equalityI subsetI)
  let ?tr = "trace (run ops)"
  have own: "entry u q = card {k \<in> events_of ?tr q. k \<le> i}"
    if "stamp_at ?tr i = Some u" "proc_at ?tr i = q" for i u
    using own_entry_counts [OF lim] that by blast
  fix k assume k: "k \<in> ?P"
  then obtain w where w: "stamp_at ?tr k = Some w" "proc_at ?tr k = q" "k \<in> events_of ?tr q"
    by (auto simp: past_of_def events_of_def)
  have "k \<le> i"
  proof (rule ccontr)
    assume "\<not> k \<le> i"
    then have "{l \<in> events_of ?tr q. l \<le> i} \<subset> {l \<in> events_of ?tr q. l \<le> k}" using w(3) by auto
    then have "entry u q < entry w q"
      using own [OF i(1,2)] own [OF w(1,2)] by (simp add: psubset_card_mono)
    moreover have "entry w q \<le> entry s q" using entry_le_of_past [OF lim j w(1)] k by (simp add: past_of_def)
    ultimately show False using i(3) by simp
  qed
  then show "k \<in> ?E" using w(3) by simp
next
  let ?tr = "trace (run ops)"
  fix k assume k: "k \<in> ?E"
  then obtain w where w: "stamp_at ?tr k = Some w" "proc_at ?tr k = q"
    by (auto simp: events_of_def)
  have "k = i \<or> happened_before ?tr k i" using k w i(1,2) by (auto intro: hb_local)
  then show "k \<in> ?P" using k i(4) by (auto simp: past_of_def intro: hb_trans)
qed

text \<open>An entry of a stamp counts the events of that process in the causal past.\<close>

lemma entry_counts_past:
  assumes lim: "length ops \<le> limit" and j: "stamp_at (trace (run ops)) j = Some s"
  shows "entry s q = card (past_of (trace (run ops)) j q)"
proof -
  let ?tr = "trace (run ops)"
  have own: "entry u q = card {k \<in> events_of ?tr q. k \<le> i}"
    if "stamp_at ?tr i = Some u" "proc_at ?tr i = q" for i u
    using own_entry_counts [OF lim] that by blast
  note le = entry_le_of_past [OF lim j]
  have pos: "0 < entry u q" if "stamp_at ?tr i = Some u" "proc_at ?tr i = q" for i u
    using that exact_run [OF lim] unfolding exact_at_def by blast
  show ?thesis
  proof (cases "entry s q = 0")
    case True
    have "k \<notin> past_of ?tr j q" for k
    proof
      assume k: "k \<in> past_of ?tr j q"
      then obtain w where w: "stamp_at ?tr k = Some w" "proc_at ?tr k = q"
        by (auto simp: past_of_def events_of_def)
      have "entry w q \<le> entry s q" using le [OF w(1)] k by (simp add: past_of_def)
      then show False using pos [OF w] True by simp
    qed
    then show ?thesis using True by (metis card.empty equals0I)
  next
    case False
    then obtain i u where i: "stamp_at ?tr i = Some u" "proc_at ?tr i = q" "entry u q = entry s q"
        "i = j \<or> happened_before ?tr i j"
      using exact_old [OF exact_run [OF lim] j, of q] unfolding knows_def by auto
    have "past_of ?tr j q = {k \<in> events_of ?tr q. k \<le> i}"
      by (rule past_upto [OF lim j i])
    then show ?thesis using own [OF i(1,2)] i(3) by simp
  qed
qed

end

text \<open>
  C11. What the entries of a vector timestamp mean. In every execution of at most \<open>2 ^ 64 - 1\<close> steps, the
  counter that an event's snapshot reports for a node is the number of that node's events in the event's
  causal past (the event itself included): nothing is counted twice, and nothing that causally precedes
  the event is missing.
\<close>

theorem vector_counts_causal_past:
  assumes "length ops \<le> 2 ^ 64 - 1" and "stamp_at (trace (vector_net ops)) j = Some s"
  shows "unat (snapshot_Get s q) = card (past_of (trace (vector_net ops)) j q)"
  using vector_exact.entry_counts_past [OF assms(1), of j s q] assms(2)
  by (simp add: vector_net_run snapshot_Get_def)

theorem vector_counts_causal_past_witness:
  "card (past_of (trace (vector_net vector_demo)) 3 ''c1'') = 2 \<and>
   card (past_of (trace (vector_net vector_demo)) 3 ''c2'') = 2"
proof -
  let ?s = "\<lparr>sn_nodeID = ''c2'', sn_vec = [(''c2'', 2), (''c1'', 2)]\<rparr>"
  have l: "length vector_demo \<le> 2 ^ 64 - 1" by (simp add: vector_demo_def)
  have s: "stamp_at (trace (vector_net vector_demo)) 3 = Some ?s"
    by (simp add: vector_demo_trace stamp_at_def)
  show ?thesis
    using vector_counts_causal_past [OF l s, of "''c1''"] vector_counts_causal_past [OF l s, of "''c2''"]
    by (simp add: snapshot_Get_def mget_def)
qed

section \<open>Lamport stamps are depths\<close>

text \<open>
  A causal chain that ends in \<open>j\<close> is a list of events, each of which happened before all later ones.
  \<open>steps_up\<close>: a stamp above 1 has its predecessor on an event that happened before.
\<close>

definition chain_to :: "('s, 'i) trace \<Rightarrow> nat \<Rightarrow> nat list \<Rightarrow> bool" where
  "chain_to tr j is \<longleftrightarrow> is \<noteq> [] \<and> last is = j \<and> sorted_wrt (happened_before tr) is"

definition steps_up :: "(u64, 'i) trace \<Rightarrow> nat \<Rightarrow> u64 \<Rightarrow> bool" where
  "steps_up tr j s \<longleftrightarrow> unat s = 1 \<or>
     (\<exists>i u. happened_before tr i j \<and> stamp_at tr i = Some u \<and> unat s = unat u + 1)"

lemma steps_up_snoc:
  assumes "steps_up tr j s"
  shows "steps_up (tr @ [e]) j s"
proof -
  obtain a r where e: "e = (a, r)" by fastforce
  have "stamp_at (tr @ [e]) i = Some u" if "stamp_at tr i = Some u" for i u
    using stamp_at_length [OF that] that by (simp add: e stamp_at_snoc)
  then show ?thesis using assms happened_before_snoc unfolding steps_up_def by blast
qed

definition at_latest :: "(u64, 'i) trace \<Rightarrow> pid \<Rightarrow> u64 \<Rightarrow> bool" where
  "at_latest tr p s \<longleftrightarrow> s = 0 \<or> (\<exists>i. stamp_at tr i = Some s \<and> proc_at tr i = p)"

lemma at_latest_snoc: "at_latest tr p s \<Longrightarrow> at_latest (tr @ [e]) p s"
  unfolding at_latest_def
  by (cases e, elim disj_forward ex_forward)
     (auto dest: stamp_at_length simp: stamp_at_snoc nth_append)

definition depth_inv :: "(lamport, u64, unit) net \<Rightarrow> bool" where
  "depth_inv t \<longleftrightarrow>
     (\<forall>j s. stamp_at (trace t) j = Some s \<longrightarrow> steps_up (trace t) j s) \<and>
     (\<forall>p. at_latest (trace t) p (lamport_Now (clocks t p)))"

lemma depth_new:
  assumes inv: "depth_inv t"
    and s: "unat s = unat (lamport_Now (clocks t (proc a))) + 1 \<or>
      (\<exists>p k x m. a = NRecv p k x \<and> stamp_at (trace t) k = Some m \<and> unat s = unat m + 1)"
  shows "steps_up (trace t @ [(a, Some s)]) (length (trace t)) s"
  using s
proof
  let ?tr = "trace t @ [(a, Some s)]" and ?c = "lamport_Now (clocks t (proc a))"
  assume u: "unat s = unat ?c + 1"
  show ?thesis
  proof (cases "?c = 0")
    case True
    then show ?thesis using u by (simp add: steps_up_def)
  next
    case False
    then obtain i where i: "stamp_at (trace t) i = Some ?c" "proc_at (trace t) i = proc a"
      using inv unfolding depth_inv_def at_latest_def by blast
    have "happened_before ?tr i (length (trace t))"
      using i stamp_at_length [OF i(1)] by (intro hb_local) (auto simp: stamp_at_snoc nth_append)
    then show ?thesis
      using i u stamp_at_length [OF i(1)] unfolding steps_up_def
      by (intro disjI2 exI [of _ i] exI [of _ ?c]) (simp add: stamp_at_snoc)
  qed
next
  let ?tr = "trace t @ [(a, Some s)]"
  assume "\<exists>p k x m. a = NRecv p k x \<and> stamp_at (trace t) k = Some m \<and> unat s = unat m + 1"
  then obtain p k x m where a: "a = NRecv p k x" and k: "stamp_at (trace t) k = Some m" and m: "unat s = unat m + 1"
    by blast
  have "happened_before ?tr k (length (trace t))"
    using a by (intro hb_message) (auto simp: stamp_at_snoc)
  then show ?thesis
    using k m stamp_at_length [OF k] unfolding steps_up_def
    by (intro disjI2 exI [of _ k] exI [of _ m]) (simp add: stamp_at_snoc)
qed

lemma lamport_net_run: "lamport_net ops = lamport_clock.run ops"
  by (simp add: lamport_net_def)

lemma depth_old: "depth_inv t \<Longrightarrow> stamp_at (trace t) j = Some u \<Longrightarrow> steps_up (trace t @ [e]) j u"
  unfolding depth_inv_def using steps_up_snoc by blast

lemma depth_emit:
  assumes inv: "depth_inv t" and now: "lamport_Now c' = s"
    and s: "unat s = unat (lamport_Now (clocks t (proc a))) + 1 \<or>
      (\<exists>p k x m. a = NRecv p k x \<and> stamp_at (trace t) k = Some m \<and> unat s = unat m + 1)"
  shows "depth_inv (emit a (c', Some s) t)"
proof -
  let ?tr = "trace t @ [(a, Some s)]"
  have new: "steps_up ?tr (length (trace t)) s" by (rule depth_new [OF inv s])
  have "steps_up ?tr j u" if "stamp_at ?tr j = Some u" for j u
    using that new depth_old [OF inv] by (auto simp: stamp_at_snoc split: if_splits)
  moreover have "at_latest ?tr p (lamport_Now (((clocks t)(proc a := c')) p))" for p
  proof (cases "p = proc a")
    case True
    then show ?thesis
      using now unfolding at_latest_def
      by (intro disjI2 exI [of _ "length (trace t)"]) (simp add: stamp_at_snoc)
  next
    case False
    then show ?thesis using inv unfolding depth_inv_def by (simp add: at_latest_snoc)
  qed
  ultimately show ?thesis by (simp add: depth_inv_def)
qed

lemma depth_receive:
  assumes "depth_inv t" and b: "\<And>p. unat (lamport_Now (clocks t p)) < lamport_limit"
    and m: "sent (trace t) k = Some m" "unat m < lamport_limit"
  shows "depth_inv (emit (NRecv p k x) (lamport_recv x m (clocks t p)) t)"
proof -
  obtain c' s where rs: "lamport_Receive m (clocks t p) = (c', s)" by fastforce
  note r = lamport_Receive_Now [OF rs b m(2)]
  have "unat s = unat (lamport_Now (clocks t (proc (NRecv p k x)))) + 1 \<or>
      (\<exists>q j y n. NRecv p k x = NRecv q j y \<and> stamp_at (trace t) j = Some n \<and> unat s = unat n + 1)"
    using r(2) sent_stamp_at [OF m(1)] by (auto simp: max_def)
  from depth_emit [OF assms(1) r(1) this] show ?thesis using rs by (simp add: lamport_recv_def)
qed

lemma depth_run: "length ops \<le> lamport_limit \<Longrightarrow> depth_inv (lamport_net ops)"
proof (induction ops rule: rev_induct)
  case Nil
  show ?case by (simp add: depth_inv_def at_latest_def lamport_net_def stamp_at_def lamport_defs)
next
  case (snoc a ops)
  let ?t = "lamport_net ops"
  have lim: "length ops < lamport_limit" "length ops \<le> lamport_limit" using snoc.prems by auto
  have IH: "depth_inv ?t" by (rule snoc.IH [OF lim(2)])
  have sd: "lamport_clock.sound_at (length ops) ?t"
    unfolding lamport_net_run by (rule lamport_clock.sound_run [OF lim(2)])
  have b: "unat (lamport_Now (clocks ?t p)) < lamport_limit" for p
    using sd lim(1) unfolding lamport_clock.sound_at_def by (meson le_less_trans)
  have step: "lamport_net (ops @ [b]) = net_step (\<lambda>_. lamport_Tick) (\<lambda>_. lamport_Send) lamport_recv ?t b" for b
    by (simp add: lamport_net_def net_run_snoc)
  show ?case
  proof (cases a)
    case (NTick p x)
    obtain c' s where ts: "lamport_Tick (clocks ?t p) = (c', s)" by fastforce
    show ?thesis
      using depth_emit [OF IH lamport_Tick_Now(1) [OF ts b], of a] lamport_Tick_Now(2) [OF ts b] ts
      unfolding step NTick by simp
  next
    case (NSend p x)
    obtain c' s where ts: "lamport_Tick (clocks ?t p) = (c', s)" by fastforce
    show ?thesis
      using depth_emit [OF IH lamport_Tick_Now(1) [OF ts b], of a] lamport_Tick_Now(2) [OF ts b] ts
      unfolding step NSend by (simp add: lamport_Send_Tick)
  next
    case (NRecv p k x)
    show ?thesis
    proof (cases "sent (trace ?t) k")
      case None
      have "steps_up (trace ?t @ [(a, None)]) j u" if "stamp_at (trace ?t) j = Some u" for j u
        by (rule depth_old [OF IH that])
      moreover have "at_latest (trace ?t @ [(a, None)]) q (lamport_Now (clocks ?t q))" for q
        using IH at_latest_snoc unfolding depth_inv_def by blast
      ultimately show ?thesis
        using None unfolding step NRecv depth_inv_def by (auto simp: stamp_at_snoc split: if_splits)
    next
      case (Some m)
      have "unat m \<le> length ops" using lamport_clock.sound_at_sent [OF sd Some] by simp
      then show ?thesis
        using depth_receive [OF IH b Some, of p x] lim(1) Some unfolding step NRecv by simp
    qed
  qed
qed

text \<open>No chain is longer than the stamp, and one is as long.\<close>

lemma chain_bound:
  assumes lim: "length ops \<le> lamport_limit"
  shows "sorted_wrt (happened_before (trace (lamport_net ops))) (is @ [j]) \<Longrightarrow>
    stamp_at (trace (lamport_net ops)) j = Some s \<Longrightarrow> length is < unat s"
proof (induction "is" arbitrary: j s rule: rev_induct)
  case Nil
  then show ?case
    using depth_run [OF lim] unfolding depth_inv_def steps_up_def by fastforce
next
  case (snoc i "is")
  have hb: "happened_before (trace (lamport_net ops)) i j" and st: "sorted_wrt (happened_before (trace (lamport_net ops))) (is @ [i])"
    using snoc.prems(1) by (auto simp: sorted_wrt_append)
  obtain u where u: "stamp_at (trace (lamport_net ops)) i = Some u"
    using lamport_clock.happened_before_position [of ops i j] hb lim by (auto simp: lamport_net_run)
  have "u < s"
    using lamport_clock.clock_condition lim hb u snoc.prems(2) unfolding lamport_net_def by blast
  then show ?case using snoc.IH [OF st u] by (simp add: word_less_nat_alt)
qed

lemma chain_exists:
  assumes lim: "length ops \<le> lamport_limit"
  shows "stamp_at (trace (lamport_net ops)) j = Some s \<Longrightarrow>
    \<exists>is. chain_to (trace (lamport_net ops)) j is \<and> length is = unat s"
proof (induction "unat s" arbitrary: j s rule: less_induct)
  case less
  let ?tr = "trace (lamport_net ops)"
  have "steps_up ?tr j s" using depth_run [OF lim] less.prems unfolding depth_inv_def by blast
  then consider "unat s = 1" | i u where "happened_before ?tr i j" "stamp_at ?tr i = Some u" "unat s = unat u + 1"
    unfolding steps_up_def by blast
  then show ?case
  proof cases
    case 1
    then show ?thesis by (intro exI [of _ "[j]"]) (simp add: chain_to_def)
  next
    case (2 i u)
    then obtain "is" where c: "chain_to ?tr i is" "length is = unat u" using less.hyps [of u i] by auto
    have "happened_before ?tr x j" if x: "x \<in> set is" for x
    proof -
      have "is = butlast is @ [i]" using c(1) unfolding chain_to_def by (metis append_butlast_last_id)
      then have "x = i \<or> happened_before ?tr x i"
        using c(1) x unfolding chain_to_def by (metis UnE set_append set_ConsD sorted_wrt_append list.set_intros(1) empty_iff empty_set)
      then show ?thesis using 2(1) hb_trans by blast
    qed
    then have "chain_to ?tr j (is @ [j])" using c(1) by (simp add: chain_to_def sorted_wrt_append)
    then show ?thesis using c(2) 2(3) by (intro exI [of _ "is @ [j]"]) simp
  qed
qed

text \<open>
  C17. What a Lamport timestamp means. In every execution of at most \<open>2 ^ 64 - 1\<close> steps by fresh clocks, the
  timestamp of an event is the length of the longest causal chain that ends in it: there is a chain of
  that length, and no chain is longer.
\<close>

theorem lamport_stamp_is_depth:
  assumes "length ops \<le> 2 ^ 64 - 1" and "stamp_at (trace (lamport_net ops)) j = Some s"
  shows "(\<exists>is. chain_to (trace (lamport_net ops)) j is \<and> length is = unat s) \<and>
    (\<forall>is. chain_to (trace (lamport_net ops)) j is \<longrightarrow> length is \<le> unat s)"
proof -
  have "length is \<le> unat s" if c: "chain_to (trace (lamport_net ops)) j is" for "is"
  proof -
    obtain xs where xs: "is = xs @ [j]"
      using c unfolding chain_to_def by (metis append_butlast_last_id)
    then show ?thesis
      using chain_bound [OF assms(1) _ assms(2), of xs] c by (simp add: chain_to_def)
  qed
  then show ?thesis using chain_exists [OF assms] by blast
qed

theorem lamport_stamp_is_depth_witness:
  "\<exists>is. chain_to (trace (lamport_net lamport_demo)) 3 is \<and> length is = 3"
proof -
  have l: "length lamport_demo \<le> 2 ^ 64 - 1" by (simp add: lamport_demo_def)
  have "stamp_at (trace (lamport_net lamport_demo)) 3 = Some 3"
    by (simp add: lamport_demo_trace stamp_at_def)
  from lamport_stamp_is_depth [OF l this] show ?thesis by simp
qed

section \<open>Hybrid timestamps cut executions consistently\<close>

text \<open>The snapshot of the system at timestamp \<open>t\<close>: all events stamped at or before it.\<close>

definition hlc_cut :: "(timestamp, 'i) trace \<Rightarrow> timestamp \<Rightarrow> nat set" where
  "hlc_cut tr t = {i. \<exists>s. stamp_at tr i = Some s \<and> (ts_Less s t \<or> ts_Equal s t)}"

text \<open>
  Consistent snapshots. In every execution of at most \<open>2 ^ 32 - 1\<close> steps, whatever the wall clocks
  say, the events stamped at or before any given timestamp are a consistent cut: with an event they
  contain every event that happened before it, so no message is received inside the cut and sent
  outside of it. For every message delivered across the cut, its send is the earlier side.
\<close>

lemma hlc_cut_consistent:
  assumes "length ops \<le> 2 ^ 32 - 1" and "j \<in> hlc_cut (trace (hlc_net drift ops)) t"
  shows "(\<forall>i. happened_before (trace (hlc_net drift ops)) i j \<longrightarrow> i \<in> hlc_cut (trace (hlc_net drift ops)) t) \<and>
    (\<forall>p i x. fst (trace (hlc_net drift ops) ! j) = NRecv p i x \<longrightarrow> i \<in> hlc_cut (trace (hlc_net drift ops)) t)"
proof -
  let ?tr = "trace (hlc_net drift ops)"
  obtain u where u: "stamp_at ?tr j = Some u" "ts_Less u t \<or> u = t"
    using assms(2) by (auto simp: hlc_cut_def ts_Equal_iff)
  have past: "i \<in> hlc_cut ?tr t" if hb: "happened_before ?tr i j" for i
  proof -
    obtain s where s: "stamp_at ?tr i = Some s"
      using hlc_causal.happened_before_position hb assms(1) unfolding hlc_net_def by blast
    have "ts_Less s u"
      using hlc_causal.clock_condition assms(1) hb s u(1) unfolding hlc_net_def by blast
    then show ?thesis using s u(2) ts_Less_trans by (auto simp: hlc_cut_def)
  qed
  then show ?thesis using hb_message [OF u(1)] by blast
qed

end
