(* ===== verification/Sharing.thy ===== *)
theory Sharing
  imports Vector Dotted
begin

text \<open>
  Go maps are references. In \<open>Vector\<close> and \<open>Dotted\<close> clocks, snapshots and versions hold their maps by
  value; here they hold addresses of maps in a heap, and each method makes, reads and writes the maps
  that its code makes, reads and writes. Programs that call the methods in any order, that copy
  snapshots by assignment and that keep and change maps of their own cannot tell the difference:
  the heap refines the values. This is the claim of the package documentation that snapshots and
  versions are immutable and that constructors and \<^verbatim>\<open>Dots\<close> copy.
\<close>

section \<open>Maps in a heap\<close>

type_synonym addr = nat

type_synonym heap = "counters list"

text \<open>\<^verbatim>\<open>make(map[string]uint64)\<close> returns a fresh empty map; \<open>h_put a k v\<close> is \<^verbatim>\<open>m[k] = v\<close>.\<close>

definition h_make :: "heap \<Rightarrow> heap \<times> addr" where
  "h_make h = (h @ [[]], length h)"

definition h_put :: "addr \<Rightarrow> string \<Rightarrow> u64 \<Rightarrow> heap \<Rightarrow> heap" where
  "h_put a k v h = h[a := mput k v (h ! a)]"

text \<open>The copy loop \<^verbatim>\<open>for k, v := range m { cp[k] = v }\<close> into a fresh map, and \<^verbatim>\<open>maps.Copy\<close>.\<close>

definition h_copy :: "addr \<Rightarrow> heap \<Rightarrow> heap \<times> addr" where
  "h_copy a h = (let (h, cp) = h_make h in (range_loop (h_put cp) (h ! a) h, cp))"

text \<open>The loop \<^verbatim>\<open>if v > acc[k] { acc[k] = v }\<close> over the map at \<open>src\<close>.\<close>

definition h_max :: "addr \<Rightarrow> addr \<Rightarrow> heap \<Rightarrow> heap" where
  "h_max src a h =
     range_loop (\<lambda>k v h. if v > cget (h ! a) k then h_put a k v h else h) (h ! src) h"

section \<open>The methods on the heap\<close>

record vclock_ref =
  vr_nodeID :: string
  vr_vec :: addr

record snapshot_ref =
  sr_nodeID :: string
  sr_vec :: addr

definition mem_New :: "string \<Rightarrow> heap \<Rightarrow> heap \<times> vclock_ref" where
  "mem_New nodeID h = (let (h, vec) = h_make h in (h, \<lparr>vr_nodeID = nodeID, vr_vec = vec\<rparr>))"

definition mem_NewFromMap :: "string \<Rightarrow> addr \<Rightarrow> heap \<Rightarrow> heap \<times> vclock_ref" where
  "mem_NewFromMap nodeID initial h =
     (let (h, vec) = h_copy initial h in (h, \<lparr>vr_nodeID = nodeID, vr_vec = vec\<rparr>))"

definition mem_snapshotLocked :: "vclock_ref \<Rightarrow> heap \<Rightarrow> heap \<times> snapshot_ref" where
  "mem_snapshotLocked c h =
     (let (h, cp) = h_copy (vr_vec c) h in (h, \<lparr>sr_nodeID = vr_nodeID c, sr_vec = cp\<rparr>))"

definition mem_Tick :: "vclock_ref \<Rightarrow> heap \<Rightarrow> heap \<times> snapshot_ref" where
  "mem_Tick c h =
     (let h = h_put (vr_vec c) (vr_nodeID c) (cget (h ! vr_vec c) (vr_nodeID c) + 1) h
      in mem_snapshotLocked c h)"

definition mem_Send :: "vclock_ref \<Rightarrow> heap \<Rightarrow> heap \<times> snapshot_ref" where
  "mem_Send c h =
     (let h = h_put (vr_vec c) (vr_nodeID c) (cget (h ! vr_vec c) (vr_nodeID c) + 1) h
      in mem_snapshotLocked c h)"

definition mem_Receive :: "snapshot_ref \<Rightarrow> vclock_ref \<Rightarrow> heap \<Rightarrow> heap \<times> snapshot_ref" where
  "mem_Receive remote c h =
     (let h = h_max (sr_vec remote) (vr_vec c) h;
          h = h_put (vr_vec c) (vr_nodeID c) (cget (h ! vr_vec c) (vr_nodeID c) + 1) h
      in mem_snapshotLocked c h)"

definition mem_Now :: "vclock_ref \<Rightarrow> heap \<Rightarrow> heap \<times> snapshot_ref" where
  "mem_Now c h = mem_snapshotLocked c h"

definition mem_Copy :: "snapshot_ref \<Rightarrow> heap \<Rightarrow> heap \<times> snapshot_ref" where
  "mem_Copy s h = (let (h, cp) = h_copy (sr_vec s) h in (h, \<lparr>sr_nodeID = sr_nodeID s, sr_vec = cp\<rparr>))"

text \<open>A version is the address of its map.\<close>

definition mem_NewVersion :: "heap \<Rightarrow> heap \<times> addr" where
  "mem_NewVersion h = h_make h"

definition mem_Increment :: "string \<Rightarrow> addr \<Rightarrow> heap \<Rightarrow> heap \<times> addr" where
  "mem_Increment actor v h =
     (let (h, out) = h_copy v h in (h_put out actor (cget (h ! out) actor + 1) h, out))"

definition mem_Merge :: "addr \<Rightarrow> addr \<Rightarrow> heap \<Rightarrow> heap \<times> addr" where
  "mem_Merge v other h = (let (h, out) = h_copy v h in (h_max other out h, out))"

definition mem_Dots :: "addr \<Rightarrow> heap \<Rightarrow> heap \<times> addr" where
  "mem_Dots v h = h_copy v h"

text \<open>What the loops do to the heap.\<close>

lemma h_put_loop:
  "a < length h \<Longrightarrow> range_loop (h_put a) m h = h[a := copy_loop m (h ! a)]"
proof (induction m arbitrary: h)
  case Nil
  then show ?case by (simp add: copy_loop_def)
next
  case (Cons e m)
  obtain k v where e: "e = (k, v)" by fastforce
  show ?case using Cons.IH [of "h_put a k v h"] Cons.prems by (simp add: e copy_loop_def h_put_def)
qed

lemma h_copy_eq:
  "a < length h \<Longrightarrow> wf_map (h ! a) \<Longrightarrow> h_copy a h = (h @ [h ! a], length h)"
  by (simp add: h_copy_def h_make_def h_put_loop nth_append list_update_append)

lemma h_max_loop:
  "a < length h \<Longrightarrow> range_loop (\<lambda>k v h. if v > cget (h ! a) k then h_put a k v h else h) m h =
    h[a := max_loop m (h ! a)]"
proof (induction m arbitrary: h)
  case Nil
  then show ?case by simp
next
  case (Cons e m)
  obtain k v where e: "e = (k, v)" by fastforce
  show ?case
    using Cons.IH [of h] Cons.IH [of "h_put a k v h"] Cons.prems by (simp add: e h_put_def)
qed

lemma h_max_eq: "a < length h \<Longrightarrow> h_max src a h = h[a := max_loop (h ! src) (h ! a)]"
  by (simp add: h_max_def h_max_loop)

section \<open>Programs that use the library\<close>

text \<open>
  One statement of a client. Clocks, snapshots, versions and the client's own maps are numbered in the
  order in which they were made; a statement on a number not yet in use does nothing. \<open>SAssign i\<close> is a Go
  assignment of a snapshot, which copies the struct and shares the map; \<open>SDecode i\<close> is a successful
  \<^verbatim>\<open>UnmarshalBinary\<close> or \<^verbatim>\<open>UnmarshalJSON\<close> into the variable, which fills a fresh map and stores it there;
  \<open>MPut\<close> writes to a map that the client owns: one it made or one that \<^verbatim>\<open>Dots\<close> returned.
\<close>

datatype api_op =
    CNew string
  | CNewFromMap string nat
  | CTick nat
  | CSend nat
  | CReceive nat nat
  | CNow nat
  | SCopy nat
  | SAssign nat
  | SDecode nat string counters
  | DNew
  | DIncrement string nat
  | DMerge nat nat
  | DDots nat
  | MMake
  | MPut nat string u64

record mem =
  m_heap :: heap
  m_clocks :: "vclock_ref list"
  m_snaps :: "snapshot_ref list"
  m_versions :: "addr list"
  m_maps :: "addr list"

definition mem_start :: mem where
  "mem_start = \<lparr>m_heap = [], m_clocks = [], m_snaps = [], m_versions = [], m_maps = []\<rparr>"

definition new_clock :: "heap \<times> vclock_ref \<Rightarrow> mem \<Rightarrow> mem" where
  "new_clock r m = m\<lparr>m_heap := fst r, m_clocks := m_clocks m @ [snd r]\<rparr>"

definition new_snap :: "heap \<times> snapshot_ref \<Rightarrow> mem \<Rightarrow> mem" where
  "new_snap r m = m\<lparr>m_heap := fst r, m_snaps := m_snaps m @ [snd r]\<rparr>"

definition new_version :: "heap \<times> addr \<Rightarrow> mem \<Rightarrow> mem" where
  "new_version r m = m\<lparr>m_heap := fst r, m_versions := m_versions m @ [snd r]\<rparr>"

definition new_map :: "heap \<times> addr \<Rightarrow> mem \<Rightarrow> mem" where
  "new_map r m = m\<lparr>m_heap := fst r, m_maps := m_maps m @ [snd r]\<rparr>"

fun mem_step :: "mem \<Rightarrow> api_op \<Rightarrow> mem" where
  "mem_step m (CNew n) = new_clock (mem_New n (m_heap m)) m"
| "mem_step m (CNewFromMap n i) =
     (if i < length (m_maps m) then new_clock (mem_NewFromMap n (m_maps m ! i) (m_heap m)) m else m)"
| "mem_step m (CTick i) =
     (if i < length (m_clocks m) then new_snap (mem_Tick (m_clocks m ! i) (m_heap m)) m else m)"
| "mem_step m (CSend i) =
     (if i < length (m_clocks m) then new_snap (mem_Send (m_clocks m ! i) (m_heap m)) m else m)"
| "mem_step m (CReceive i j) =
     (if i < length (m_clocks m) \<and> j < length (m_snaps m)
      then new_snap (mem_Receive (m_snaps m ! j) (m_clocks m ! i) (m_heap m)) m else m)"
| "mem_step m (CNow i) =
     (if i < length (m_clocks m) then new_snap (mem_Now (m_clocks m ! i) (m_heap m)) m else m)"
| "mem_step m (SCopy j) =
     (if j < length (m_snaps m) then new_snap (mem_Copy (m_snaps m ! j) (m_heap m)) m else m)"
| "mem_step m (SAssign j) =
     (if j < length (m_snaps m) then m\<lparr>m_snaps := m_snaps m @ [m_snaps m ! j]\<rparr> else m)"
| "mem_step m (SDecode j n es) =
     (let (h, a) = h_make (m_heap m)
      in m\<lparr>m_heap := range_loop (h_put a) es h, m_snaps := (m_snaps m)[j := \<lparr>sr_nodeID = n, sr_vec = a\<rparr>]\<rparr>)"
| "mem_step m DNew = new_version (mem_NewVersion (m_heap m)) m"
| "mem_step m (DIncrement a i) =
     (if i < length (m_versions m) then new_version (mem_Increment a (m_versions m ! i) (m_heap m)) m else m)"
| "mem_step m (DMerge i j) =
     (if i < length (m_versions m) \<and> j < length (m_versions m)
      then new_version (mem_Merge (m_versions m ! i) (m_versions m ! j) (m_heap m)) m else m)"
| "mem_step m (DDots i) =
     (if i < length (m_versions m) then new_map (mem_Dots (m_versions m ! i) (m_heap m)) m else m)"
| "mem_step m MMake = new_map (h_make (m_heap m)) m"
| "mem_step m (MPut i k v) =
     (if i < length (m_maps m) then m\<lparr>m_heap := h_put (m_maps m ! i) k v (m_heap m)\<rparr> else m)"

definition mem_run :: "api_op list \<Rightarrow> mem" where
  "mem_run ops = foldl mem_step mem_start ops"

text \<open>The same programs on values.\<close>

record vals =
  v_clocks :: "vclock list"
  v_snaps :: "snapshot list"
  v_versions :: "version list"
  v_maps :: "counters list"

definition vals_start :: vals where
  "vals_start = \<lparr>v_clocks = [], v_snaps = [], v_versions = [], v_maps = []\<rparr>"

text \<open>A method changes clock \<open>i\<close> and returns a snapshot.\<close>

definition clock_snap :: "nat \<Rightarrow> vclock \<times> snapshot \<Rightarrow> vals \<Rightarrow> vals" where
  "clock_snap i r w = w\<lparr>v_clocks := (v_clocks w)[i := fst r], v_snaps := v_snaps w @ [snd r]\<rparr>"

fun vals_step :: "vals \<Rightarrow> api_op \<Rightarrow> vals" where
  "vals_step w (CNew n) = w\<lparr>v_clocks := v_clocks w @ [vector_New n]\<rparr>"
| "vals_step w (CNewFromMap n i) =
     (if i < length (v_maps w) then w\<lparr>v_clocks := v_clocks w @ [vector_NewFromMap n (v_maps w ! i)]\<rparr> else w)"
| "vals_step w (CTick i) = (if i < length (v_clocks w) then clock_snap i (vector_Tick (v_clocks w ! i)) w else w)"
| "vals_step w (CSend i) = (if i < length (v_clocks w) then clock_snap i (vector_Send (v_clocks w ! i)) w else w)"
| "vals_step w (CReceive i j) =
     (if i < length (v_clocks w) \<and> j < length (v_snaps w)
      then clock_snap i (vector_Receive (v_snaps w ! j) (v_clocks w ! i)) w else w)"
| "vals_step w (CNow i) =
     (if i < length (v_clocks w) then w\<lparr>v_snaps := v_snaps w @ [vector_Now (v_clocks w ! i)]\<rparr> else w)"
| "vals_step w (SCopy j) =
     (if j < length (v_snaps w) then w\<lparr>v_snaps := v_snaps w @ [snapshot_Copy (v_snaps w ! j)]\<rparr> else w)"
| "vals_step w (SAssign j) =
     (if j < length (v_snaps w) then w\<lparr>v_snaps := v_snaps w @ [v_snaps w ! j]\<rparr> else w)"
| "vals_step w (SDecode j n es) =
     w\<lparr>v_snaps := (v_snaps w)[j := \<lparr>sn_nodeID = n, sn_vec = copy_loop es []\<rparr>]\<rparr>"
| "vals_step w DNew = w\<lparr>v_versions := v_versions w @ [dotted_NewVersion]\<rparr>"
| "vals_step w (DIncrement a i) =
     (if i < length (v_versions w)
      then w\<lparr>v_versions := v_versions w @ [dotted_Increment a (v_versions w ! i)]\<rparr> else w)"
| "vals_step w (DMerge i j) =
     (if i < length (v_versions w) \<and> j < length (v_versions w)
      then w\<lparr>v_versions := v_versions w @ [dotted_Merge (v_versions w ! i) (v_versions w ! j)]\<rparr> else w)"
| "vals_step w (DDots i) =
     (if i < length (v_versions w) then w\<lparr>v_maps := v_maps w @ [dotted_Dots (v_versions w ! i)]\<rparr> else w)"
| "vals_step w MMake = w\<lparr>v_maps := v_maps w @ [[]]\<rparr>"
| "vals_step w (MPut i k v) =
     (if i < length (v_maps w) then w\<lparr>v_maps := (v_maps w)[i := mput k v (v_maps w ! i)]\<rparr> else w)"

definition vals_run :: "api_op list \<Rightarrow> vals" where
  "vals_run ops = foldl vals_step vals_start ops"

section \<open>Ownership\<close>

text \<open>What the references stand for.\<close>

definition clock_at :: "heap \<Rightarrow> vclock_ref \<Rightarrow> vclock" where
  "clock_at h c = \<lparr>vc_nodeID = vr_nodeID c, vc_vec = h ! vr_vec c\<rparr>"

definition snap_at :: "heap \<Rightarrow> snapshot_ref \<Rightarrow> snapshot" where
  "snap_at h s = \<lparr>sn_nodeID = sr_nodeID s, sn_vec = h ! sr_vec s\<rparr>"

definition version_at :: "heap \<Rightarrow> addr \<Rightarrow> version" where
  "version_at h a = \<lparr>dots = h ! a\<rparr>"

definition values_of :: "mem \<Rightarrow> vals" where
  "values_of m =
     \<lparr>v_clocks = List.map (clock_at (m_heap m)) (m_clocks m),
      v_snaps = List.map (snap_at (m_heap m)) (m_snaps m),
      v_versions = List.map (version_at (m_heap m)) (m_versions m),
      v_maps = List.map ((!) (m_heap m)) (m_maps m)\<rparr>"

text \<open>
  Every reference points to a well-formed map. The map of a clock belongs to it alone, as does each of
  the client's maps to the client; only snapshots and versions, which nobody writes to, may share.
\<close>

definition clock_addrs :: "mem \<Rightarrow> addr list" where
  "clock_addrs m = List.map vr_vec (m_clocks m)"

definition frozen_addrs :: "mem \<Rightarrow> addr set" where
  "frozen_addrs m = sr_vec ` set (m_snaps m) \<union> set (m_versions m)"

definition owned :: "mem \<Rightarrow> bool" where
  "owned m \<longleftrightarrow> (\<forall>g \<in> set (m_heap m). wf_map g) \<and>
     (\<forall>a \<in> set (clock_addrs m @ m_maps m) \<union> frozen_addrs m. a < length (m_heap m)) \<and>
     distinct (clock_addrs m @ m_maps m) \<and>
     set (clock_addrs m @ m_maps m) \<inter> frozen_addrs m = {}"

definition used_addrs :: "mem \<Rightarrow> addr set" where
  "used_addrs m = set (clock_addrs m) \<union> set (m_maps m) \<union> frozen_addrs m"

lemma values_heap:
  assumes "\<And>a. a \<in> used_addrs m \<Longrightarrow> h ! a = m_heap m ! a"
  shows "values_of (m\<lparr>m_heap := h\<rparr>) = values_of m"
  using assms
  by (auto simp: values_of_def clock_at_def snap_at_def version_at_def used_addrs_def clock_addrs_def
      frozen_addrs_def)

lemma owned_used: "owned m \<Longrightarrow> a \<in> used_addrs m \<Longrightarrow> a < length (m_heap m)"
  by (auto simp: owned_def used_addrs_def)

lemma owned_wf: "owned m \<Longrightarrow> a < length (m_heap m) \<Longrightarrow> wf_map (m_heap m ! a)"
  by (simp add: owned_def)

lemma used_nth:
  "i < length (m_clocks m) \<Longrightarrow> vr_vec (m_clocks m ! i) \<in> used_addrs m"
  "i < length (m_snaps m) \<Longrightarrow> sr_vec (m_snaps m ! i) \<in> used_addrs m"
  "i < length (m_versions m) \<Longrightarrow> m_versions m ! i \<in> used_addrs m"
  "i < length (m_maps m) \<Longrightarrow> m_maps m ! i \<in> used_addrs m"
  by (auto simp: used_addrs_def clock_addrs_def frozen_addrs_def)

text \<open>Allocation leaves all values alone, and the new reference is the only one to its map.\<close>

lemma values_append: "owned m \<Longrightarrow> values_of (m\<lparr>m_heap := m_heap m @ gs\<rparr>) = values_of m"
  by (rule values_heap) (simp add: nth_append owned_used)

lemma values_new:
  assumes "owned m"
  shows "values_of (new_clock (m_heap m @ [g], \<lparr>vr_nodeID = n, vr_vec = length (m_heap m)\<rparr>) m) =
      (values_of m)\<lparr>v_clocks := v_clocks (values_of m) @ [\<lparr>vc_nodeID = n, vc_vec = g\<rparr>]\<rparr>"
    and "values_of (new_snap (m_heap m @ [g], \<lparr>sr_nodeID = n, sr_vec = length (m_heap m)\<rparr>) m) =
      (values_of m)\<lparr>v_snaps := v_snaps (values_of m) @ [\<lparr>sn_nodeID = n, sn_vec = g\<rparr>]\<rparr>"
    and "values_of (new_version (m_heap m @ [g], length (m_heap m)) m) =
      (values_of m)\<lparr>v_versions := v_versions (values_of m) @ [\<lparr>dots = g\<rparr>]\<rparr>"
    and "values_of (new_map (m_heap m @ [g], length (m_heap m)) m) =
      (values_of m)\<lparr>v_maps := v_maps (values_of m) @ [g]\<rparr>"
  using values_append [OF assms, of "[g]"]
  by (simp_all add: values_of_def new_clock_def new_snap_def new_version_def new_map_def clock_at_def
      snap_at_def version_at_def)

lemma owned_fresh: "owned m \<Longrightarrow> length (m_heap m) \<notin> used_addrs m"
  using owned_used by blast

lemma owned_new:
  assumes "owned m" and "wf_map g"
  shows "owned (new_clock (m_heap m @ [g], \<lparr>vr_nodeID = n, vr_vec = length (m_heap m)\<rparr>) m)"
    and "owned (new_snap (m_heap m @ [g], \<lparr>sr_nodeID = n, sr_vec = length (m_heap m)\<rparr>) m)"
    and "owned (new_version (m_heap m @ [g], length (m_heap m)) m)"
    and "owned (new_map (m_heap m @ [g], length (m_heap m)) m)"
  using assms owned_fresh [OF assms(1)]
  by (auto simp: owned_def new_clock_def new_snap_def new_version_def new_map_def used_addrs_def
      clock_addrs_def frozen_addrs_def less_Suc_eq)

text \<open>A write to a clock's map changes that clock only; a write to a client's map only that map.\<close>

lemma owned_write: "owned m \<Longrightarrow> wf_map g \<Longrightarrow> owned (m\<lparr>m_heap := (m_heap m)[a := g]\<rparr>)"
  by (auto simp: owned_def clock_addrs_def frozen_addrs_def dest: set_update_subset_insert [THEN subsetD])

lemma map_write_unused:
  "a \<notin> f ` set xs \<Longrightarrow> List.map (\<lambda>x. G x (h[a := g] ! f x)) xs = List.map (\<lambda>x. G x (h ! f x)) xs"
proof (rule list.map_cong0)
  fix x assume "a \<notin> f ` set xs" and "x \<in> set xs"
  then have "a \<noteq> f x" by blast
  then show "G x (h[a := g] ! f x) = G x (h ! f x)" by simp
qed

lemma map_write_used:
  assumes "distinct (List.map f xs)" and "i < length xs" and "f (xs ! i) < length h"
  shows "List.map (\<lambda>x. G x (h[f (xs ! i) := g] ! f x)) xs = (List.map (\<lambda>x. G x (h ! f x)) xs)[i := G (xs ! i) g]"
proof (rule nth_equalityI)
  fix j assume "j < length (List.map (\<lambda>x. G x (h[f (xs ! i) := g] ! f x)) xs)"
  then have j: "j < length xs" by simp
  have "f (xs ! j) \<noteq> f (xs ! i)" if "j \<noteq> i"
    using assms(1,2) j that by (auto simp: distinct_conv_nth)
  then show "List.map (\<lambda>x. G x (h[f (xs ! i) := g] ! f x)) xs ! j =
      (List.map (\<lambda>x. G x (h ! f x)) xs)[i := G (xs ! i) g] ! j"
    using j assms(2,3) by (cases "j = i") simp_all
qed simp

lemma owned_clock:
  "owned m \<Longrightarrow> a \<in> set (clock_addrs m) \<Longrightarrow>
    a \<notin> frozen_addrs m \<and> a \<notin> set (m_maps m) \<and> a < length (m_heap m) \<and> distinct (clock_addrs m)"
  unfolding owned_def by auto

lemma owned_map:
  "owned m \<Longrightarrow> a \<in> set (m_maps m) \<Longrightarrow>
    a \<notin> frozen_addrs m \<and> a \<notin> set (clock_addrs m) \<and> a < length (m_heap m) \<and> distinct (m_maps m)"
  unfolding owned_def by auto

lemma values_clock_write:
  assumes "owned m" and i: "i < length (m_clocks m)"
  shows "values_of (m\<lparr>m_heap := (m_heap m)[vr_vec (m_clocks m ! i) := g]\<rparr>) =
    (values_of m)\<lparr>v_clocks := (v_clocks (values_of m))[i := \<lparr>vc_nodeID = vr_nodeID (m_clocks m ! i), vc_vec = g\<rparr>]\<rparr>"
proof -
  let ?a = "vr_vec (m_clocks m ! i)"
  have "?a \<in> set (clock_addrs m)" using i by (simp add: clock_addrs_def)
  from owned_clock [OF assms(1) this]
  have "?a \<notin> sr_vec ` set (m_snaps m)" and "?a \<notin> id ` set (m_versions m)" and "?a \<notin> id ` set (m_maps m)"
    and "distinct (List.map vr_vec (m_clocks m))" and "?a < length (m_heap m)"
    by (simp_all add: frozen_addrs_def clock_addrs_def)
  then show ?thesis
    using map_write_used [of vr_vec "m_clocks m" i "m_heap m" "\<lambda>c w. \<lparr>vc_nodeID = vr_nodeID c, vc_vec = w\<rparr>" g] i
      map_write_unused [of ?a sr_vec "m_snaps m" "\<lambda>s w. \<lparr>sn_nodeID = sr_nodeID s, sn_vec = w\<rparr>" "m_heap m" g]
      map_write_unused [of ?a id "m_versions m" "\<lambda>_ w. \<lparr>dots = w\<rparr>" "m_heap m" g]
      map_write_unused [of ?a id "m_maps m" "\<lambda>_ w. w" "m_heap m" g]
    by (simp add: values_of_def clock_at_def [abs_def] snap_at_def [abs_def] version_at_def [abs_def] del: map_eq_conv)
qed

lemma values_map_write:
  assumes "owned m" and i: "i < length (m_maps m)"
  shows "values_of (m\<lparr>m_heap := (m_heap m)[m_maps m ! i := g]\<rparr>) =
    (values_of m)\<lparr>v_maps := (v_maps (values_of m))[i := g]\<rparr>"
proof -
  let ?a = "m_maps m ! i"
  have "?a \<in> set (m_maps m)" using i by simp
  from owned_map [OF assms(1) this]
  have "?a \<notin> sr_vec ` set (m_snaps m)" and "?a \<notin> id ` set (m_versions m)" and "?a \<notin> vr_vec ` set (m_clocks m)"
    and "distinct (List.map id (m_maps m))" and "?a < length (m_heap m)"
    by (simp_all add: frozen_addrs_def clock_addrs_def)
  then show ?thesis
    using map_write_unused [of ?a vr_vec "m_clocks m" "\<lambda>c w. \<lparr>vc_nodeID = vr_nodeID c, vc_vec = w\<rparr>" "m_heap m" g]
      map_write_unused [of ?a sr_vec "m_snaps m" "\<lambda>s w. \<lparr>sn_nodeID = sr_nodeID s, sn_vec = w\<rparr>" "m_heap m" g]
      map_write_unused [of ?a id "m_versions m" "\<lambda>_ w. \<lparr>dots = w\<rparr>" "m_heap m" g]
      map_write_used [of id "m_maps m" i "m_heap m" "\<lambda>_ w. w" g] i
    by (simp add: values_of_def clock_at_def [abs_def] snap_at_def [abs_def] version_at_def [abs_def] del: map_eq_conv)
qed

section \<open>The heap refines the values\<close>

text \<open>What each method does to a heap of well-formed maps.\<close>

lemma mem_makes:
  "mem_New n h = (h @ [[]], \<lparr>vr_nodeID = n, vr_vec = length h\<rparr>)"
  "mem_NewVersion h = (h @ [[]], length h)"
  by (simp_all add: mem_New_def mem_NewVersion_def h_make_def)

lemma mem_copies:
  assumes "a < length h" and "wf_map (h ! a)"
  shows "mem_NewFromMap n a h = (h @ [h ! a], \<lparr>vr_nodeID = n, vr_vec = length h\<rparr>)"
    and "mem_Dots a h = (h @ [h ! a], length h)"
    and "mem_Increment k a h = (h @ [mput k (cget (h ! a) k + 1) (h ! a)], length h)"
    and "b < length h \<Longrightarrow> mem_Merge a b h = (h @ [max_loop (h ! b) (h ! a)], length h)"
  using assms
  by (simp_all add: mem_NewFromMap_def mem_Dots_def mem_Increment_def mem_Merge_def h_copy_eq h_max_eq
      h_put_def nth_append list_update_append)

lemma mem_snapshots:
  "vr_vec c < length h \<Longrightarrow> wf_map (h ! vr_vec c) \<Longrightarrow>
    mem_snapshotLocked c h = (h @ [h ! vr_vec c], \<lparr>sr_nodeID = vr_nodeID c, sr_vec = length h\<rparr>)"
  "sr_vec s < length h \<Longrightarrow> wf_map (h ! sr_vec s) \<Longrightarrow>
    mem_Copy s h = (h @ [h ! sr_vec s], \<lparr>sr_nodeID = sr_nodeID s, sr_vec = length h\<rparr>)"
  by (simp_all add: mem_snapshotLocked_def mem_Copy_def h_copy_eq)

text \<open>\<open>Tick\<close>, \<open>Send\<close> and \<open>Receive\<close> write to the clock's map, then take a snapshot of it.\<close>

lemma mem_updates:
  "mem_Tick c h = mem_snapshotLocked c (h_put (vr_vec c) (vr_nodeID c) (cget (h ! vr_vec c) (vr_nodeID c) + 1) h)"
  "mem_Send c h = mem_snapshotLocked c (h_put (vr_vec c) (vr_nodeID c) (cget (h ! vr_vec c) (vr_nodeID c) + 1) h)"
  "vr_vec c < length h \<Longrightarrow> mem_Receive s c h = mem_snapshotLocked c
     (let vec = max_loop (h ! sr_vec s) (h ! vr_vec c)
      in h[vr_vec c := mput (vr_nodeID c) (cget vec (vr_nodeID c) + 1) vec])"
  by (simp_all add: mem_Tick_def mem_Send_def mem_Receive_def h_max_eq h_put_def Let_def)

lemma values_nth:
  "i < length (m_clocks m) \<Longrightarrow> v_clocks (values_of m) ! i = clock_at (m_heap m) (m_clocks m ! i)"
  "i < length (m_snaps m) \<Longrightarrow> v_snaps (values_of m) ! i = snap_at (m_heap m) (m_snaps m ! i)"
  "i < length (m_versions m) \<Longrightarrow> v_versions (values_of m) ! i = version_at (m_heap m) (m_versions m ! i)"
  "i < length (m_maps m) \<Longrightarrow> v_maps (values_of m) ! i = m_heap m ! (m_maps m ! i)"
  by (simp_all add: values_of_def)

lemma values_length:
  "length (v_clocks (values_of m)) = length (m_clocks m)"
  "length (v_snaps (values_of m)) = length (m_snaps m)"
  "length (v_versions (values_of m)) = length (m_versions m)"
  "length (v_maps (values_of m)) = length (m_maps m)"
  by (simp_all add: values_of_def)

lemma owned_nth:
  assumes "owned m"
  shows "i < length (m_clocks m) \<Longrightarrow> vr_vec (m_clocks m ! i) < length (m_heap m) \<and> wf_map (m_heap m ! vr_vec (m_clocks m ! i))"
    and "i < length (m_snaps m) \<Longrightarrow> sr_vec (m_snaps m ! i) < length (m_heap m) \<and> wf_map (m_heap m ! sr_vec (m_snaps m ! i))"
    and "i < length (m_versions m) \<Longrightarrow> m_versions m ! i < length (m_heap m) \<and> wf_map (m_heap m ! (m_versions m ! i))"
    and "i < length (m_maps m) \<Longrightarrow> m_maps m ! i < length (m_heap m) \<and> wf_map (m_heap m ! (m_maps m ! i))"
  using used_nth [of i m] owned_used [OF assms] owned_wf [OF assms] by blast+

text \<open>A clock method that writes \<open>g\<close> to the clock's map and returns a snapshot.\<close>

lemma clock_method:
  assumes m: "owned m" and i: "i < length (m_clocks m)" and g: "wf_map g"
  defines "c \<equiv> m_clocks m ! i"
  defines "m' \<equiv> new_snap (mem_snapshotLocked c ((m_heap m)[vr_vec c := g])) m"
  shows "values_of m' = clock_snap i
      (\<lparr>vc_nodeID = vr_nodeID c, vc_vec = g\<rparr>, \<lparr>sn_nodeID = vr_nodeID c, sn_vec = g\<rparr>) (values_of m) \<and> owned m'"
proof -
  let ?m = "m\<lparr>m_heap := (m_heap m)[vr_vec c := g]\<rparr>"
  have o: "owned ?m" by (rule owned_write [OF m g])
  have a: "vr_vec c < length (m_heap m)" using owned_nth(1) [OF m i] by (simp add: c_def)
  have "m' = new_snap (m_heap ?m @ [g], \<lparr>sr_nodeID = vr_nodeID c, sr_vec = length (m_heap ?m)\<rparr>) ?m"
    unfolding m'_def using a g by (simp add: mem_snapshots new_snap_def)
  then show ?thesis
    using values_new(2) [OF o] owned_new(2) [OF o g] values_clock_write [OF m i, of g]
    by (simp add: clock_snap_def c_def)
qed

lemma owned_more:
  assumes m: "owned m" and g: "wf_map g"
    and fr: "frozen_addrs m' \<subseteq> insert (length (m_heap m)) (frozen_addrs m)"
    and [simp]: "clock_addrs m' = clock_addrs m" "m_maps m' = m_maps m" "m_heap m' = m_heap m @ [g]"
  shows "owned m'"
proof -
  have "set (clock_addrs m @ m_maps m) \<inter> frozen_addrs m' = {}"
    using m fr unfolding owned_def by fastforce
  moreover have "\<forall>a \<in> set (clock_addrs m @ m_maps m) \<union> frozen_addrs m'. a < length (m_heap m')"
    using m fr unfolding owned_def by (fastforce simp: less_Suc_eq)
  ultimately show ?thesis using m g by (simp add: owned_def)
qed

text \<open>Decoding into a snapshot variable: the variable points to a fresh map.\<close>

lemma decode_step:
  assumes m: "owned m"
  shows "values_of (mem_step m (SDecode j n es)) = vals_step (values_of m) (SDecode j n es) \<and>
    owned (mem_step m (SDecode j n es))"
proof -
  let ?g = "copy_loop es []" and ?h = "m_heap m"
  let ?s = "\<lparr>sr_nodeID = n, sr_vec = length ?h\<rparr>"
  have g: "wf_map ?g"
    unfolding copy_loop_def by (rule range_loop_inv [where I = wf_map]) auto
  have step: "mem_step m (SDecode j n es) = m\<lparr>m_heap := ?h @ [?g], m_snaps := (m_snaps m)[j := ?s]\<rparr>"
    by (simp add: h_make_def h_put_loop nth_append)
  have "values_of (m\<lparr>m_heap := ?h @ [?g], m_snaps := (m_snaps m)[j := ?s]\<rparr>) =
      (values_of m)\<lparr>v_snaps := (v_snaps (values_of m))[j := \<lparr>sn_nodeID = n, sn_vec = ?g\<rparr>]\<rparr>"
    using values_append [OF m, of "[?g]"] by (simp add: values_of_def snap_at_def map_update del: map_eq_conv)
  moreover have "owned (m\<lparr>m_heap := ?h @ [?g], m_snaps := (m_snaps m)[j := ?s]\<rparr>)"
  proof -
    have "sr_vec ` set ((m_snaps m)[j := ?s]) \<subseteq> insert (length ?h) (sr_vec ` set (m_snaps m))"
      using set_update_subset_insert [of "m_snaps m" j ?s] by auto
    then show ?thesis
      by (intro owned_more [OF m g]) (auto simp: clock_addrs_def frozen_addrs_def)
  qed
  ultimately show ?thesis by (simp only: step vals_step.simps)
qed

lemma step_refines:
  assumes m: "owned m"
  shows "values_of (mem_step m op) = vals_step (values_of m) op \<and> owned (mem_step m op)"
proof (cases op)
  case (SDecode j n es)
  then show ?thesis using decode_step [OF m] by simp
next
  case (SAssign j)
  then show ?thesis
    using m by (auto simp: values_of_def owned_def clock_addrs_def frozen_addrs_def)
next
  case (MPut i k v)
  then show ?thesis
    using m owned_nth(4) [OF m] values_map_write [OF m] owned_write [OF m]
    by (simp add: values_length values_nth h_put_def)
next
  case (CTick i)
  let ?g = "let c = m_clocks m ! i in mput (vr_nodeID c) (cget (m_heap m ! vr_vec c) (vr_nodeID c) + 1) (m_heap m ! vr_vec c)"
  show ?thesis
    using clock_method [OF m, of i ?g] owned_nth(1) [OF m, of i] m
    by (simp add: CTick values_length values_nth mem_updates h_put_def vector_Tick_def snapshotLocked_def clock_at_def Let_def)
next
  case (CSend i)
  let ?g = "let c = m_clocks m ! i in mput (vr_nodeID c) (cget (m_heap m ! vr_vec c) (vr_nodeID c) + 1) (m_heap m ! vr_vec c)"
  show ?thesis
    using clock_method [OF m, of i ?g] owned_nth(1) [OF m, of i] m
    by (simp add: CSend values_length values_nth mem_updates h_put_def vector_Send_def snapshotLocked_def clock_at_def Let_def)
next
  case (CReceive i j)
  let ?g = "let c = m_clocks m ! i; vec = max_loop (m_heap m ! sr_vec (m_snaps m ! j)) (m_heap m ! vr_vec c)
    in mput (vr_nodeID c) (cget vec (vr_nodeID c) + 1) vec"
  show ?thesis
    using clock_method [OF m, of i ?g] owned_nth(1) [OF m, of i] m
    by (simp add: CReceive values_length values_nth mem_updates h_put_def vector_Receive_def snapshotLocked_def
        clock_at_def snap_at_def Let_def max_loop_def [symmetric])
qed (use m owned_nth [OF m] values_new [OF m] owned_new [OF m] in
    \<open>simp_all add: values_length values_nth mem_makes mem_copies mem_snapshots mem_Now_def vector_New_def vector_NewFromMap_def
      vector_Now_def snapshotLocked_def snapshot_Copy_def dotted_NewVersion_def dotted_Increment_def
      dotted_Merge_def dotted_Dots_def clock_at_def snap_at_def version_at_def h_make_def Let_def
      max_loop_def [symmetric]\<close>)

lemma mem_start_facts [simp]: "values_of mem_start = vals_start" "owned mem_start"
  by (simp_all add: values_of_def mem_start_def vals_start_def owned_def clock_addrs_def frozen_addrs_def)

lemma run_refines: "values_of (mem_run ops) = vals_run ops \<and> owned (mem_run ops)"
proof (induction ops rule: rev_induct)
  case Nil
  then show ?case by (simp add: mem_run_def vals_run_def)
next
  case (snoc op ops)
  then show ?case using step_refines [of "mem_run ops" op] by (simp add: mem_run_def vals_run_def)
qed

lemma mem_run_append: "mem_run (ops @ later) = foldl mem_step (mem_run ops) later"
  by (simp add: mem_run_def)

lemma vals_run_append: "vals_run (ops @ later) = foldl vals_step (vals_run ops) later"
  by (simp add: vals_run_def)

text \<open>On values nothing but a decode changes a snapshot, and nothing at all a version.\<close>

lemma vals_step_snap:
  "i < length (v_snaps w) \<Longrightarrow> (\<And>n es. op \<noteq> SDecode i n es) \<Longrightarrow>
    i < length (v_snaps (vals_step w op)) \<and> v_snaps (vals_step w op) ! i = v_snaps w ! i"
proof (cases op)
  case (SDecode j n es)
  assume i: "i < length (v_snaps w)" and "\<And>n es. op \<noteq> SDecode i n es"
  then have "j \<noteq> i" using SDecode by blast
  then show ?thesis using i by (simp add: SDecode)
qed (auto simp: clock_snap_def nth_append)

lemma vals_step_version:
  "i < length (v_versions w) \<Longrightarrow>
    i < length (v_versions (vals_step w op)) \<and> v_versions (vals_step w op) ! i = v_versions w ! i"
  by (cases op) (auto simp: clock_snap_def nth_append)

lemma vals_run_snap:
  "i < length (v_snaps w) \<Longrightarrow> (\<And>n es. SDecode i n es \<notin> set later) \<Longrightarrow>
    i < length (v_snaps (foldl vals_step w later)) \<and> v_snaps (foldl vals_step w later) ! i = v_snaps w ! i"
proof (induction later arbitrary: w)
  case Nil
  then show ?case by simp
next
  case (Cons op later)
  have "op \<noteq> SDecode i n es" for n es using Cons.prems(2) [of n es] by auto
  from vals_step_snap [OF Cons.prems(1) this] Cons.IH [of "vals_step w op"] Cons.prems(2)
  show ?case by simp
qed

lemma vals_run_version:
  "i < length (v_versions w) \<Longrightarrow>
    i < length (v_versions (foldl vals_step w later)) \<and>
    v_versions (foldl vals_step w later) ! i = v_versions w ! i"
proof (induction later arbitrary: w)
  case Nil
  then show ?case by simp
next
  case (Cons op later)
  from vals_step_version [OF Cons.prems, of op] Cons.IH [of "vals_step w op"] show ?case by simp
qed

section \<open>Properties\<close>

text \<open>
  C8. Value semantics. In every program that creates clocks and versions, calls their methods in any
  order, assigns and decodes snapshots and writes to maps of its own (those passed to
  \<^verbatim>\<open>NewFromMap\<close> and those returned by \<^verbatim>\<open>Dots\<close> included), every clock, snapshot, version and map
  on the heap of shared maps has, at each point, the contents it has when the methods are functions on
  values: no write is seen through another reference.
\<close>

theorem api_refines_values: "values_of (mem_run ops) = vals_run ops"
  by (simp add: run_refines)

text \<open>
  C40. Ownership. In every such program all references are valid and lead to proper maps, the map of a clock
  is referenced by that clock alone, and a map of the client by the client alone: clocks and client
  never share a map with each other or with a snapshot or version.
\<close>

theorem api_ownership: "owned (mem_run ops)"
  by (simp add: run_refines)

text \<open>
  Immutable snapshots and versions. Once a snapshot has been returned, it keeps its node and its counters
  whatever the program does next, unless the program decodes into that very variable; a version keeps its
  dots for ever.
\<close>

lemma snapshots_and_versions_immutable:
  assumes "i < length (m_snaps (mem_run ops))" and "\<And>n es. SDecode i n es \<notin> set later"
    and "j < length (m_versions (mem_run ops))"
  shows "let m = mem_run ops; m' = mem_run (ops @ later)
    in snap_at (m_heap m') (m_snaps m' ! i) = snap_at (m_heap m) (m_snaps m ! i) \<and>
       version_at (m_heap m') (m_versions m' ! j) = version_at (m_heap m) (m_versions m ! j)"
proof -
  have "foldl vals_step (values_of (mem_run ops)) later = values_of (mem_run (ops @ later))"
    by (simp add: run_refines vals_run_append)
  then show ?thesis
    using vals_run_snap [of i "values_of (mem_run ops)" later]
      vals_run_version [of j "values_of (mem_run ops)" later] assms
    by (auto simp: Let_def values_length values_nth)
qed

end
