(* ===== verification/Benchmarks.thy ===== *)
theory Benchmarks
  imports Lamport Hlc_Encode Vector_Encode Ntp_Truetime Decimal
begin

text \<open>
  The bodies of \<^verbatim>\<open>benchmarks/bench_test.go\<close>: each measures a loop of \<^verbatim>\<open>b.N\<close> calls on a clock it prepares. The
  running time is not modelled. What is shown is that the loops measure the work that they mean to: every call
  succeeds, the counters advance by one per call, the decoder restores the snapshot.
\<close>

section \<open>The loop\<close>

text \<open>\<^verbatim>\<open>for i := 0; i < b.N; i++ { sink = call(i) }\<close>, from index \<open>i\<close> on.\<close>

fun bench_loop :: "(nat \<Rightarrow> 's \<Rightarrow> 's \<times> 'v) \<Rightarrow> nat \<Rightarrow> nat \<Rightarrow> 's \<Rightarrow> 'v \<Rightarrow> 's \<times> 'v" where
  "bench_loop call 0 i s sink = (s, sink)"
| "bench_loop call (Suc n) i s sink = (let (s, v) = call i s in bench_loop call n (i + 1) s v)"

text \<open>What each call keeps holds after the loop.\<close>

lemma bench_loop_inv:
  assumes "bench_loop call n i s sink = (s', v')" "I i s sink"
    and "\<And>j s v t w. i \<le> j \<Longrightarrow> j < i + n \<Longrightarrow> I j s v \<Longrightarrow> call j s = (t, w) \<Longrightarrow> I (Suc j) t w"
  shows "I (i + n) s' v'"
  using assms
proof (induction n arbitrary: i s sink)
  case (Suc n)
  obtain t w where c: "call i s = (t, w)" by fastforce
  have "I (Suc i) t w" using Suc.prems(3) [OF _ _ Suc.prems(2) c] by simp
  moreover have "I (Suc j) t w" if "Suc i \<le> j" "j < Suc i + n" "I j s v" "call j s = (t, w)" for j s v t w
    using that Suc.prems(3) by simp
  ultimately have "I (Suc i + n) s' v'" using Suc.IH [of "Suc i" t w] Suc.prems(1) c by simp
  then show ?case by simp
qed simp

text \<open>After at least one call the value is a call's, not the initial one.\<close>

lemma bench_loop_last:
  assumes "bench_loop call n 0 s sink = (s', v')" "I 0 s"
    and "\<And>j s t w. j < n \<Longrightarrow> I j s \<Longrightarrow> call j s = (t, w) \<Longrightarrow> I (Suc j) t \<and> P (Suc j) t w"
  shows "I n s' \<and> (n = 0 \<or> P n s' v')"
  using bench_loop_inv [OF assms(1), where I = "\<lambda>j s v. I j s \<and> (j = 0 \<or> P j s v)"] assms(2,3) by auto

section \<open>The prepared maps\<close>

definition nodesMap :: "string \<Rightarrow> nat \<Rightarrow> u64 \<Rightarrow> counters" where
  "nodesMap prefix n baseValue =
     foldl (\<lambda>out i. mput (prefix @ fmt_int (int i)) (baseValue + of_nat i) out) [] [0..<n]"

lemma nodesMap_Suc:
  "nodesMap p (Suc n) b = mput (p @ fmt_int (int n)) (b + of_nat n) (nodesMap p n b)"
  by (simp add: nodesMap_def)

lemma fmt_int_nat_inject [simp]: "fmt_int (int i) = fmt_int (int j) \<longleftrightarrow> i = j"
  by (simp add: fmt_int_def)

lemma nodesMap_wf [simp]: "wf_map (nodesMap p n b)"
  by (induction n) (simp_all add: nodesMap_Suc, simp add: nodesMap_def)

lemma nodesMap_entry: "i < n \<Longrightarrow> cget (nodesMap p n b) (p @ fmt_int (int i)) = b + of_nat i"
  by (induction n) (auto simp: nodesMap_Suc less_Suc_eq)

lemma nodesMap_keys: "set (keys (nodesMap p n b)) = (\<lambda>i. p @ fmt_int (int i)) ` {..<n}"
  by (induction n) (simp_all add: nodesMap_Suc keys_mput lessThan_Suc, simp add: nodesMap_def keys_def)

lemma nodesMap_length: "length (nodesMap p n b) = n"
proof -
  have "card (set (keys (nodesMap p n b))) = n"
    unfolding nodesMap_keys by (subst card_image) (auto simp: inj_on_def)
  then show ?thesis using nodesMap_wf [of p n b] by (simp add: wf_map_def distinct_card) (simp add: keys_def)
qed

section \<open>Wall clock and Lamport clocks\<close>

text \<open>\<open>now i\<close> is what \<^verbatim>\<open>time.Now()\<close> returns in call \<open>i\<close>.\<close>

definition BenchmarkWallclockReal :: "(nat \<Rightarrow> gotime) \<Rightarrow> nat \<Rightarrow> i64" where
  "BenchmarkWallclockReal now n = snd (bench_loop (\<lambda>i s. (s, real_NowNanos (now i))) n 0 () 0)"

definition BenchmarkLamportTick :: "nat \<Rightarrow> u64" where
  "BenchmarkLamportTick n = snd (bench_loop (\<lambda>i c. lamport_Tick c) n 0 lamport_New 0)"

definition BenchmarkLamportSend :: "nat \<Rightarrow> u64" where
  "BenchmarkLamportSend n = snd (bench_loop (\<lambda>i c. lamport_Send c) n 0 lamport_New 0)"

definition BenchmarkLamportReceive :: "nat \<Rightarrow> u64" where
  "BenchmarkLamportReceive n = snd (bench_loop (\<lambda>i c. lamport_Receive (of_nat i) c) n 0 lamport_New 0)"

text \<open>Each of the three measures \<open>n\<close> increments: the message of call \<open>i\<close> is never ahead of the clock.\<close>

lemma bench_lamport:
  "BenchmarkLamportTick n = of_nat n" "BenchmarkLamportSend n = of_nat n" "BenchmarkLamportReceive n = of_nat n"
proof -
  have counts: "snd (bench_loop call n 0 lamport_New 0) = of_nat n"
    if "\<And>j. call j \<lparr>counter = of_nat j\<rparr> = (\<lparr>counter = of_nat (Suc j)\<rparr>, of_nat (Suc j))"
    for call :: "nat \<Rightarrow> lamport \<Rightarrow> lamport \<times> u64"
  proof -
    obtain c v where r: "bench_loop call n 0 lamport_New (0 :: u64) = (c, v)" by fastforce
    have "c = \<lparr>counter = of_nat (0 + n)\<rparr> \<and> v = of_nat (0 + n)"
      using bench_loop_inv [OF r, where I = "\<lambda>j c v. c = \<lparr>counter = of_nat j\<rparr> \<and> v = of_nat j"] that
      by (auto simp: lamport_New_def)
    then show ?thesis using r by simp
  qed
  show "BenchmarkLamportTick n = of_nat n" "BenchmarkLamportSend n = of_nat n" "BenchmarkLamportReceive n = of_nat n"
    unfolding BenchmarkLamportTick_def BenchmarkLamportSend_def BenchmarkLamportReceive_def
    by (rule counts; simp add: lamport_defs add.commute Let_def)+
qed

section \<open>Vector clocks\<close>

definition BenchmarkVectorTick3Nodes :: "nat \<Rightarrow> snapshot" where
  "BenchmarkVectorTick3Nodes n =
     snd (bench_loop (\<lambda>i c. vector_Tick c) n 0 (vector_NewFromMap ''n0'' (nodesMap ''n'' 3 1))
       \<lparr>sn_nodeID = [], sn_vec = []\<rparr>)"

definition BenchmarkVectorReceive10Nodes :: "nat \<Rightarrow> snapshot" where
  "BenchmarkVectorReceive10Nodes n =
     (let local = vector_NewFromMap ''n0'' (nodesMap ''n'' 10 1);
          remote = vector_Now (vector_NewFromMap ''n0'' (nodesMap ''n'' 10 100))
      in snd (bench_loop (\<lambda>i c. vector_Receive remote c) n 0 local \<lparr>sn_nodeID = [], sn_vec = []\<rparr>))"

definition BenchmarkVectorCompare10Nodes :: "nat \<Rightarrow> relation" where
  "BenchmarkVectorCompare10Nodes n =
     (let a = vector_Now (vector_NewFromMap ''n0'' (nodesMap ''n'' 10 1));
          other = vector_Now (vector_NewFromMap ''n0'' (nodesMap ''n'' 10 1))
      in snd (bench_loop (\<lambda>i s. (s, vector_Compare a other)) n 0 () Before))"

definition BenchmarkVectorMarshal10Nodes :: "nat \<Rightarrow> marshal_error + byte list" where
  "BenchmarkVectorMarshal10Nodes n =
     (let snap = vector_Now (vector_NewFromMap ''n0'' (nodesMap ''n'' 10 1))
      in snd (bench_loop (\<lambda>i s. (s, vector_MarshalBinary snap)) n 0 () (Inr [])))"

text \<open>A failing \<^verbatim>\<open>MarshalBinary\<close>, whose error the benchmark drops, would leave \<^verbatim>\<open>data\<close> nil.\<close>

definition BenchmarkVectorUnmarshal10Nodes :: "nat \<Rightarrow> snapshot \<times> vector_decode_error option" where
  "BenchmarkVectorUnmarshal10Nodes n =
     (let snap = vector_Now (vector_NewFromMap ''n0'' (nodesMap ''n'' 10 1));
          data = (case vector_MarshalBinary snap of Inl _ \<Rightarrow> [] | Inr bs \<Rightarrow> bs)
      in bench_loop (\<lambda>i out. vector_UnmarshalBinary data out) n 0 \<lparr>sn_nodeID = [], sn_vec = []\<rparr> None)"

lemma n0: "''n0'' = ''n'' @ fmt_int (int 0)"
  by (simp add: fmt_int_def decimal.simps digit_def char_of_def bit_0)

text \<open>Only the own entry moves, by one per call.\<close>

lemma bench_vector_Tick:
  assumes "0 < n"
  shows "snapshot_Get (BenchmarkVectorTick3Nodes n) k =
    (if k = ''n0'' then 1 + of_nat n else cget (nodesMap ''n'' 3 1) k)"
proof -
  let ?m = "nodesMap ''n'' 3 1"
  obtain c v where r: "bench_loop (\<lambda>i c. vector_Tick c) n 0 (vector_NewFromMap ''n0'' ?m)
      \<lparr>sn_nodeID = [], sn_vec = []\<rparr> = (c, v)" by fastforce
  let ?I = "\<lambda>j c. wf_clock c \<and> vc_nodeID c = ''n0'' \<and>
    cget (vc_vec c) k = (if k = ''n0'' then 1 + of_nat j else cget ?m k)"
  have "cget ?m ''n0'' = 1" unfolding n0 by (simp only: nodesMap_entry) simp
  then have "?I 0 (vector_NewFromMap ''n0'' ?m)" by (simp add: vector_NewFromMap_def wf_clock_def)
  moreover have "?I (Suc j) t \<and> w = vector_Now t" if "?I j c" "vector_Tick c = (t, w)" for j c t w
    using that vector_Tick_props [of c t w] by auto
  ultimately have "?I n c \<and> (n = 0 \<or> v = vector_Now c)" by (intro bench_loop_last [OF r]) blast+
  then show ?thesis
    using assms r by (simp add: BenchmarkVectorTick3Nodes_def snapshot_Get_def vector_Now_def)
qed

text \<open>The first call takes over all ten entries of the message; after that only the own entry moves.\<close>

lemma bench_vector_Receive:
  assumes "0 < n" "n < 2 ^ 63"
  shows "snapshot_Get (BenchmarkVectorReceive10Nodes n) k =
    (if k = ''n0'' then 100 + of_nat n else cget (nodesMap ''n'' 10 100) k)"
proof -
  let ?a = "nodesMap ''n'' 10 1" and ?b = "nodesMap ''n'' 10 100"
  let ?remote = "vector_Now (vector_NewFromMap ''n0'' ?b)"
  obtain c v where r: "bench_loop (\<lambda>i c. vector_Receive ?remote c) n 0 (vector_NewFromMap ''n0'' ?a)
      \<lparr>sn_nodeID = [], sn_vec = []\<rparr> = (c, v)" by fastforce
  let ?I = "\<lambda>j c. wf_clock c \<and> vc_nodeID c = ''n0'' \<and>
    (if j = 0 then cget (vc_vec c) k \<le> cget ?b k
     else cget (vc_vec c) k = (if k = ''n0'' then 100 + of_nat j else cget ?b k))"
  have rem: "sn_vec ?remote = ?b" "wf_snapshot ?remote"
    by (simp_all add: vector_Now_def vector_NewFromMap_def snapshotLocked_def wf_snapshot_def)
  have b0: "cget ?b ''n0'' = 100" unfolding n0 by (simp only: nodesMap_entry) simp
  have le: "cget ?a k \<le> cget ?b k"
  proof (cases "mhas ?a k")
    case True
    then obtain i where "i < 10" "k = ''n'' @ fmt_int (int i)" by (auto simp: mhas_iff nodesMap_keys)
    then show ?thesis by (simp only: nodesMap_entry) (simp add: word_le_nat_alt unat_word_ariths unat_of_nat)
  qed (simp add: mget_absent)
  then have "?I 0 (vector_NewFromMap ''n0'' ?a)" by (simp add: vector_NewFromMap_def wf_clock_def)
  moreover have "?I (Suc j) t \<and> w = vector_Now t" if "j < n" "?I j c" "vector_Receive ?remote c = (t, w)" for j c t w
  proof -
    have wf: "wf_clock c" "vc_nodeID c = ''n0''" using that(2) by simp_all
    note p = vector_Receive_props [OF that(3) wf(1) rem(2)]
    have "max (100 + of_nat j) 100 = (100 + of_nat j :: u64)"
      using that(1) assms(2) by (simp add: max_def word_le_nat_alt unat_word_ariths unat_of_nat)
    then show ?thesis
      using p that(2) wf b0 by (cases "j = 0"; cases "k = ''n0''") (auto simp: rem max_def ac_simps)
  qed
  ultimately have "?I n c \<and> (n = 0 \<or> v = vector_Now c)" by (intro bench_loop_last [OF r]) blast+
  then show ?thesis
    using assms r by (simp add: BenchmarkVectorReceive10Nodes_def snapshot_Get_def vector_Now_def)
qed

text \<open>The compared snapshots are equal, and the encoder and the decoder run without an error.\<close>

lemma bench_snapshot:
  "sn_vec (vector_Now (vector_NewFromMap p (nodesMap q n b))) = nodesMap q n b"
  "wf_snapshot (vector_Now (vector_NewFromMap p (nodesMap q n b)))"
  by (simp_all add: vector_Now_def vector_NewFromMap_def snapshotLocked_def wf_snapshot_def)

lemma bench_const: "snd (bench_loop (\<lambda>i s. ((), x)) n i () v) = (if n = 0 then v else x)"
  by (induction n arbitrary: i v) auto

lemma bench_vector_Compare: "0 < n \<Longrightarrow> BenchmarkVectorCompare10Nodes n = Equal"
  using vector_Compare_flip(2) [of "vector_Now (vector_NewFromMap ''n0'' (nodesMap ''n'' 10 1))"]
  by (simp add: BenchmarkVectorCompare10Nodes_def bench_const bench_snapshot Let_def)

lemma bench_names_short: "i < 10 \<Longrightarrow> length (''n'' @ fmt_int (int i)) = 2"
  by (simp add: fmt_int_def decimal.simps [of i])

lemma bench_marshal_ok:
  "\<exists>bs. vector_MarshalBinary (vector_Now (vector_NewFromMap ''n0'' (nodesMap ''n'' 10 1))) = Inr bs"
proof -
  let ?s = "vector_Now (vector_NewFromMap ''n0'' (nodesMap ''n'' 10 1))"
  have "length j = 2" if "j \<in> set (keys (sn_vec ?s))" for j
    using that bench_names_short by (auto simp: bench_snapshot nodesMap_keys)
  then have "{j \<in> set (keys (sn_vec ?s)). length j > 0xFFFF} = {}" by auto
  moreover have "length (sn_vec ?s) \<le> 0xFFFF" by (simp add: bench_snapshot nodesMap_length)
  ultimately show ?thesis using vector_Marshal_total [of ?s] by blast
qed

lemma bench_vector_Marshal: "\<exists>bs. BenchmarkVectorMarshal10Nodes n = Inr bs"
  using bench_marshal_ok by (auto simp: BenchmarkVectorMarshal10Nodes_def bench_const Let_def)

lemma bench_vector_Unmarshal:
  assumes "0 < n"
  shows "case BenchmarkVectorUnmarshal10Nodes n of (out, err) \<Rightarrow>
    err = None \<and> same_map (sn_vec out) (nodesMap ''n'' 10 1)"
proof -
  let ?s = "vector_Now (vector_NewFromMap ''n0'' (nodesMap ''n'' 10 1))"
  obtain bs where bs: "vector_MarshalBinary ?s = Inr bs" using bench_marshal_ok by blast
  obtain out err where r: "bench_loop (\<lambda>i out. vector_UnmarshalBinary bs out) n 0 \<lparr>sn_nodeID = [], sn_vec = []\<rparr> None = (out, err)"
    by fastforce
  have u: "vector_UnmarshalBinary bs t = (t\<lparr>sn_nodeID := '''', sn_vec := sorted_entries (sn_vec ?s)\<rparr>, None)" for t
    using MarshalBinary_ok [OF bs] UnmarshalBinary_sorted [of "sn_vec ?s" t] by (simp add: bench_snapshot)
  have "True \<and> (n = 0 \<or> err = None \<and> same_map (sn_vec out) (nodesMap ''n'' 10 1))"
    by (rule bench_loop_last [OF r, where I = "\<lambda>_ _. True"])
       (auto simp: u bench_snapshot sorted_entries_same)
  then show ?thesis using assms r bs by (simp add: BenchmarkVectorUnmarshal10Nodes_def Let_def)
qed

section \<open>Hybrid clocks\<close>

definition BenchmarkHLCNow :: "(nat \<Rightarrow> gotime) \<Rightarrow> nat \<Rightarrow> hlc_clock \<times> timestamp" where
  "BenchmarkHLCNow now n = bench_loop (\<lambda>i c. hlc_Now (real_NowNanos (now i)) c) n 0 hlc_New (Timestamp 0 0)"

definition BenchmarkHLCSend :: "(nat \<Rightarrow> gotime) \<Rightarrow> nat \<Rightarrow> hlc_clock \<times> timestamp" where
  "BenchmarkHLCSend now n = bench_loop (\<lambda>i c. hlc_Send (real_NowNanos (now i)) c) n 0 hlc_New (Timestamp 0 0)"

text \<open>The first reading is for the message.\<close>

definition BenchmarkHLCReceive ::
  "gotime \<Rightarrow> (nat \<Rightarrow> gotime) \<Rightarrow> nat \<Rightarrow> timestamp \<times> hlc_clock \<times> (hlc_error + timestamp)" where
  "BenchmarkHLCReceive first now n =
     (let (c, remote) = hlc_Now (real_NowNanos first) hlc_New
      in (remote, bench_loop (\<lambda>i c. hlc_Receive (real_NowNanos (now i)) remote c) n 0 c (Inr (Timestamp 0 0))))"

definition BenchmarkHLCMarshalBinary :: "nat \<Rightarrow> byte list option" where
  "BenchmarkHLCMarshalBinary n =
     (let ts = Timestamp 1700000000000000000 42
      in snd (bench_loop (\<lambda>i s. (s, hlc_MarshalBinary ts)) n 0 () (Some [])))"

text \<open>Whatever the system clock answers, the stamps advance, and \<^verbatim>\<open>Receive\<close> never takes the error path.\<close>

lemma bench_hlc_Now:
  assumes "0 < n" "n < 2 ^ 32"
  shows "case BenchmarkHLCNow now n of (c, t) \<Rightarrow> hlc_Current c = t \<and> ts_Less (Timestamp 0 0) t"
    and "BenchmarkHLCSend now n = BenchmarkHLCNow now n"
proof -
  obtain c t where r: "bench_loop (\<lambda>i c. hlc_Now (real_NowNanos (now i)) c) n 0 hlc_New (Timestamp 0 0) = (c, t)"
    by fastforce
  let ?I = "\<lambda>j c. unat (Logical (hlc_Current c)) \<le> j \<and> (hlc_Current c = Timestamp 0 0 \<or> ts_Less (Timestamp 0 0) (hlc_Current c))"
  have "?I 0 hlc_New" by (simp add: hlc_New_def hlc_Current_def)
  moreover have "?I (Suc j) c' \<and> hlc_Current c' = s \<and> ts_Less (Timestamp 0 0) s"
    if "j < n" "?I j c" "hlc_Now (real_NowNanos (now j)) c = (c', s)" for j c c' s
  proof -
    have "unat (Logical (hlc_Current c)) < logical_limit" using that(1,2) assms(2) by simp
    note p = hlc_Now_props [OF that(3) this]
    then have "ts_Less (Timestamp 0 0) s" using that(2) ts_Less_trans by metis
    then show ?thesis using p that(2) by simp
  qed
  ultimately have "?I n c \<and> (n = 0 \<or> hlc_Current c = t \<and> ts_Less (Timestamp 0 0) t)"
    by (intro bench_loop_last [OF r, where P = "\<lambda>j c t. hlc_Current c = t \<and> ts_Less (Timestamp 0 0) t"]) blast+
  then show "case BenchmarkHLCNow now n of (c, t) \<Rightarrow> hlc_Current c = t \<and> ts_Less (Timestamp 0 0) t"
    using assms(1) r by (simp add: BenchmarkHLCNow_def)
  show "BenchmarkHLCSend now n = BenchmarkHLCNow now n"
    by (simp add: BenchmarkHLCSend_def BenchmarkHLCNow_def hlc_Send_Now)
qed

lemma bench_hlc_Receive:
  "case BenchmarkHLCReceive first now n of (remote, c, v) \<Rightarrow> \<exists>t. v = Inr t"
proof -
  obtain c0 remote where m: "hlc_Now (real_NowNanos first) hlc_New = (c0, remote)" by fastforce
  obtain c v where r: "bench_loop (\<lambda>i c. hlc_Receive (real_NowNanos (now i)) remote c) n 0 c0 (Inr (Timestamp 0 0)) = (c, v)"
    by fastforce
  have "hlc_maxDrift c0 = 0" using m by (auto simp: hlc_defs)
  then have "hlc_maxDrift c = 0 \<and> (\<exists>t. v = Inr t)"
    by (intro bench_loop_inv [OF r, where I = "\<lambda>j c v. hlc_maxDrift c = 0 \<and> (\<exists>t. v = Inr t)"])
      (auto simp: hlc_Receive_def Let_def)
  then show ?thesis using m r by (simp add: BenchmarkHLCReceive_def)
qed

lemma bench_hlc_Marshal: "0 < n \<Longrightarrow> \<exists>bs. BenchmarkHLCMarshalBinary n = Some bs \<and> length bs = 12"
  by (simp add: BenchmarkHLCMarshalBinary_def bench_const hlc_MarshalBinary_bytes)

section \<open>The TrueTime clock\<close>

definition BenchmarkTrueTimeNowFake :: "(nat \<Rightarrow> gotime) \<Rightarrow> nat \<Rightarrow> interval" where
  "BenchmarkTrueTimeNowFake now n =
     (let base = time_Unix 1700000000 0;
          src = NewFakeSource \<lparr>Earliest = base, Latest = time_Add base (7 * Millisecond)\<rparr>;
          c = truetime_New (Fake_Source src)
      in snd (bench_loop (\<lambda>i s. (s, clock_Now (now i) c)) n 0 () \<lparr>Earliest = zero_time, Latest = zero_time\<rparr>))"

lemma bench_truetime:
  assumes "0 < n"
  shows "interval_Width (BenchmarkTrueTimeNowFake now n) = 7 * Millisecond"
proof -
  have "clock_Now (now i) (truetime_New (Fake_Source f)) = fs_interval f" for i f
    by (simp add: clock_Now_def truetime_New_def fake_source_Now_def)
  then show ?thesis
    using assms
    by (simp add: BenchmarkTrueTimeNowFake_def bench_const NewFakeSource_def interval_Width_def time_Unix_def
        time_Add_def time_Sub_def saturate_def Millisecond_def Let_def)
qed

end
