(* ===== verification/Unit_Tests.thy ===== *)
theory Unit_Tests
  imports Benchmarks Dotted Stamps Hlc_Json Vector_Json Scenarios
begin

text \<open>
  The unit tests that stand beside the packages, as statements about the model: each lemma is named after the test
  and says that what the test requires holds. They check the model against what the authors expect of the
  code. Tests that start goroutines are in \<open>Concurrent_Tests\<close>, for every schedule, the other packages in
  \<open>Package_Tests\<close>; that a caller's map is not shared (\<^verbatim>\<open>TestNewFromMapCopiesInput\<close>) is in \<open>Sharing\<close>.
\<close>

section \<open>\<^verbatim>\<open>lamport/clock_test.go\<close>\<close>

lemma lamport_TestNew: "lamport_Now lamport_New = 0" "lamport_Now (lamport_NewAt 85) = 85"
  "snd (lamport_Tick (lamport_NewAt 85)) = 86"
  by (simp_all add: lamport_defs Let_def)

text \<open>The values of a sequence of operations on one clock.\<close>

fun lamport_values :: "(lamport \<Rightarrow> lamport \<times> u64) list \<Rightarrow> lamport \<Rightarrow> u64 list" where
  "lamport_values [] c = []"
| "lamport_values (call # calls) c = (let (c, v) = call c in v # lamport_values calls c)"

lemma lamport_TestTickIncrements: "lamport_values [lamport_Tick, lamport_Tick, lamport_Tick] lamport_New = [1, 2, 3]"
  and lamport_TestSendIncrements: "lamport_values [lamport_Send, lamport_Send] lamport_New = [1, 2]"
  by (simp_all add: lamport_defs Let_def)

lemma lamport_TestReceive:
  "snd (lamport_Receive 10 lamport_New) = 11" "lamport_Now (fst (lamport_Receive 10 lamport_New)) = 11"
  "snd (lamport_Receive 5 (lamport_NewAt 100)) = 101" "snd (lamport_Receive 7 (lamport_NewAt 7)) = 8"
  by (simp_all add: lamport_defs Let_def max_def)

lemma lamport_TestResetOverwrites:
  "let c = lamport_Reset 0 (lamport_NewAt 100) in lamport_Now c = 0 \<and> lamport_Now (lamport_Reset 999 c) = 999"
  by (simp add: lamport_defs Let_def)

lemma lamport_TestCausalChainAcrossThreeClocks:
  "(let p1 = lamport_New; p2 = lamport_New; p3 = lamport_New;
        (p1, t1) = lamport_Tick p1; (p1, t2) = lamport_Tick p1; (p1, m1) = lamport_Send p1;
        (p2, r1) = lamport_Receive m1 p2; (p2, m2) = lamport_Send p2;
        (p3, r2) = lamport_Receive m2 p3; (p3, m3) = lamport_Send p3; (p1, r3) = lamport_Receive m3 p1
    in [t1, t2, m1, r1, m2, r2, m3, r3]) = [1, 2, 3, 4, 5, 6, 7, 8]"
  by (simp add: lamport_defs Let_def max_def)

section \<open>\<^verbatim>\<open>hlc/clock_test.go\<close>\<close>

text \<open>\<^verbatim>\<open>newFake\<close> returns the clock with the fake wall clock behind it.\<close>

definition newFake :: "i64 \<Rightarrow> hlc_clock \<times> fake" where
  "newFake wallSec = (hlc_New, NewFake (time_Unix wallSec 0))"

definition hlc_Nows :: "i64 list \<Rightarrow> hlc_clock \<Rightarrow> timestamp list" where
  "hlc_Nows pts c = snd (foldl (\<lambda>(c, ts) pt. case hlc_Now pt c of (c, t) \<Rightarrow> (c, ts @ [t])) (c, []) pts)"

lemmas hlc_test_defs = newFake_def hlc_Nows_def hlc_defs fake_defs time_Unix_def time_Add_def time_UnixNano_def
  Millisecond_def Microsecond_def smax_def word_sless_alt max_def

lemma hlc_TestNowAdoptsWallTimeOnFirstCall:
  "let (c, f) = newFake 1000; ts = snd (hlc_Now (fake_NowNanos f) c) in WallTime ts = fake_NowNanos f \<and> Logical ts = 0"
  by (simp add: hlc_test_defs Let_def)

text \<open>\<^verbatim>\<open>TestNowIsMonotonicAcrossManyCalls\<close>: 100 readings that advance, stand still and go back.\<close>

definition wandering :: "nat \<Rightarrow> fake \<Rightarrow> fake" where
  "wandering i f =
     (if i mod 3 = 0 then fake_Advance Millisecond f
      else if i mod 3 = 2 then fake_Reverse (100 * Microsecond) f else f)"

definition wander_step :: "hlc_clock \<times> fake \<times> timestamp \<times> bool \<Rightarrow> nat \<Rightarrow> hlc_clock \<times> fake \<times> timestamp \<times> bool" where
  "wander_step = (\<lambda>(c, f, prev, ok) i.
     let f = wandering i f; (c, cur) = hlc_Now (fake_NowNanos f) c in (c, f, cur, ok \<and> ts_Less prev cur))"

lemma hlc_TestNowIsMonotonicAcrossManyCalls:
  "let (c, f) = newFake 1000; (c, prev) = hlc_Now (fake_NowNanos f) c
   in case foldl wander_step (c, f, prev, True) [0..<100] of (c, f, prev, ok) \<Rightarrow> ok"
proof -
  obtain c prev where s: "hlc_Now (fake_NowNanos (NewFake (time_Unix 1000 0))) hlc_New = (c, prev)" by fastforce
  let ?f = "NewFake (time_Unix 1000 0)"
  have "case foldl wander_step (c, ?f, prev, True) [0..<n] of (c, f, prev, ok) \<Rightarrow>
      ok \<and> hlc_Current c = prev \<and> unat (Logical prev) \<le> n + 1" if "n \<le> 100" for n
    using that
  proof (induction n)
    case 0
    then show ?case using hlc_Now_props [OF s] by (simp add: hlc_New_def hlc_Current_def)
  next
    case (Suc n)
    obtain k f p ok where r: "foldl wander_step (c, ?f, prev, True) [0..<n] = (k, f, p, ok)"
      by (metis prod_cases4)
    obtain k' cur where k': "hlc_Now (fake_NowNanos (wandering n f)) k = (k', cur)" by fastforce
    have IH: "ok \<and> hlc_Current k = p \<and> unat (Logical p) \<le> n + 1" using Suc r by simp
    then have "unat (Logical (hlc_Current k)) < logical_limit" using Suc.prems by simp
    from hlc_Now_props [OF k' this] IH r k' show ?case by (simp add: wander_step_def Let_def)
  qed
  note all = this [OF order_refl]
  obtain c' f p ok where r: "foldl wander_step (c, ?f, prev, True) [0..<100] = (c', f, p, ok)"
    by (metis prod_cases4)
  show ?thesis using all unfolding newFake_def Let_def prod.case s r by blast
qed

lemma hlc_TestNowIncrementsLogicalWhenWallUnchanged:
  "let (c, f) = newFake 1000; pt = fake_NowNanos f in hlc_Nows [pt, pt, pt] c = [Timestamp pt 0, Timestamp pt 1, Timestamp pt 2]"
  by (simp add: hlc_test_defs Let_def)

lemma hlc_TestNowResetsLogicalWhenWallAdvances:
  "let (c, f) = newFake 1000; pt = fake_NowNanos f; pt' = fake_NowNanos (fake_Advance (1000 * Millisecond) f)
   in Logical (last (hlc_Nows [pt, pt, pt, pt'] c)) = 0"
  by (simp add: hlc_test_defs Let_def)

lemma hlc_TestNowSurvivesWallClockBackwardStep:
  "let (c, f) = newFake 1000; g = fake_Reverse (500 * Millisecond) f; h = fake_Reverse (1000 * Millisecond) g;
       pt = fake_NowNanos f
   in hlc_Nows [pt, fake_NowNanos g, fake_NowNanos h] c = [Timestamp pt 0, Timestamp pt 1, Timestamp pt 2] \<and>
      ts_Less (Timestamp pt 1) (Timestamp pt 2)"
  by (simp add: hlc_test_defs ts_Less_def Let_def)

lemma hlc_TestReceiveAdoptsRemoteWhenAhead:
  "let (c, f) = newFake 1000; remote = time_UnixNano (time_Unix 1100 0)
   in snd (hlc_Receive (fake_NowNanos f) (Timestamp remote 5) c) = Inr (Timestamp remote 6)"
  by (simp add: hlc_test_defs Let_def)

lemma hlc_TestReceiveIgnoresRemoteWhenBehind:
  "let (c, f) = newFake 2000; pt = fake_NowNanos f; (c, t) = hlc_Now pt c
   in snd (hlc_Receive pt (Timestamp (time_UnixNano (time_Unix 1000 0)) 5) c) = Inr (Timestamp pt 1)"
  by (simp add: hlc_test_defs Let_def)

lemma hlc_TestReceiveTakesMaxOfBothLogicalsWhenWallTimesMatch:
  "let (c, f) = newFake 1000; pt = fake_NowNanos f;
       (c, t0) = hlc_Now pt c; (c, t1) = hlc_Now pt c; (c, t2) = hlc_Now pt c; (c, t3) = hlc_Now pt c;
       g = fake_Reverse (500 * Millisecond) f; remote = Timestamp (WallTime (hlc_Current c)) 7
   in snd (hlc_Receive (fake_NowNanos g) remote c) = Inr (Timestamp (WallTime remote) 8)"
  by (simp add: hlc_test_defs Let_def)

lemma hlc_TestReceiveResetsLogicalWhenPhysicalTimeIsHighest:
  "let (c, f) = newFake 1000; (c, t) = hlc_Now (fake_NowNanos f) c; f = fake_Advance (3600000 * Millisecond) f
   in snd (hlc_Receive (fake_NowNanos f) (Timestamp (time_UnixNano (time_Unix 1500 0)) 9) c) =
      Inr (Timestamp (fake_NowNanos f) 0)"
  by (simp add: hlc_test_defs Let_def)

lemma hlc_TestReceiveRejectsExcessiveDrift:
  "let f = NewFake (time_Unix 1000 0); pt = fake_NowNanos f; (c, t) = hlc_Now pt (hlc_NewWithMaxDrift (250 * Millisecond));
       (c', r) = hlc_Receive pt (Timestamp (pt + 10000 * Millisecond) 0) c
   in (\<exists>remote local limit. r = Inl (ErrMaxDriftExceeded remote local limit)) \<and> ts_Equal (hlc_Current c) (hlc_Current c')"
  by (simp add: hlc_test_defs ts_Equal_def Let_def)

lemma hlc_TestReceiveAcceptsRemoteWithinDrift:
  "let f = NewFake (time_Unix 1000 0); remote = fake_NowNanos f + 100 * Millisecond
   in snd (hlc_Receive (fake_NowNanos f) (Timestamp remote 3) (hlc_NewWithMaxDrift (250 * Millisecond))) =
      Inr (Timestamp remote 4)"
  by (simp add: hlc_test_defs Let_def)

lemma hlc_TestMaxDriftZeroDisablesCheck:
  "let (c, f) = newFake 1000 in \<exists>t. snd (hlc_Receive (fake_NowNanos f) (Timestamp (fake_NowNanos f + 3600000 * Millisecond) 0) c) = Inr t"
  by (simp add: hlc_test_defs Let_def)

lemma hlc_TestTimestampOrdering:
  "let a = Timestamp 100 5; b = Timestamp 100 6; c = Timestamp 200 0
   in ts_Less a b \<and> ts_Less b c \<and> ts_Less a c \<and> \<not> ts_Less b a \<and> ts_Equal a (Timestamp 100 5) \<and>
      ts_Compare a b = - 1 \<and> ts_Compare b a = 1 \<and> ts_Compare a a = 0"
  by (simp add: ts_Less_def ts_Equal_def ts_Compare_def word_sless_alt)

section \<open>\<^verbatim>\<open>hlc/encode_test.go\<close>\<close>

lemma hlc_TestRoundTripBinary:
  "case hlc_MarshalBinary t of None \<Rightarrow> False
   | Some bs \<Rightarrow> length bs = 12 \<and> hlc_UnmarshalBinary bs u = (t, None)"
  by (simp add: hlc_MarshalBinary_bytes hlc_Unmarshal_Marshal)

text \<open>1.7e18 nanoseconds and 42 are written as decimal numbers and come back.\<close>

lemma hlc_TestRoundTripJSON:
  "hlc_MarshalJSON (Timestamp 1700000000000000000 42) =
     Inr (bytes_of (json_text (timestamp_json 1700000000000000000 42)))"
  "hlc_UnmarshalJSON (bytes_of (json_text (timestamp_json 1700000000000000000 42))) b =
     Some (Timestamp 1700000000000000000 42, None)"
  by (simp_all add: hlc_MarshalJSON_def hlc_UnmarshalJSON_number)

lemma hlc_TestUnmarshalRejectsWrongLength:
  "length data \<noteq> 12 \<Longrightarrow> hlc_UnmarshalBinary data b = (b, Some HlcErrCorruptEncoding)"
  by (simp add: hlc_UnmarshalBinary_def)

lemma hlc_TestCurrentDoesNotAdvance:
  "let (c, f) = newFake 1000; (c, t) = hlc_Now (fake_NowNanos f) c in ts_Equal (hlc_Current c) t"
  by (simp add: hlc_test_defs ts_Equal_def Let_def)

section \<open>\<^verbatim>\<open>vector/clock_test.go\<close> and \<^verbatim>\<open>vector/compare_test.go\<close>\<close>

abbreviation snap :: "counters \<Rightarrow> snapshot" where
  "snap vec \<equiv> \<lparr>sn_nodeID = [], sn_vec = vec\<rparr>"

lemmas vector_test_defs = vector_New_def vector_NewFromMap_def vector_NodeID_def vector_Tick_def vector_Send_def
  vector_Receive_def vector_Now_def snapshotLocked_def copy_loop_def snapshot_Get_def snapshot_Nodes_def
  snapshot_Equal_def vector_Compare_def mput_def mget_def mhas_def

lemma vector_TestNewStartsEmpty:
  "vector_NodeID (vector_New ''n1'') = ''n1''" "snapshot_Nodes (vector_Now (vector_New ''n1'')) = []"
  by (simp_all add: vector_test_defs)

lemma vector_TestTickIncrementsOnlySelf:
  "let s = snd (vector_Tick (vector_NewFromMap ''n1'' [(''n1'', 0), (''n2'', 7)]))
   in snapshot_Get s ''n1'' = 1 \<and> snapshot_Get s ''n2'' = 7"
  by (simp add: vector_test_defs Let_def)

lemma vector_TestSendIncrementsOnlySelf:
  "let (c, s1) = vector_Send (vector_New ''n1''); (c, s2) = vector_Send c in snapshot_Get (vector_Now c) ''n1'' = 2"
  by (simp add: vector_test_defs Let_def)

lemma vector_TestReceiveMergesAndIncrementsSelf:
  "let (c, s) = vector_Tick (vector_New ''n1''); out = snd (vector_Receive (snap [(''n1'', 0), (''n2'', 5), (''n3'', 2)]) c)
   in snapshot_Get out ''n1'' = 2 \<and> snapshot_Get out ''n2'' = 5 \<and> snapshot_Get out ''n3'' = 2"
  by (simp add: vector_test_defs Let_def)

lemma vector_TestReceiveTakesMax:
  "let out = snd (vector_Receive (snap [(''n2'', 4), (''n3'', 9)])
         (vector_NewFromMap ''n1'' [(''n1'', 1), (''n2'', 10), (''n3'', 2)]))
   in snapshot_Get out ''n1'' = 2 \<and> snapshot_Get out ''n2'' = 10 \<and> snapshot_Get out ''n3'' = 9"
  by (simp add: vector_test_defs Let_def)

lemma vector_TestSnapshotImmutability:
  "let (c, s) = vector_Tick (vector_New ''n1''); before = vector_Now c; (c, s) = vector_Tick c; (c, s) = vector_Tick c
   in snapshot_Get before ''n1'' = 1 \<and> snapshot_Get (vector_Now c) ''n1'' = 3"
  by (simp add: vector_test_defs Let_def)

lemma vector_TestSnapshotEqual:
  "snapshot_Equal (snap [(''n1'', 1), (''n2'', 2)]) (snap [(''n1'', 1), (''n2'', 2)])"
  "\<not> snapshot_Equal (snap [(''n1'', 1), (''n2'', 2)]) (snap [(''n1'', 1), (''n2'', 3)])"
  by (simp_all add: vector_test_defs)

lemma vector_TestCompareTable:
  "vector_Compare (snap [(''A'', 1)]) (snap [(''A'', 2)]) = Before"
  "vector_Compare (snap [(''A'', 2)]) (snap [(''A'', 1)]) = After"
  "vector_Compare (snap [(''A'', 1), (''B'', 1)]) (snap [(''A'', 1), (''B'', 1)]) = Equal"
  "vector_Compare (snap [(''A'', 2), (''B'', 1)]) (snap [(''A'', 1), (''B'', 2)]) = Concurrent"
  "vector_Compare (snap [(''A'', 1)]) (snap [(''B'', 1)]) = Concurrent"
  "vector_Compare (snap []) (snap [(''A'', 1)]) = Before"
  by (simp_all add: vector_test_defs Let_def)

lemma vector_TestCompareEmptyVsEmpty: "vector_Compare (snap []) (snap []) = Equal"
  and vector_TestCompareIgnoresZeroEntries:
    "vector_Compare (snap [(''A'', 1), (''B'', 0)]) (snap [(''A'', 1)]) = Equal"
  by (simp_all add: vector_test_defs Let_def)

lemma vector_TestRelationString:
  "List.map relation_String [Before, After, Equal, Concurrent] = [''Before'', ''After'', ''Equal'', ''Concurrent'']"
  by (simp add: relation_String_def)

section \<open>\<^verbatim>\<open>vector/encode_test.go\<close>, the JSON form\<close>

lemma vector_TestRoundTripJSON:
  "\<exists>data s'. vector_MarshalJSON \<lparr>sn_nodeID = ''n1'', sn_vec = [(''n1'', 5), (''n2'', 3), (''n3'', 0)]\<rparr> = Inr data \<and>
     vector_UnmarshalJSON data out = Some (s', None) \<and> snapshot_NodeID s' = ''n1'' \<and>
     snapshot_Equal \<lparr>sn_nodeID = ''n1'', sn_vec = [(''n1'', 5), (''n2'', 3), (''n3'', 0)]\<rparr> s'"
proof -
  let ?m = "[(''n1'', 5), (''n2'', 3), (''n3'', 0)] :: counters"
  have valid: "to_valid ''n1'' = ''n1''" "to_valid ''n2'' = ''n2''" "to_valid ''n3'' = ''n3''"
    by (intro to_valid_id valid_utf8_ascii; simp add: ord_def)+
  have "revalidated ?m = ?m" by (simp add: revalidated_def valid keys_def mput_def mget_def)
  then show ?thesis
    using vector_json_decoded [of "''n1''" ?m] valid
    by (simp add: vector_MarshalJSON_def vector_UnmarshalJSON_def snapshot_NodeID_def snapshot_Equal_def mget_def)
qed

end
