(* ===== verification/Concurrent_Tests.thy ===== *)
theory Concurrent_Tests
  imports Progress Goroutines_Time "HOL-Library.Multiset"
begin

text \<open>
  The unit tests that start goroutines (\<^verbatim>\<open>TestConcurrentTicks\<close>, \<^verbatim>\<open>TestConcurrentSendAndReceive\<close>,
  \<^verbatim>\<open>TestConcurrentClockOperations\<close>, \<^verbatim>\<open>TestFakeIsSafeForConcurrentUse\<close>), for every schedule of the
  statements of their goroutines and not only for the schedules a run of the tests happens to take. A test is
  given by the calls its goroutines make; what it requires at the end, when every call has returned, is proved.
\<close>

section \<open>Every call that is an event hands out a stamp\<close>

text \<open>The clients that are between their call and their return.\<close>

definition busy :: "('call, 's, 'res) atomic \<Rightarrow> nat set" where
  "busy a = {t. clients a t \<noteq> AIdle}"

context stamping
begin

definition eventful :: "'call \<Rightarrow> bool" where
  "eventful c \<longleftrightarrow> (\<forall>s s' v. op c s = (s', v) \<longrightarrow> stamp c v \<noteq> None)"

definition issued :: "'s \<Rightarrow> ('call, 'res) call_event list \<Rightarrow> ('call, 's, 'res) atomic \<Rightarrow> bool" where
  "issued s h a \<longleftrightarrow> now s \<le> now (object a) \<and> (\<forall>k \<in> set (stamps h). now s < k) \<and>
     (\<forall>t c. clients a t = APending c \<longrightarrow> eventful c) \<and>
     (\<forall>t c v. clients a t = ADone c v \<longrightarrow> (\<exists>k. stamp c v = Some k \<and> now s < k)) \<and>
     finite (busy a) \<and> length (calls h) = length (stamps h) + card (busy a)"

lemma step_issued:
  assumes st: "atomic_step op a l a'" and b: "budget n h a" and i: "issued s h a"
    and n: "length (calls (h @ l)) \<le> n" "\<forall>c \<in> set (calls l). allowed n c" and e: "\<forall>c \<in> set (calls l). eventful c"
  shows "issued s (h @ l) a'"
  using st
proof (cases rule: atomic_step.cases)
  case (acall t c)
  then have "t \<notin> busy a" and "busy a' = insert t (busy a)" by (auto simp: busy_def)
  then show ?thesis using i e acall by (auto simp: issued_def)
next
  case (effect t c s' v)
  then have same: "busy a' = busy a" by (auto simp: busy_def)
  have "eventful c" using i effect by (auto simp: issued_def)
  then obtain k where k: "stamp c v = Some k" using effect unfolding eventful_def by blast
  moreover have "now (object a) < k" and "now (object a) \<le> now s'"
    using step_budget [OF st b n] effect k by (auto dest!: spec [of _ t])
  ultimately show ?thesis using i effect same by (auto simp: issued_def)
next
  case (areturn t c v)
  then have t: "t \<in> busy a" and busy: "busy a' = busy a - {t}" by (auto simp: busy_def)
  obtain k where "stamp c v = Some k" "now s < k" using i areturn unfolding issued_def by blast
  moreover have "card (busy a) = Suc (card (busy a'))"
    using card_Suc_Diff1 [of "busy a" t] i t busy by (simp add: issued_def del: card_Diff_insert)
  ultimately show ?thesis using i areturn busy by (auto simp: issued_def)
qed

lemma run_issued:
  assumes "runs (atomic_step op) (atomic_start s) h a" and "room n s"
    and "length (calls h) \<le> n" and "\<forall>c \<in> set (calls h). allowed n c \<and> eventful c"
  shows "issued s h a"
  using assms
proof (induction "atomic_start s :: ('call, 's, 'res) atomic" h a rule: runs.induct)
  case runs_refl
  then show ?case by (simp add: issued_def busy_def atomic_start_def)
next
  case (runs_step h a l a')
  then have "budget n h a" using atomic_run_stamps [OF runs_step.hyps(1)] by auto
  then show ?case using step_issued [OF runs_step.hyps(3), of n h s] runs_step by auto
qed

text \<open>
  When all calls have returned, there are as many stamps as calls, all different, and all above the first and up to
  the last value of the clock.
\<close>

lemma final_stamps:
  assumes run: "runs (atomic_step op) (atomic_start s) h a" and n: "room n s"
    "length (calls h) \<le> n" "\<forall>c \<in> set (calls h). allowed n c \<and> eventful c"
    and idle: "\<And>t. clients a t = AIdle"
  shows "length (stamps h) = length (calls h)" and "distinct (stamps h)" and "set (stamps h) \<subseteq> {now s<..now (object a)}"
proof -
  have f: "fresh h a" using atomic_run_stamps [OF run n(1,2)] n(3) by blast
  have i: "issued s h a" using run_issued [OF run n] .
  have "busy a = {}" using idle by (simp add: busy_def)
  then show "length (stamps h) = length (calls h)" using i by (simp add: issued_def)
  show "distinct (stamps h)" using f by (simp add: fresh_def)
  show "set (stamps h) \<subseteq> {now s<..now (object a)}" using f i by (auto simp: fresh_def issued_def)
qed

end

section \<open>Lamport clocks\<close>

lemma lamport_eventful: "c = LTick \<or> c = LSend \<or> c = LReceive m \<Longrightarrow> lamport_stamps.eventful c"
  by (auto simp: lamport_stamps.eventful_def map_prod_def split: prod.splits)

lemma lamport_event_stamps:
  assumes "runs lamport_system (sys_start lamport_New) h \<sigma>" and "\<forall>t. threads \<sigma> t = Idle"
    and "length (calls h) < 2 ^ 64"
    and "\<forall>k \<in> set (calls h). lamport_allowed (length (calls h)) k \<and> k \<noteq> LNow"
  shows "length (stamps_of lamport_stamp h) = length (calls h)" and "distinct (stamps_of lamport_stamp h)"
    and "set (stamps_of lamport_stamp h) \<subseteq> {0<..lamport_Now (shared \<sigma>)}"
proof -
  have run: "runs (atomic_step lamport_op) (atomic_start lamport_New) h (lamport_mutex.abstract \<sigma>)"
    and idle: "\<And>t. clients (lamport_mutex.abstract \<sigma>) t = AIdle"
    and obj: "object (lamport_mutex.abstract \<sigma>) = shared \<sigma>"
    using lamport_mutex.quiescent [OF assms(1)] assms(2) by blast+
  have room: "unat (lamport_Now lamport_New) + length (calls h) < 2 ^ 64" using assms(3) by (simp add: lamport_defs)
  have "lamport_stamps.eventful k" if "k \<in> set (calls h)" for k
    using assms(4) that by (cases k) (auto intro: lamport_eventful)
  then have ok: "\<forall>k \<in> set (calls h). lamport_allowed (length (calls h)) k \<and> lamport_stamps.eventful k"
    using assms(4) by blast
  note final = lamport_stamps.final_stamps [OF run room le_refl ok idle]
  show "length (stamps_of lamport_stamp h) = length (calls h)" and "distinct (stamps_of lamport_stamp h)"
    using final by blast+
  show "set (stamps_of lamport_stamp h) \<subseteq> {0<..lamport_Now (shared \<sigma>)}"
    using final(3) by (simp add: obj lamport_defs)
qed

lemma lamport_counts_calls:
  assumes "runs lamport_system (sys_start lamport_New) h \<sigma>" and "\<forall>t. threads \<sigma> t = Idle"
    and "calls h = replicate n LTick" and "n < 2 ^ 64"
  shows "unat (lamport_Now (shared \<sigma>)) = n"
proof -
  have "k = LTick" if "h = h1 @ Inv t k # h2" for h1 t k h2
  proof -
    have "k \<in> set (calls h)" using that by simp
    then show ?thesis using assms(3) by simp
  qed
  then have "lamport_count.accountable lamport_New h" by (fastforce simp: lamport_count.accountable_def)
  then show ?thesis
    using lamport_no_lost_update [OF assms(1,2)] assms(3,4) by (simp add: lamport_defs sum_list_replicate)
qed

lemma unat_of_nat64: "i < 2 ^ 64 \<Longrightarrow> unat (of_nat i :: u64) = i"
  by (simp add: unat_of_nat)

lemma card_u64_interval: "card {0<..n :: u64} = unat n"
proof -
  have n: "unat n < 2 ^ 64" using unsigned_less [of n] by simp
  have "{0<..n} = of_nat ` {0<..unat n}"
  proof (intro set_eqI iffI)
    fix x :: u64
    assume "x \<in> {0<..n}"
    then have "unat x \<in> {0<..unat n}" by (simp add: word_less_nat_alt word_le_nat_alt)
    moreover have "x = of_nat (unat x)" by simp
    ultimately show "x \<in> of_nat ` {0<..unat n}" by (rule rev_image_eqI)
  next
    fix x :: u64
    assume "x \<in> of_nat ` {0<..unat n}"
    then obtain i where "x = of_nat i" "0 < i" "i \<le> unat n" by auto
    then show "x \<in> {0<..n}" using n by (simp add: word_less_nat_alt word_le_nat_alt unat_of_nat64)
  qed
  moreover have "inj_on (of_nat :: nat \<Rightarrow> u64) {0<..unat n}"
    using n unat_of_nat64 by (intro inj_onI) (metis greaterThanAtMost_iff le_less_trans)
  ultimately show ?thesis by (simp add: card_image)
qed

text \<open>
  \<^verbatim>\<open>TestConcurrentTicks\<close>: 1000 goroutines tick once. The counter ends at 1000 and the ticks return
  1000 different values (the test stops there; they are exactly the values from 1 to 1000).
\<close>

lemma lamport_TestConcurrentTicks:
  assumes "runs lamport_system (sys_start lamport_New) h \<sigma>" and "\<forall>t. threads \<sigma> t = Idle"
    and "calls h = replicate 1000 LTick"
  shows "lamport_Now (shared \<sigma>) = 1000" and "card (set (stamps_of lamport_stamp h)) = 1000"
    and "set (stamps_of lamport_stamp h) = {0<..1000}"
proof -
  show now: "lamport_Now (shared \<sigma>) = 1000"
    using lamport_counts_calls [OF assms] by (intro word_unat_eq_iff [THEN iffD2]) simp
  have "lamport_allowed (length (calls h)) k \<and> k \<noteq> LNow" if "k \<in> set (calls h)" for k using that assms(3) by simp
  then have ok: "length (calls h) < 2 ^ 64" "\<forall>k \<in> set (calls h). lamport_allowed (length (calls h)) k \<and> k \<noteq> LNow"
    using assms(3) by auto
  note stamps = lamport_event_stamps [OF assms(1,2) ok]
  show card: "card (set (stamps_of lamport_stamp h)) = 1000"
    using stamps(1,2) assms(3) by (simp add: distinct_card)
  show "set (stamps_of lamport_stamp h) = {0<..1000}"
    using card stamps(3) now by (intro card_subset_eq) (simp_all add: card_u64_interval)
qed

text \<open>
  \<^verbatim>\<open>TestConcurrentSendAndReceive\<close>: 500 sends and 500 receives of 0 to 499 in any order. The final counter depends
  on the schedule, but is at least the number of calls.
\<close>

lemma lamport_TestConcurrentSendAndReceive:
  assumes "runs lamport_system (sys_start lamport_New) h \<sigma>" and "\<forall>t. threads \<sigma> t = Idle"
    and "mset (calls h) = mset (replicate 500 LSend @ List.map (\<lambda>i. LReceive (of_nat i)) [0..<500])"
  shows "2 * 500 \<le> lamport_Now (shared \<sigma>)"
proof -
  have len: "length (calls h) = 1000" using mset_eq_length [OF assms(3)] by simp
  have "set (calls h) = {LSend} \<union> (\<lambda>i. LReceive (of_nat i)) ` {0..<500}"
    using mset_eq_setD [OF assms(3)] by simp
  moreover have "unat (of_nat i :: u64) < 500" if "i < 500" for i
    using that by (simp add: unat_of_nat64)
  ultimately have "lamport_allowed (length (calls h)) k \<and> k \<noteq> LNow" if "k \<in> set (calls h)" for k
    using that len by fastforce
  then have ok: "length (calls h) < 2 ^ 64" "\<forall>k \<in> set (calls h). lamport_allowed (length (calls h)) k \<and> k \<noteq> LNow"
    using len by auto
  note stamps = lamport_event_stamps [OF assms(1,2) ok]
  have "1000 = card (set (stamps_of lamport_stamp h))" using stamps(1,2) len by (simp add: distinct_card)
  also have "\<dots> \<le> card {0<..lamport_Now (shared \<sigma>)}" using stamps(3) by (intro card_mono) simp_all
  finally show ?thesis by (simp add: card_u64_interval word_le_nat_alt)
qed

section \<open>Vector clocks\<close>

text \<open>
  \<^verbatim>\<open>TestConcurrentClockOperations\<close>: 1000 ticks and 1000 receives of snapshots that only know \<^verbatim>\<open>n2\<close>. The entry of
  \<^verbatim>\<open>n1\<close> ends at the number of calls.
\<close>

lemma vector_TestConcurrentClockOperations:
  assumes "runs vector_system (sys_start (vector_New ''n1'')) h \<sigma>" and "\<forall>t. threads \<sigma> t = Idle"
    and "mset (calls h) = mset (replicate 1000 VTick @
      List.map (\<lambda>i. VReceive \<lparr>sn_nodeID = [], sn_vec = [(''n2'', of_nat i)]\<rparr>) [0..<1000])"
  shows "snapshot_Get (vector_Now (shared \<sigma>)) ''n1'' = 2 * 1000"
proof -
  have wf: "wf_clock (vector_New ''n1'')" "vector_NodeID (vector_New ''n1'') = ''n1''"
    and zero: "snapshot_Get (vector_Now (vector_New ''n1'')) ''n1'' = 0"
    by (simp_all add: vector_New_def wf_clock_def wf_map_def keys_def vector_NodeID_def vector_Now_def
        snapshotLocked_def copy_loop_def snapshot_Get_def mget_def)
  have set: "set (calls h) = {VTick} \<union> (\<lambda>i. VReceive \<lparr>sn_nodeID = [], sn_vec = [(''n2'', of_nat i)]\<rparr>) ` {0..<1000}"
    using mset_eq_setD [OF assms(3)] by simp
  then have "vector_knows_upto ''n1'' n k" if "k \<in> set (calls h)" for k n
    using that by (auto simp: wf_snapshot_def wf_map_def keys_def snapshot_Get_def mget_def)
  then have acc: "vector_count.accountable ''n1'' (vector_New ''n1'') h"
    by (fastforce simp: vector_count.accountable_def)
  have len: "length (calls h) = 2000" using mset_eq_length [OF assms(3)] by simp
  have "filter (\<lambda>k. k \<noteq> VNow) (calls h) = calls h" using set by (intro filter_True) auto
  then have "unat (snapshot_Get (vector_Now (shared \<sigma>)) ''n1'') = 2000"
    using vector_entry_counts [OF assms(1) wf(1) assms(2) wf(2) acc] len zero by (simp add: vector_own_def)
  then show ?thesis by (intro word_unat_eq_iff [THEN iffD2]) simp
qed

section \<open>The fake wall clock\<close>

fun fake_weight :: "fake_call \<Rightarrow> int" where
  "fake_weight (FkAdvance d) = sint d"
| "fake_weight _ = 0"

text \<open>Advances of a clock without a monotonic reading add up; readings leave it as it is.\<close>

interpretation fake_count: counting fake_op "\<lambda>f. mono_ns (fake_now f) = None" "\<lambda>f. wall_ns (fake_now f)"
  fake_weight "\<lambda>_. True" "\<lambda>_ c. c = FkNow \<or> c = FkNowNanos \<or> (\<exists>d. c = FkAdvance d)" "\<lambda>_ _. False"
  by unfold_locales (auto simp: fake_Advance_def time_Add_def Let_def)

lemma fake_weight_sum:
  "sum_list (List.map fake_weight cs) = sum_list (List.map fake_weight (filter (\<lambda>c. c \<noteq> FkNow \<and> c \<noteq> FkNowNanos) cs))"
  by (induction cs) auto

text \<open>
  \<^verbatim>\<open>TestFakeIsSafeForConcurrentUse\<close>: 1000 advances by a microsecond among any number of readings move the clock by
  a millisecond.
\<close>

lemma fake_TestFakeIsSafeForConcurrentUse:
  assumes "runs (sys_step (\<lambda>_. Exclusive) fake_body \<lparr>fk_now = zero_time, fk_return = FkUnit\<rparr> fk_return)
      (sys_start (NewFake (time_Unix 1000 0))) h \<sigma>" and "\<forall>t. threads \<sigma> t = Idle"
    and "filter (\<lambda>c. c \<noteq> FkNow \<and> c \<noteq> FkNowNanos) (calls h) = replicate 1000 (FkAdvance Microsecond)"
  shows "fake_Now (shared \<sigma>) = time_Add (time_Unix 1000 0) Millisecond"
proof -
  have start: "mono_ns (fake_now (NewFake (time_Unix 1000 0))) = None"
    "wall_ns (fake_now (NewFake (time_Unix 1000 0))) = 1000 * 10 ^ 9"
    by (simp_all add: fake_defs time_Unix_def)
  have run: "runs (atomic_step fake_op) (atomic_start (NewFake (time_Unix 1000 0))) h (fake_mutex.abstract \<sigma>)"
    and idle: "\<And>t. clients (fake_mutex.abstract \<sigma>) t = AIdle"
    and obj: "object (fake_mutex.abstract \<sigma>) = shared \<sigma>"
    using mutex_object.quiescent [OF fake_mutex.mutex_object_axioms assms(1)] assms(2) by blast+
  have "c \<in> set (replicate 1000 (FkAdvance Microsecond))" if "c \<in> set (calls h)" "c \<noteq> FkNow" "c \<noteq> FkNowNanos" for c
    unfolding assms(3) [symmetric] using that by simp
  then have "c = FkNow \<or> c = FkNowNanos \<or> (\<exists>d. c = FkAdvance d)" if "h = h1 @ Inv t c # h2" for h1 t c h2
    using that by auto
  then have counted: "fake_count.accountable (NewFake (time_Unix 1000 0)) h"
    unfolding fake_count.accountable_def by blast
  have "sum_list (List.map fake_weight (calls h)) = 1000 * 1000"
    by (subst fake_weight_sum) (simp add: assms(3) Microsecond_def sum_list_replicate)
  then have "wall_ns (fake_now (shared \<sigma>)) = 1000 * 10 ^ 9 + 1000 * 1000"
    using fake_count.final_count [OF run start(1) counted TrueI idle] by (simp add: start obj)
  moreover have "mono_ns (fake_now (shared \<sigma>)) = None"
    using fake_count.run_accounted [OF run start(1) counted TrueI] by (simp add: fake_count.accounted_def obj)
  ultimately show ?thesis
    by (simp add: fake_Now_def time_Add_def time_Unix_def Millisecond_def Let_def)
qed

section \<open>Hybrid clocks\<close>

text \<open>
  \<^verbatim>\<open>TestConcurrentClockOperations\<close> of \<^verbatim>\<open>hlc/\<close>: 1000 readings and 1000 receives, for any answers of the wall clock. No
  timestamp that a call returned is above the final state of the clock.
\<close>

lemma hlc_TestConcurrentClockOperations:
  assumes "runs hlc_system (sys_start hlc_New) h \<sigma>" and "\<forall>t. threads \<sigma> t = Idle"
    and "length (calls h) = 2 * 1000"
    and "\<forall>c \<in> set (calls h). \<exists>pt i. c = HlcNow pt \<or> c = HlcReceive pt (Timestamp (1000000000 + i) 0)"
  shows "\<forall>ts \<in> set (stamps_of hlc_stamp h). ts \<le> hlc_Current (shared \<sigma>)"
proof -
  have run: "runs (atomic_step hlc_method) (atomic_start hlc_New) h (hlc_mutex.abstract \<sigma>)"
    and obj: "object (hlc_mutex.abstract \<sigma>) = shared \<sigma>"
    using hlc_mutex.quiescent [OF assms(1)] assms(2) by blast+
  have room: "unat (Logical (hlc_Current hlc_New)) + length (calls h) < 2 ^ 32"
    using assms(3) by (simp add: hlc_New_def hlc_Current_def)
  have "hlc_allowed (length (calls h)) c" if "c \<in> set (calls h)" for c
    using assms(3,4) that by fastforce
  then have ok: "\<forall>c \<in> set (calls h). hlc_allowed (length (calls h)) c" by blast
  show ?thesis
    using hlc_stamps.atomic_run_stamps [OF run room le_refl ok] by (simp add: hlc_stamps.fresh_def obj)
qed

end
