(* ===== verification/Package_Tests.thy ===== *)
theory Package_Tests
  imports Dotted Stamps Truetime Vector_Encode
begin

text \<open>
  The unit tests of \<^verbatim>\<open>dotted/\<close>, \<^verbatim>\<open>ordering/\<close>, \<^verbatim>\<open>truetime/\<close>, \<^verbatim>\<open>internal/wallclock\<close> and
  \<^verbatim>\<open>vector/encode.go\<close> as statements about the model, each named after its test. What a test checks on one
  example and holds in general is stated in general.
\<close>

section \<open>\<^verbatim>\<open>dotted/version_test.go\<close> and \<^verbatim>\<open>dotted/resolve_test.go\<close>\<close>

text \<open>A version that increments of the actors, in this order, make.\<close>

definition version_of :: "string list \<Rightarrow> version" where
  "version_of actors = fold dotted_Increment actors dotted_NewVersion"

lemmas version_defs = version_of_def dotted_NewVersion_def dotted_Increment_def dotted_Merge_def dotted_Descends_def
  dotted_Dominates_def dotted_Equals_def dotted_Concurrent_def dotted_Dots_def copy_loop_def
  mput_def mget_def mhas_def keys_def Let_def

lemma dotted_TestNewVersionIsEmpty: "dotted_Dots dotted_NewVersion = []"
  by (simp add: version_defs)

lemma dotted_TestIncrementCreatesDot:
  "cget (dotted_Dots (version_of [''clientA''])) ''clientA'' = 1"
  "cget (dotted_Dots (version_of [''clientA'', ''clientA''])) ''clientA'' = 2"
  by (simp_all add: version_defs)

lemma dotted_TestMergePointwiseMax:
  "let m = dotted_Merge (version_of [''A'', ''A'', ''B'']) (version_of [''A'', ''B'', ''B'', ''C''])
   in cget (dotted_Dots m) ''A'' = 2 \<and> cget (dotted_Dots m) ''B'' = 2 \<and> cget (dotted_Dots m) ''C'' = 1"
  by (simp add: version_defs)

lemma dotted_TestMergeIsCommutative:
  "let a = version_of [''A'', ''A'']; b = version_of [''A'', ''B''] in dotted_Equals (dotted_Merge a b) (dotted_Merge b a)"
  by (simp add: version_defs)

lemma dotted_TestMergeIsAssociative:
  "let a = version_of [''A'']; b = version_of [''B'']; c = version_of [''C'']
   in dotted_Equals (dotted_Merge (dotted_Merge a b) c) (dotted_Merge a (dotted_Merge b c))"
  by (simp add: version_defs)

lemma dotted_TestDescends:
  "let a = version_of [''A'']; b = dotted_Increment ''A'' a in dotted_Descends b a \<and> \<not> dotted_Descends a b"
  "dotted_Descends (version_of [''A'', ''B'']) (version_of [''A'', ''B''])"
  "dotted_Descends (version_of [''A'']) dotted_NewVersion" "\<not> dotted_Descends dotted_NewVersion (version_of [''A''])"
  by (simp_all add: version_defs)

lemma dotted_TestDominates:
  "let a = version_of [''A'']; b = dotted_Increment ''A'' a
   in dotted_Dominates b a \<and> \<not> dotted_Dominates a b \<and> \<not> dotted_Dominates a a"
  "let a = version_of [''A''] in dotted_Dominates (dotted_Increment ''B'' a) a"
  by (simp_all add: version_defs)

lemma dotted_TestConcurrentDetection:
  "let a = version_of [''clientA'']; b = version_of [''clientB'']
   in dotted_Concurrent a b \<and> dotted_Concurrent b a \<and> \<not> dotted_Descends a b \<and> \<not> dotted_Descends b a"
  by (simp add: version_defs)

lemma dotted_TestEqualsIgnoresInsertionOrder:
  "dotted_Equals (version_of [''A'', ''B'']) (version_of [''B'', ''A''])"
  by (simp add: version_defs)

lemma dotted_TestResolveByCustom:
  "map_sum id sib_value (ResolveByCustom (\<lambda>s. s ! 1)
     [\<lparr>sib_version = version_of [''A''], sib_value = ''value-a''\<rparr>,
      \<lparr>sib_version = version_of [''B''], sib_value = ''value-b''\<rparr>]) = Inr ''value-b''"
  "ResolveByCustom picker [] = Inl EmptySiblings" "ResolveLatestWriteWins [] = Inl EmptySiblings"
  by (simp_all add: ResolveByCustom_def ResolveLatestWriteWins_def)

lemma dotted_TestResolveLatestWriteWins:
  "map_sum id sib_value (ResolveLatestWriteWins
     [\<lparr>sib_version = version_of [''A''], sib_value = ''loses''\<rparr>,
      \<lparr>sib_version = version_of [''B'', ''B''], sib_value = ''wins''\<rparr>]) = Inr ''wins''"
  "map_sum id sib_value (ResolveLatestWriteWins
     [\<lparr>sib_version = version_of [''A''], sib_value = ''a-wins''\<rparr>,
      \<lparr>sib_version = version_of [''B''], sib_value = ''b-loses''\<rparr>]) = Inr ''a-wins''"
  by (simp_all add: ResolveLatestWriteWins_def lww_loop.simps dotSum_def version_defs)

section \<open>\<^verbatim>\<open>ordering/happens_before_test.go\<close> and \<^verbatim>\<open>ordering/partial_order_test.go\<close>\<close>

lemma ordering_TestLamportStamp:
  "HappensBefore (LamportStamp 3) (LamportStamp 7)" "\<not> HappensBefore (LamportStamp 7) (LamportStamp 3)"
  "\<not> HappensBefore (LamportStamp a) (LamportStamp a)"
  "stamp_Concurrent (LamportStamp 5) (LamportStamp 5)" "\<not> stamp_Concurrent (LamportStamp 5) (LamportStamp 6)"
  by simp_all

lemma ordering_TestHLCStamp:
  "HappensBefore (HLCStamp (Timestamp 100 5)) (HLCStamp (Timestamp 100 6))"
  "HappensBefore (HLCStamp (Timestamp 100 6)) (HLCStamp (Timestamp 200 0))"
  "\<not> HappensBefore (HLCStamp (Timestamp 200 0)) (HLCStamp (Timestamp 100 5))"
  "stamp_Concurrent (HLCStamp (Timestamp 100 5)) (HLCStamp (Timestamp 100 5))"
  "\<not> stamp_Concurrent (HLCStamp (Timestamp 100 5)) (HLCStamp (Timestamp 100 6))"
  by (simp_all add: ts_Less_def ts_Equal_def word_sless_alt)

lemma ordering_TestCrossTypeNotComparable:
  "same_kind s t \<or> \<not> HappensBefore s t \<and> \<not> stamp_Concurrent s t"
  by (cases s; cases t) simp_all

text \<open>\<^verbatim>\<open>scenarioVector\<close>: two vector clocks, a message from the first to the second.\<close>

definition scenarioVector :: "(stamp, unit) event list" where
  "scenarioVector =
     (let ca = vector_New ''a''; cb = vector_New ''b'';
          (ca, a1) = vector_Tick ca; (ca, a2Send) = vector_Send ca;
          (cb, b1) = vector_Tick cb; (cb, b2) = vector_Receive a2Send cb
      in [\<lparr>ev_ID = ''a1'', ev_Stamp = NewVectorStamp a1, ev_Data = ()\<rparr>,
          \<lparr>ev_ID = ''a2'', ev_Stamp = NewVectorStamp a2Send, ev_Data = ()\<rparr>,
          \<lparr>ev_ID = ''b1'', ev_Stamp = NewVectorStamp b1, ev_Data = ()\<rparr>,
          \<lparr>ev_ID = ''b2'', ev_Stamp = NewVectorStamp b2, ev_Data = ()\<rparr>])"

lemma scenarioVector_stamps:
  "List.map (\<lambda>e. (ev_ID e, ev_Stamp e)) scenarioVector =
     [(''a1'', VectorStamp \<lparr>sn_nodeID = ''a'', sn_vec = [(''a'', 1)]\<rparr>),
      (''a2'', VectorStamp \<lparr>sn_nodeID = ''a'', sn_vec = [(''a'', 2)]\<rparr>),
      (''b1'', VectorStamp \<lparr>sn_nodeID = ''b'', sn_vec = [(''b'', 1)]\<rparr>),
      (''b2'', VectorStamp \<lparr>sn_nodeID = ''b'', sn_vec = [(''b'', 2), (''a'', 2)]\<rparr>)]"
  by (simp add: scenarioVector_def NewVectorStamp_def vector_New_def vector_Tick_def vector_Send_def vector_Receive_def
      snapshotLocked_def copy_loop_def mput_def mget_def mhas_def Let_def)

text \<open>The events as a list, and the relation between their stamps.\<close>

abbreviation scenario_event :: "string \<Rightarrow> string \<Rightarrow> counters \<Rightarrow> (stamp, unit) event" where
  "scenario_event i p vec \<equiv> \<lparr>ev_ID = i, ev_Stamp = VectorStamp \<lparr>sn_nodeID = p, sn_vec = vec\<rparr>, ev_Data = ()\<rparr>"

lemma scenarioVector_events:
  "scenarioVector = [scenario_event ''a1'' ''a'' [(''a'', 1)], scenario_event ''a2'' ''a'' [(''a'', 2)],
     scenario_event ''b1'' ''b'' [(''b'', 1)], scenario_event ''b2'' ''b'' [(''b'', 2), (''a'', 2)]]"
  by (simp add: scenarioVector_def NewVectorStamp_def vector_New_def vector_Tick_def vector_Send_def vector_Receive_def
      snapshotLocked_def copy_loop_def mput_def mget_def mhas_def Let_def)

lemmas compare_defs = vector_Compare_def mget_def mhas_def Let_def

lemma ordering_TestVectorStamp:
  "case List.map ev_Stamp scenarioVector of
     [a, b, peer, after] \<Rightarrow> HappensBefore a b \<and> HappensBefore b after \<and> stamp_Concurrent a peer \<and>
       \<not> HappensBefore a peer \<and> \<not> HappensBefore peer a
   | _ \<Rightarrow> False"
  by (simp add: scenarioVector_events compare_defs)

lemma ordering_TestTopologicalSortExactOrderForScenario:
  "List.map ev_ID (TopologicalSort HappensBefore scenarioVector) = [''a1'', ''a2'', ''b1'', ''b2'']"
  by (simp add: scenarioVector_events TopologicalSort_def build_dag_def dag_step_def topo_loop.simps compare_defs
      upt_rec sort_key_def)

lemma ordering_TestFrontiersScenario:
  "List.map ev_ID (MaximalElements HappensBefore scenarioVector) = [''b2'']"
  "List.map ev_ID (MinimalElements HappensBefore scenarioVector) = [''a1'', ''b1'']"
  by (simp_all add: scenarioVector_events MaximalElements_def MinimalElements_def compare_defs)

lemma ordering_TestTopologicalSortEmpty: "TopologicalSort hb [] = []"
  and ordering_TestTopologicalSortSingleEvent:
    "TopologicalSort HappensBefore [\<lparr>ev_ID = ''only'', ev_Stamp = LamportStamp 1, ev_Data = ()\<rparr>] =
       [\<lparr>ev_ID = ''only'', ev_Stamp = LamportStamp 1, ev_Data = ()\<rparr>]"
  by (simp_all add: TopologicalSort_def build_dag_def dag_step_def topo_loop.simps Let_def upt_rec sort_key_def)

lemma ordering_TestTopologicalSortLamport:
  "List.map ev_ID (TopologicalSort HappensBefore
     [\<lparr>ev_ID = ''c'', ev_Stamp = LamportStamp 3, ev_Data = ()\<rparr>, \<lparr>ev_ID = ''a'', ev_Stamp = LamportStamp 1, ev_Data = ()\<rparr>,
      \<lparr>ev_ID = ''b'', ev_Stamp = LamportStamp 3, ev_Data = ()\<rparr>, \<lparr>ev_ID = ''d'', ev_Stamp = LamportStamp 5, ev_Data = ()\<rparr>])
   = [''a'', ''b'', ''c'', ''d'']"
  by (simp add: TopologicalSort_def build_dag_def dag_step_def topo_loop.simps Let_def upt_rec sort_key_def)

lemma ordering_TestMaximalElementsAllConcurrent:
  "let events = List.map (\<lambda>p. \<lparr>ev_ID = p, ev_Stamp = NewVectorStamp (snd (vector_Tick (vector_New p))), ev_Data = ()\<rparr>)
     [''x'', ''y'', ''z'']
   in length (MaximalElements HappensBefore events) = 3 \<and> length (MinimalElements HappensBefore events) = 3"
  by (simp add: NewVectorStamp_def vector_New_def vector_Tick_def snapshotLocked_def copy_loop_def mput_def
      MaximalElements_def MinimalElements_def compare_defs)

section \<open>\<^verbatim>\<open>truetime/interval_test.go\<close> and \<^verbatim>\<open>truetime/clock_test.go\<close>\<close>

definition truetime_base :: gotime where
  "truetime_base = time_Unix 1700000000 0"

text \<open>An interval that starts and ends so many milliseconds after the base.\<close>

abbreviation after_base :: "duration \<Rightarrow> gotime" where
  "after_base ms \<equiv> time_Add truetime_base (ms * Millisecond)"

abbreviation span :: "duration \<Rightarrow> duration \<Rightarrow> interval" where
  "span a b \<equiv> \<lparr>Earliest = after_base a, Latest = after_base b\<rparr>"

lemmas interval_test_defs = truetime_base_def time_Unix_def time_Add_def time_Sub_def time_Before_def time_After_def
  saturate_def Millisecond_def Microsecond_def interval_Width_def interval_Contains_def interval_Before_def
  interval_Definitely_def Let_def

lemma truetime_TestWidth: "interval_Width (span 0 7) = 7 * Millisecond"
  by (simp add: interval_test_defs)

lemma truetime_TestContains:
  "interval_Contains (span 0 10) (after_base 0)" "interval_Contains (span 0 10) (after_base 5)"
  "interval_Contains (span 0 10) (after_base 10)" "\<not> interval_Contains (span 0 10) (time_Add truetime_base (- Microsecond))"
  "\<not> interval_Contains (span 0 10) (after_base 11)"
  by (simp_all add: interval_test_defs)

lemma truetime_TestBefore:
  "interval_Before (span 0 5) (span 6 10)" "\<not> interval_Before (span 6 10) (span 0 5)"
  "\<not> interval_Before (span 0 5) (span 3 8)"
  by (simp_all add: interval_test_defs)

lemma truetime_TestDefinitely:
  "interval_Definitely (span 5 10) (after_base 0)" "interval_Definitely (span 5 10) (after_base 5)"
  "\<not> interval_Definitely (span 5 10) (after_base 6)"
  by (simp_all add: interval_test_defs)

lemma truetime_TestZeroWidthInterval:
  "interval_Width (span 0 0) = 0" "interval_Contains (span 0 0) (after_base 0)"
  "interval_Definitely (span 0 0) (after_base 0)" "\<not> interval_Definitely (span 0 0) (time_Add truetime_base 1)"
  by (simp_all add: interval_test_defs)

lemma truetime_TestClock:
  "tt_Now (fake_source_Now (NewFakeSource (span 0 7))) = span 0 7"
  "let reading = fake_source_Now (NewFakeSource (span 5 10))
   in tt_After reading (after_base 0) \<and> \<not> tt_After reading (after_base 5) \<and> \<not> tt_After reading (after_base 8)"
  "let reading = fake_source_Now (NewFakeSource (span 0 5))
   in tt_Before reading (after_base 6) \<and> \<not> tt_Before reading (after_base 5)"
  by (simp_all add: tt_Now_def tt_After_def tt_Before_def NewFakeSource_def fake_source_Now_def interval_test_defs)

lemma truetime_TestFakeSourceSetReplaces: "fake_source_Now (fake_source_Set i f) = i"
  by (simp add: fake_source_Now_def fake_source_Set_def)

lemma truetime_TestFakeSourceAdvancePreservesWidth:
  "let got = fake_source_Now (fake_source_Advance (100 * Millisecond) (NewFakeSource (span 0 7)))
   in got = span 100 107 \<and> interval_Width got = 7 * Millisecond"
  by (simp add: NewFakeSource_def fake_source_Advance_def fake_source_Now_def interval_test_defs)

section \<open>\<^verbatim>\<open>truetime/commit_wait_test.go\<close>\<close>

text \<open>
  Another goroutine moves the source while the wait polls it: \<open>moved m i j n\<close> is the \<open>n\<close>-th reading when the first
  \<open>m\<close> readings see \<open>i\<close> and the later ones \<open>j\<close>. The tests are proved for every \<open>m\<close>, that is for any time the
  source may be moved at.
\<close>

definition moved :: "nat \<Rightarrow> interval \<Rightarrow> interval \<Rightarrow> nat \<Rightarrow> interval" where
  "moved m i j n = (if n < m then i else j)"

lemma truetime_TestCommitWaitFastPath:
  "CommitWait (\<lambda>_. span 1000 2000) done truetime_base = Some \<lparr>cw_err = None, cw_readings = 1, cw_waits = []\<rparr>"
  by (simp add: CommitWait_def tt_After_def interval_test_defs)

lemma truetime_TestCommitWaitWaitsForUncertainty:
  "map_option cw_err (CommitWait (moved m (span 0 7) (span 10 17)) (\<lambda>_. None :: unit option) (after_base 5)) = Some None"
proof -
  have late: "time_After (after_base 10) (after_base 5)" and early: "\<not> time_After (after_base 0) (after_base 5)"
    by (simp_all add: interval_test_defs)
  have "ends_at (moved m (span 0 7) (span 10 17)) (\<lambda>_. None :: unit option) (after_base 5) m"
    and "\<forall>k < m. \<not> ends_at (moved m (span 0 7) (span 10 17)) (\<lambda>_. None :: unit option) (after_base 5) k"
    using late early by (simp_all add: ends_at_def moved_def del: mult_zero_left)
  from CommitWait_at [OF this] show ?thesis using late by (simp add: moved_def)
qed

lemma truetime_TestCommitWaitContextCancellation:
  assumes "1 \<le> m"
  shows "map_option cw_err (CommitWait (\<lambda>_. span 0 1) (\<lambda>n. if m \<le> n then Some e else None) (after_base 3600000)) = Some (Some e)"
proof -
  let ?done = "\<lambda>n. if m \<le> n then Some e else None"
  have early: "\<not> time_After (after_base 0) (after_base 3600000)" by (simp add: interval_test_defs)
  then have "ends_at (\<lambda>_. span 0 1) ?done (after_base 3600000) m"
    and "\<forall>k < m. \<not> ends_at (\<lambda>_. span 0 1) ?done (after_base 3600000) k"
    using assms by (simp_all add: ends_at_def del: mult_zero_left)
  from CommitWait_at [OF this] show ?thesis using early by simp
qed

lemma truetime_TestWithCommitWaitReturnsFnError:
  "map_option cw_err (WithCommitWait readings done (Some wantErr)) = Some (Some wantErr)"
  by (simp add: WithCommitWait_def)

lemma truetime_TestWithCommitWaitWaitsAfterSuccessfulFn:
  "1 \<le> m \<Longrightarrow> map_option cw_err (WithCommitWait (moved m (span 0 5) (span 20 25)) (\<lambda>_. None :: unit option) None) = Some None"
proof -
  assume m: "1 \<le> m"
  let ?r = "\<lambda>n. moved m (span 0 5) (span 20 25) (n + 1)"
  have late: "time_After (after_base 20) (after_base 5)" and early: "\<not> time_After (after_base 0) (after_base 5)"
    by (simp_all add: interval_test_defs)
  have "ends_at ?r (\<lambda>_. None :: unit option) (after_base 5) (m - 1)"
    and "\<forall>k < m - 1. \<not> ends_at ?r (\<lambda>_. None :: unit option) (after_base 5) k"
    using late early m by (auto simp: ends_at_def moved_def simp del: mult_zero_left)
  from CommitWait_at [OF this] have "map_option cw_err (CommitWait ?r (\<lambda>_. None :: unit option) (after_base 5)) = Some None"
    using late m by (simp add: moved_def)
  then show ?thesis using m by (simp add: WithCommitWait_def moved_def tt_Now_def option.map_comp comp_def)
qed

text \<open>
  \<^verbatim>\<open>TestCommitWaitConcurrent\<close> runs 50 such waits on one source; each of them polls on its own, and
  \<open>truetime_TestCommitWaitWaitsForUncertainty\<close> is about every number of readings before the source is moved.
\<close>

section \<open>\<^verbatim>\<open>internal/wallclock/clock_test.go\<close>\<close>

lemma wallclock_TestFakeStartsAtInitial:
  "fake_Now (NewFake start) = start" "fake_NowNanos (NewFake start) = time_UnixNano start"
  by (simp_all add: fake_defs)

lemma wallclock_TestFakeSetJumpsToAbsoluteTime: "fake_Now (fake_Set target f) = target"
  by (simp add: fake_defs)

lemma wallclock_TestFakeMoves:
  "fake_Now (fake_Advance (250 * Millisecond) (NewFake (time_Unix 1000 0))) = time_Add (time_Unix 1000 0) (250 * Millisecond)"
  "fake_Now (fake_Step (1000 * Millisecond) (NewFake (time_Unix 1000 0))) = time_Unix 1001 0"
  by (simp_all add: fake_defs time_Unix_def time_Add_def Millisecond_def Let_def)

lemma wallclock_TestFakeReverseSimulatesNTPBackwardStep:
  "fake_Now (fake_Reverse (200 * Millisecond) (fake_Advance (500 * Millisecond) (NewFake (time_Unix 1000 0)))) =
     time_Add (time_Unix 1000 0) (300 * Millisecond)"
  by (simp add: fake_defs time_Unix_def time_Add_def Millisecond_def Let_def)

section \<open>\<^verbatim>\<open>vector/encode_test.go\<close>\<close>

lemma marshal_writes:
  assumes "vector_MarshalBinary s = Inr data"
  shows "data = encoding (sorted_entries (sn_vec s))" and "short_ids (sorted_entries (sn_vec s))"
    and "length (sorted_entries (sn_vec s)) \<le> 0xFFFF"
  using assms by (auto simp: MarshalBinary_encoding split: if_splits)

lemma vector_TestRoundTripBinary:
  "case vector_MarshalBinary \<lparr>sn_nodeID = [], sn_vec = [(''alpha'', 1), (''beta'', 1000000), (''gamma'', 42)]\<rparr> of
     Inl e \<Rightarrow> False
   | Inr data \<Rightarrow> vector_UnmarshalBinary data out =
       (\<lparr>sn_nodeID = [], sn_vec = [(''alpha'', 1), (''beta'', 1000000), (''gamma'', 42)]\<rparr>, None)"
proof -
  let ?m = "[(''alpha'', 1), (''beta'', 1000000), (''gamma'', 42)] :: counters"
  have "sorted_entries ?m = ?m" by (simp add: sorted_entries_def keys_def mget_def)
  moreover have "copy_loop ?m [] = ?m" by (simp add: copy_loop_def mput_def mget_def)
  ultimately show ?thesis
    using UnmarshalBinary_encoding [of ?m "[]" out] by (simp add: MarshalBinary_encoding)
qed

text \<open>The encoding is a function of the map, not of the order in which \<^verbatim>\<open>range\<close> visits it.\<close>

lemma vector_TestBinaryFormatStable:
  assumes "same_map m m'" and "wf_map m" and "wf_map m'"
  shows "vector_MarshalBinary \<lparr>sn_nodeID = p, sn_vec = m\<rparr> = vector_MarshalBinary \<lparr>sn_nodeID = q, sn_vec = m'\<rparr>"
proof -
  have entries: "sorted_entries m = sorted_entries m'" using assms by (simp add: sorted_entries_same_iff)
  then have "length m = length m'" by (metis length_sorted_entries)
  then show ?thesis using entries sort_keys_same [OF assms(2,3,1)] by (simp add: MarshalBinary_encoding)
qed

text \<open>Every proper prefix of an encoding is rejected, and every extension.\<close>

lemma vector_TestUnmarshalRejectsTruncated:
  assumes "vector_MarshalBinary s = Inr data" and "n < length data"
  shows "vector_UnmarshalBinary (take n data) out = (out, Some VectorErrCorruptEncoding)"
proof (cases "snd (vector_UnmarshalBinary (take n data) out)")
  case None
  then obtain s' where "vector_UnmarshalBinary (take n data) out = (s', None)" by (metis prod.collapse)
  then obtain es where es: "short_ids es" "length es \<le> 0xFFFF" "take n data = encoding es"
    using UnmarshalBinary_accepts by blast
  note w = marshal_writes [OF assms(1)]
  have "data = encoding es @ drop n data" using es(3) by (metis append_take_drop_id)
  moreover have "drop n data \<noteq> []" using assms(2) by simp
  ultimately have "snd (vector_UnmarshalBinary data out) \<noteq> None"
    using UnmarshalBinary_encoding [OF es(1,2), of "drop n data" out] by simp
  then show ?thesis using UnmarshalBinary_encoding [OF w(2,3), of "[]" out] w(1) by simp
next
  case (Some e)
  then show ?thesis by (cases e) (auto simp: vector_UnmarshalBinary_def Let_def split: if_splits sum.splits)
qed

lemma vector_TestUnmarshalRejectsTrailingGarbage:
  assumes "vector_MarshalBinary s = Inr data"
  shows "vector_UnmarshalBinary (data @ [0xDE, 0xAD]) out = (out, Some VectorErrCorruptEncoding)"
  using marshal_writes [OF assms] UnmarshalBinary_encoding by simp

lemma vector_TestUnmarshalEmpty:
  "vector_MarshalBinary \<lparr>sn_nodeID = [], sn_vec = []\<rparr> = Inr [0, 0]"
  "snapshot_Nodes (fst (vector_UnmarshalBinary [0, 0] out)) = []" "snd (vector_UnmarshalBinary [0, 0] out) = None"
proof -
  have e: "encoding [] = [0, 0]" by (simp add: encoding_def be_put_def upt_rec)
  show "vector_MarshalBinary \<lparr>sn_nodeID = [], sn_vec = []\<rparr> = Inr [0, 0]"
    using e by (simp add: MarshalBinary_encoding sorted_entries_def keys_def)
  show "snapshot_Nodes (fst (vector_UnmarshalBinary [0, 0] out)) = []" "snd (vector_UnmarshalBinary [0, 0] out) = None"
    using UnmarshalBinary_encoding [of "[]" "[]" out] e by (simp_all add: copy_loop_def snapshot_Nodes_def)
qed

end
