(* ===== verification/Spec2Isabelle.thy ===== *)
theory Spec2Isabelle
  imports Stamps Hlc_Encode Vector_Encode Hlc_Json Vector_Json Vector_KV Dotted Ntp_Loop Ntp_Race Ntp_Truetime
    Messaging Scenarios Output Goroutines Goroutines_Time Progress Locking Hlc_Wall Causality Sharing
    Benchmarks Unit_Tests Concurrent_Tests Package_Tests
begin

text \<open>
  A verification development for the Go library \<^verbatim>\<open>chrono\<close>, which implements the clocks of distributed
  systems: Lamport clocks (\<^verbatim>\<open>lamport/\<close>), vector clocks (\<^verbatim>\<open>vector/\<close>), hybrid logical clocks (\<^verbatim>\<open>hlc/\<close>),
  dotted versions of stored values (\<^verbatim>\<open>dotted/\<close>), a TrueTime-style interval clock with commit wait
  (\<^verbatim>\<open>truetime/\<close>), and functions that order events by their stamps (\<^verbatim>\<open>ordering/\<close>).

  How the program is modelled. The components are modelled with every method of a clock as one function: it
  takes the clock and returns the new clock with its result. Two theories justify this. \<open>Goroutines\<close> has the
  methods statement by statement and any number of goroutines that run them under the clock's mutex, and shows
  that each behaves as one step between its call and its return; \<open>Sharing\<close> has the maps as addresses
  in a heap and shows that no program sees a write through another reference. Structs are records, enumerations
  and the implementations of an interface are datatypes, \<^verbatim>\<open>uint64\<close>, \<^verbatim>\<open>int64\<close> and \<^verbatim>\<open>uint32\<close> are words
  that wrap, errors and panics are values of sums and options. A Go map is an association list whose order
  stands for the order in which \<^verbatim>\<open>range\<close> happens to visit it; results are shown not to depend on it.
  What comes from outside (wall-clock readings, network replies, timers, cancelled contexts) is an
  argument about which nothing is assumed, except where a property states its hypothesis.

  The theories, in the order in which they build on each other:

  \<^item> \<open>Prelude\<close>: machine integers and Go's map with its loops, shared lemmas on counters.
  \<^item> \<open>Network\<close>: executions of processes that tick, send and receive (messages may be lost, delayed,
    duplicated or reordered), Lamport's happened-before relation on their events, and the contracts
    of a clock as locales: \<open>causal_clock\<close> (stamps grow along happened-before) and \<open>entry_clock\<close>
    (a stamp knows how many events of each process precede it). The clock condition and its converse
    are proved once, inside the locales.
  \<^item> \<open>Lamport\<close>, \<open>Hlc\<close>, \<open>Vector\<close>: \<^verbatim>\<open>lamport/clock.go\<close>, \<^verbatim>\<open>hlc/clock.go\<close>, \<^verbatim>\<open>vector/clock.go\<close> and
    \<^verbatim>\<open>vector/compare.go\<close>, method by method; each interprets its locale on the code's operations.
    \<open>Hlc\<close> also refines the published update rules on unbounded numbers.
  \<^item> \<open>Bytes\<close>, \<open>Decimal\<close>, \<open>Go_Format\<close>: \<^verbatim>\<open>encoding/binary\<close>, slices and buffers; printing of integers; of
    durations, dates and times of day, in a local zone whose offset from UTC is an argument.
  \<^item> \<open>Vector_Encode\<close>, \<open>Hlc_Encode\<close>: the binary formats of \<^verbatim>\<open>vector/encode.go\<close> and \<^verbatim>\<open>hlc/encode.go\<close>, with the
    encoder's buffer and offsets, against the format as a reference definition \<open>encoding\<close>.
  \<^item> \<open>Utf8\<close>, \<open>Json_String\<close>, \<open>Json\<close>, \<open>Json_Decode\<close>: what the library uses of \<^verbatim>\<open>encoding/json\<close>: runes,
    string literals with their escapes, the scanner as a parser into trees (with the limit of 10000 on the nesting), the
    compact text of a tree, and storing a tree into structs, maps, strings and integers with the saved first error. What is
    written parses back, and what is scanned decodes without a panic; the locales \<open>json_target\<close> and \<open>json_struct\<close>
    are the contract of a type that is decoded. \<open>Vector_Json\<close>, \<open>Hlc_Json\<close>: the JSON methods of
    \<^verbatim>\<open>vector/encode.go\<close> and \<^verbatim>\<open>hlc/encode.go\<close> on top of them.
  \<^item> \<open>History\<close>: the sets of events a map of counters stands for, and the locales \<open>causal_order\<close> and
    \<open>causal_join\<close> for versions compared and merged by their histories.
  \<^item> \<open>Dotted\<close>: \<^verbatim>\<open>dotted/version.go\<close> and \<^verbatim>\<open>dotted/resolve.go\<close>, as an implementation of sets of dots.
  \<^item> \<open>Vector_KV\<close>: the store of \<^verbatim>\<open>examples/vector_kv/main.go\<close>, a client of the vector clocks.
  \<^item> \<open>Ordering\<close>: \<^verbatim>\<open>ordering/partial_order.go\<close>. The loops over indices, in-degrees and successor lists are
    related to an abstract algorithm that always takes the first free index, and the locale
    \<open>comparable\<close> collects what a strict partial order on the stamps gives.
  \<^item> \<open>Stamps\<close>: the adapters of \<^verbatim>\<open>ordering/happens_before.go\<close>, an interpretation of that locale.
  \<^item> \<open>Go_Time\<close>: \<^verbatim>\<open>time.Time\<close> with its monotonic reading, durations, and \<^verbatim>\<open>internal/wallclock\<close>.
  \<^item> \<open>Truetime\<close>: \<^verbatim>\<open>truetime/interval.go\<close>, \<^verbatim>\<open>truetime/clock.go\<close> and \<^verbatim>\<open>truetime/commit_wait.go\<close>. The commit-wait
    loop may run forever and is a partial function; it is shown when it returns, with what, and after
    how many readings at the latest.
  \<^item> \<open>Ntp\<close>: the query, the reading and the parsing of \<^verbatim>\<open>truetime/ntp_source.go\<close>; \<open>Ntp_Loop\<close>: its
    \<^verbatim>\<open>Start\<close> and \<^verbatim>\<open>Stop\<close> as a step relation over the goroutines they launch, with their channels and
    panics, for one owner that calls them in turn (a second \<^verbatim>\<open>Start\<close> without a \<^verbatim>\<open>Stop\<close> leaks the first loop); \<open>Ntp_Race\<close>: one call of each by two goroutines, statement by statement;
    \<open>Ntp_Truetime\<close>: the clock over its \<^verbatim>\<open>UncertaintySource\<close>, and external consistency on top of NTP.
  \<^item> \<open>Messaging\<close>: the two goroutines of \<^verbatim>\<open>examples/lamport_messaging/main.go\<close> as a step relation, with every
    schedule; \<open>Examples\<close>: the calls of \<^verbatim>\<open>examples/hlc_db/main.go\<close> and \<^verbatim>\<open>examples/truetime_external/main.go\<close>;
    \<open>Output\<close>: the text that the four examples print.
  \<^item> \<open>Mutex\<close>: goroutines that call the methods of one object, each method a list of reads and writes under
    \<^verbatim>\<open>sync.Mutex\<close> or \<^verbatim>\<open>sync.RWMutex\<close>, as a step relation with every schedule. The locale \<open>mutex_object\<close> shows that
    such a system has only the histories of an object whose methods are atomic; \<open>Call_Stamps\<close>: the locale
    \<open>stamping\<close>, an atomic object that hands out increasing stamps, and what its callers can rely on.
  \<^item> \<open>Goroutines\<close>: the bodies of the methods of the three clocks, with interpretations of both locales;
    \<open>Goroutines_Time\<close>: the same for \<^verbatim>\<open>wallclock.Fake\<close>, \<^verbatim>\<open>truetime.FakeSource\<close> and the fields of the NTP source;
    \<open>Progress\<close>: every schedule ends, by a measure of the work left, and no update is lost, by the locale \<open>counting\<close>
    (exactly, while the counter cannot wrap and what is received stems from the clock itself).
  \<^item> \<open>Locking\<close>: the methods of the clocks with their \<^verbatim>\<open>Lock\<close>, \<^verbatim>\<open>RLock\<close> and deferred unlocks as statements, on a
    lock that does not know who holds it, so that a forgotten unlock or a second lock is a different program and can
    deadlock. The locale \<open>guarded_code\<close> is the discipline the methods follow; it gives the histories of
    \<open>Mutex\<close> and freedom from deadlock.
  \<^item> \<open>Nested\<close>: a guarded object whose methods call another guarded object under their lock, while other goroutines
    use that one too; the locales \<open>nested_object\<close> and \<open>nested_mutex\<close> show that the pair is atomic and free of
    deadlock. \<open>Hlc_Wall\<close>: the hybrid clock on a shared \<^verbatim>\<open>wallclock.Fake\<close> as an interpretation.
  \<^item> \<open>Causality\<close>: what the numbers in the stamps count: a vector entry the events in the causal past, a
    Lamport stamp the longest causal chain; and the events below a hybrid timestamp as a consistent cut.
  \<^item> \<open>Sharing\<close>: the methods of \<^verbatim>\<open>vector/\<close> and \<^verbatim>\<open>dotted/\<close> on a heap of maps, and the invariant of ownership
    (clocks and clients own their maps; snapshots and versions, which nobody writes to, may share).
  \<^item> \<open>Scenarios\<close>: the tests of \<^verbatim>\<open>proofs/\<close> and the examples of the package documentation, with the general
    statements behind the traces.
  \<^item> \<open>Unit_Tests\<close>, \<open>Package_Tests\<close>: the unit tests beside the packages, each as a lemma that bears its name and says that
    what the test requires holds of the model; \<open>Concurrent_Tests\<close>: those that start goroutines, for every schedule.
    \<open>Benchmarks\<close>: the bodies of \<^verbatim>\<open>benchmarks/bench_test.go\<close> and the values they compute in any number of iterations.
  \<^item> this theory: properties that join the clocks with the ordering functions.

  Limits that the properties state: an execution has fewer than \<open>2 ^ 64\<close> steps (\<open>2 ^ 32\<close> for hybrid
  clocks), so that no counter wraps; what happens when one does wrap is stated in properties of its
  own. Loops over slices are recursive functions with a measure, so they need no fuel. The statements of a
  method run in the order of the source and see each other's effects at once: between a lock and its
  release Go promises that, and a method of the library touches shared fields nowhere else (the fields
  \<^verbatim>\<open>cancel\<close> and \<^verbatim>\<open>done\<close> of the NTP source excepted, which one goroutine owns in \<open>Ntp_Loop\<close> and
  two goroutines race for in \<open>Ntp_Race\<close>). Recursion in the JSON parser is on the length of the input.

  Not modelled: the UDP exchange itself, of which the model sees the outcome; of \<^verbatim>\<open>encoding/json\<close>, the texts of
  its errors, and the nil map of a zero \<^verbatim>\<open>Snapshot{}\<close>, written as \<^verbatim>\<open>null\<close>; the running time that benchmarks measure; the operating system's clock, which two tests of
  \<^verbatim>\<open>internal/wallclock\<close> are about.
\<close>

section \<open>Sorting the events of an execution\<close>

text \<open>The stamped events of an execution, as an application would hand them to the sort.\<close>

definition trace_events ::
  "('s \<Rightarrow> stamp) \<Rightarrow> (nat \<Rightarrow> string) \<Rightarrow> ('s, 'i) trace \<Rightarrow> (stamp, nat) event list" where
  "trace_events wrap ids tr =
     concat (List.map (\<lambda>i. case stamp_at tr i of
         None \<Rightarrow> []
       | Some s \<Rightarrow> [\<lparr>ev_ID = ids i, ev_Stamp = wrap s, ev_Data = i\<rparr>]) [0..<length tr])"

lemma in_trace_events:
  "e \<in> set (trace_events wrap ids tr) \<longleftrightarrow>
    (\<exists>i s. stamp_at tr i = Some s \<and> e = \<lparr>ev_ID = ids i, ev_Stamp = wrap s, ev_Data = i\<rparr>)"
proof -
  have "stamp_at tr i = Some s \<Longrightarrow> i < length tr" for i s
    by (simp add: stamp_at_def split: if_splits)
  then show ?thesis by (force simp: trace_events_def split: option.splits)
qed

text \<open>The sort returns all events, and none after one that it happened before.\<close>

definition sorts_causally ::
  "('s \<Rightarrow> stamp) \<Rightarrow> (nat \<Rightarrow> string) \<Rightarrow> ('s, 'i) trace \<Rightarrow> bool" where
  "sorts_causally wrap ids tr \<longleftrightarrow>
     (let es = trace_events wrap ids tr; out = TopologicalSort HappensBefore es
      in mset out = mset es \<and>
         sorted_wrt (\<lambda>e f. \<not> happened_before tr (ev_Data f) (ev_Data e)) out)"

text \<open>If the stamps satisfy the clock condition, the sort respects happened-before.\<close>

lemma sort_execution:
  assumes ok: "\<And>i s. stamp_at tr i = Some s \<Longrightarrow> stamp_ok (wrap s)"
    and cc: "\<And>i j s u. happened_before tr i j \<Longrightarrow> stamp_at tr i = Some s \<Longrightarrow>
      stamp_at tr j = Some u \<Longrightarrow> HappensBefore (wrap s) (wrap u)"
  shows "sorts_causally wrap ids tr"
proof -
  let ?es = "trace_events wrap ids tr"
  have "\<forall>e \<in> set ?es. stamp_ok (ev_Stamp e)" using ok by (auto simp: in_trace_events)
  from stamps.sort_output [OF this] have out:
    "mset (TopologicalSort HappensBefore ?es) = mset ?es \<and>
      sorted_wrt (\<lambda>e f. \<not> HappensBefore (ev_Stamp f) (ev_Stamp e)) (TopologicalSort HappensBefore ?es)" .
  let ?out = "TopologicalSort HappensBefore ?es"
  have "set ?out = set ?es" using out by (metis mset_eq_setD)
  then have step: "\<not> happened_before tr (ev_Data f) (ev_Data e)"
    if "e \<in> set ?out" "f \<in> set ?out" "\<not> HappensBefore (ev_Stamp f) (ev_Stamp e)" for e f
    using that cc by (auto simp: in_trace_events)
  have "sorted_wrt (\<lambda>e f. \<not> happened_before tr (ev_Data f) (ev_Data e)) ?out"
    by (rule sorted_wrt_mono_rel [OF step conjunct2 [OF out]])
  then show ?thesis using out by (simp add: sorts_causally_def)
qed

section \<open>Properties that span components\<close>

text \<open>
  C4. Sorting an execution. In every execution with Lamport, hybrid or vector clocks (below the limits of
  their counters), \<^verbatim>\<open>TopologicalSort\<close> of the stamped events is a permutation of them in which no event
  comes after one that it happened before, whatever IDs the events carry.
\<close>

theorem executions_sorted:
  assumes "length lops \<le> 2 ^ 64 - 1" and "length hops \<le> 2 ^ 32 - 1" and "length vops \<le> 2 ^ 64 - 1"
  shows "sorts_causally LamportStamp ids (trace (lamport_net lops)) \<and>
    sorts_causally HLCStamp ids (trace (hlc_net drift hops)) \<and>
    sorts_causally VectorStamp ids (trace (vector_net vops))"
proof (intro conjI)
  show "sorts_causally LamportStamp ids (trace (lamport_net lops))"
    unfolding lamport_net_def
    by (rule sort_execution) (auto dest: lamport_clock.clock_condition [OF assms(1)])
  show "sorts_causally HLCStamp ids (trace (hlc_net drift hops))"
    unfolding hlc_net_def
    by (rule sort_execution) (auto dest: hlc_causal.clock_condition [OF assms(2)])
  show "sorts_causally VectorStamp ids (trace (vector_net vops))"
    unfolding vector_net_run
    by (rule sort_execution)
       (auto dest: vector_exact.clock_condition [OF assms(3)] vector_exact.run_ok [OF assms(3)])
qed

theorem executions_sorted_witness:
  "sorts_causally VectorStamp (\<lambda>i. ''id'') (trace (vector_net vector_demo)) \<and>
   length (trace (vector_net vector_demo)) = 4"
proof -
  have "length vector_demo \<le> 2 ^ 64 - 1" by (simp add: vector_demo_def)
  moreover have "length (trace (vector_net vector_demo)) = 4" by (simp add: vector_demo_trace)
  ultimately show ?thesis using executions_sorted [of "[]" "[]" vector_demo] by simp
qed

text \<open>
  The frontier of an execution with vector clocks is exact: \<^verbatim>\<open>MaximalElements\<close> of its stamped events
  returns, in order, precisely the events that happened before no other event.
\<close>

lemma vector_frontier_exact:
  assumes "length ops \<le> 2 ^ 64 - 1"
  shows "MaximalElements HappensBefore (trace_events VectorStamp ids (trace (vector_net ops))) =
    filter (\<lambda>e. {j. happened_before (trace (vector_net ops)) (ev_Data e) j} = {})
      (trace_events VectorStamp ids (trace (vector_net ops)))"
proof -
  let ?tr = "trace (vector_net ops)" and ?es = "trace_events VectorStamp ids (trace (vector_net ops))"
  have ok: "\<forall>e \<in> set ?es. stamp_ok (ev_Stamp e)"
    using vector_exact.run_ok [OF assms] by (auto simp: in_trace_events vector_net_run)
  have hb: "HappensBefore (ev_Stamp e) (ev_Stamp f) \<longleftrightarrow> happened_before ?tr (ev_Data e) (ev_Data f)"
    if "e \<in> set ?es" "f \<in> set ?es" for e f
    using that vector_exact.strong_clock_condition [OF assms] by (auto simp: in_trace_events vector_net_run)
  have ev: "\<exists>f \<in> set ?es. ev_Data f = j" if "happened_before ?tr i j" for i j
    using happened_before_stamp [OF that] by (force simp: in_trace_events)
  have "(\<forall>f \<in> set ?es. \<not> HappensBefore (ev_Stamp e) (ev_Stamp f)) \<longleftrightarrow>
      {j. happened_before ?tr (ev_Data e) j} = {}" if "e \<in> set ?es" for e
    using hb [OF that] ev by blast
  then show ?thesis
    unfolding stamps.MaximalElements_filter_events [OF ok] by (intro filter_cong) auto
qed

text \<open>
  Equal scalar stamps mean concurrent events. If two different events of an execution carry the same
  Lamport stamp, or the same hybrid stamp, the adapters answer \<^verbatim>\<open>Concurrent\<close> and the events are concurrent.
\<close>

lemma equal_stamps_are_concurrent:
  assumes "length lops \<le> 2 ^ 64 - 1" and "length hops \<le> 2 ^ 32 - 1" and "i \<noteq> j" and "k \<noteq> l"
    and "stamp_at (trace (lamport_net lops)) i = Some s" and "stamp_at (trace (lamport_net lops)) j = Some t"
    and "stamp_at (trace (hlc_net drift hops)) k = Some u" and "stamp_at (trace (hlc_net drift hops)) l = Some v"
    and "stamp_Concurrent (LamportStamp s) (LamportStamp t)" and "stamp_Concurrent (HLCStamp u) (HLCStamp v)"
  shows "concurrent_events (trace (lamport_net lops)) i j \<and>
    concurrent_events (trace (hlc_net drift hops)) k l"
proof
  have "s = t" using assms(9) by simp
  then show "concurrent_events (trace (lamport_net lops)) i j"
    using lamport_clock.equal_stamps_concurrent [OF assms(1,3)] assms(5,6) by (simp add: lamport_net_def)
  have "u = v" using assms(10) by (simp add: ts_Equal_iff)
  then show "concurrent_events (trace (hlc_net drift hops)) k l"
    using hlc_causal.equal_stamps_concurrent [OF assms(2,4)] assms(7,8) by (simp add: hlc_net_def)
qed

text \<open>
  The converse fails, as the comments of the adapters say: in Lamport's own example the send of \<^verbatim>\<open>A\<close>
  and the first event of \<^verbatim>\<open>B\<close> are concurrent, but their Lamport stamps are ordered, \<^verbatim>\<open>HappensBefore\<close>
  answers true one way and \<^verbatim>\<open>Concurrent\<close> answers false.
\<close>

lemma lamport_stamps_incomplete:
  "stamp_at (trace (lamport_net lamport_demo)) 1 = Some 2 \<and>
   stamp_at (trace (lamport_net lamport_demo)) 2 = Some 1 \<and>
   concurrent_events (trace (lamport_net lamport_demo)) 1 2 \<and>
   HappensBefore (LamportStamp 1) (LamportStamp 2) \<and>
   \<not> stamp_Concurrent (LamportStamp 1) (LamportStamp 2)"
proof -
  have hb: "(i = 0 \<and> (j = 1 \<or> j = 3)) \<or> (i = 1 \<and> j = 3) \<or> (i = 2 \<and> j = 3)"
    if "happened_before (trace (lamport_net lamport_demo)) i j" for i j
    using that
  proof (induction rule: happened_before.induct)
    case (hb_local i j s t)
    then have "j < 4" by (simp add: stamp_at_def lamport_demo_trace split: if_splits)
    with hb_local show ?case
      by (auto simp: lamport_demo_trace less_Suc_eq numeral_eq_Suc)
  next
    case (hb_message j t p i x)
    then have "j < 4" by (simp add: stamp_at_def lamport_demo_trace split: if_splits)
    with hb_message show ?case by (auto simp: lamport_demo_trace less_Suc_eq numeral_eq_Suc)
  next
    case (hb_trans i j k)
    then show ?case by auto
  qed
  have "concurrent_events (trace (lamport_net lamport_demo)) 1 2"
    unfolding concurrent_events_def using hb by fastforce
  then show ?thesis by (simp add: lamport_demo_trace stamp_at_def)
qed

end
